(* ===== verification/Prelude.thy ===== *)
theory Prelude
  imports Main "HOL-Library.Signed_Division" "HOL-Library.Multiset"
begin

text \<open>
  Shared vocabulary of the development.

  Rust's fixed-width integers are HOL integers; every place where the source
  checks or could lose the width says so with the functions of this theory:
  \<open>try_i64\<close> is \<open>i64::try_from\<close>, \<open>checked_add\<close>, \<open>checked_sub\<close>, \<open>checked_mul\<close>
  and \<open>checked_abs\<close> are the methods of \<open>i64\<close> with the same names, and \<open>wrap_i64\<close>
  is the value of an unchecked \<open>i64\<close> operation in a release build.
  A fallible Rust function is a function into \<open>'e + 'a\<close>, where \<^term>\<open>Inl e\<close>
  is \<open>Err(e)\<close>; one that mutates its arguments returns them beside that result,
  so that what a failed call has already changed stays visible.
\<close>

section \<open>Collections of facts\<close>

named_theorems i64_defs \<open>the range predicate and the checked operations, unfolded\<close>
named_theorems cost_simps \<open>evaluation rules of the costing operations\<close>
named_theorems frame_simps \<open>what an operation leaves unchanged\<close>

section \<open>Machine integers\<close>

type_synonym i64 = int
type_synonym i128 = int

definition i64_min :: int where
  [i64_defs]: "i64_min = - 9223372036854775808"

definition i64_max :: int where
  [i64_defs]: "i64_max = 9223372036854775807"

definition is_i64 :: "int \<Rightarrow> bool" where
  [i64_defs]: "is_i64 x \<longleftrightarrow> i64_min \<le> x \<and> x \<le> i64_max"

definition i128_max :: int where
  [i64_defs]: "i128_max = 170141183460469231731687303715884105727"

definition is_i128 :: "int \<Rightarrow> bool" where
  [i64_defs]: "is_i128 x \<longleftrightarrow> - i128_max - 1 \<le> x \<and> x \<le> i128_max"

definition try_i64 :: "int \<Rightarrow> i64 option" where
  [i64_defs]: "try_i64 x = (if is_i64 x then Some x else None)"

definition checked_add :: "i64 \<Rightarrow> i64 \<Rightarrow> i64 option" where
  [i64_defs]: "checked_add a b = try_i64 (a + b)"

definition checked_sub :: "i64 \<Rightarrow> i64 \<Rightarrow> i64 option" where
  [i64_defs]: "checked_sub a b = try_i64 (a - b)"

definition checked_mul :: "i64 \<Rightarrow> i64 \<Rightarrow> i64 option" where
  [i64_defs]: "checked_mul a b = try_i64 (a * b)"

definition checked_abs :: "i64 \<Rightarrow> i64 option" where
  [i64_defs]: "checked_abs a = try_i64 \<bar>a\<bar>"

definition wrap_i64 :: "int \<Rightarrow> i64" where
  "wrap_i64 x = (x + 9223372036854775808) mod 18446744073709551616 - 9223372036854775808"

lemma try_i64_Some_iff [simp]: "try_i64 x = Some y \<longleftrightarrow> y = x \<and> is_i64 x"
  by (auto simp: try_i64_def)

lemma try_i64_None_iff [simp]: "try_i64 x = None \<longleftrightarrow> \<not> is_i64 x"
  by (simp add: try_i64_def)

lemma checked_Some_iff [simp]:
  "checked_add a b = Some c \<longleftrightarrow> c = a + b \<and> is_i64 (a + b)"
  "checked_sub a b = Some c \<longleftrightarrow> c = a - b \<and> is_i64 (a - b)"
  "checked_mul a b = Some c \<longleftrightarrow> c = a * b \<and> is_i64 (a * b)"
  "checked_abs a = Some c \<longleftrightarrow> c = \<bar>a\<bar> \<and> is_i64 \<bar>a\<bar>"
  by (simp_all add: checked_add_def checked_sub_def checked_mul_def checked_abs_def)

lemma checked_None_iff [simp]:
  "checked_add a b = None \<longleftrightarrow> \<not> is_i64 (a + b)"
  "checked_sub a b = None \<longleftrightarrow> \<not> is_i64 (a - b)"
  "checked_mul a b = None \<longleftrightarrow> \<not> is_i64 (a * b)"
  "checked_abs a = None \<longleftrightarrow> \<not> is_i64 \<bar>a\<bar>"
  by (simp_all add: checked_add_def checked_sub_def checked_mul_def checked_abs_def)

lemma is_i64_wrap [simp]: "is_i64 (wrap_i64 x)"
proof -
  have "0 \<le> (x + 9223372036854775808) mod 18446744073709551616"
    and "(x + 9223372036854775808) mod 18446744073709551616 < 18446744073709551616"
    by (rule pos_mod_sign, simp) (rule pos_mod_bound, simp)
  then show ?thesis by (simp add: wrap_i64_def is_i64_def i64_min_def i64_max_def)
qed

lemma wrap_i64_id: "is_i64 x \<Longrightarrow> wrap_i64 x = x"
  by (simp add: wrap_i64_def is_i64_def i64_min_def i64_max_def)

lemma is_i64_0 [simp]: "is_i64 0"
  by (simp add: i64_defs)

lemma is_i64_mono: "is_i64 b \<Longrightarrow> 0 \<le> a \<Longrightarrow> a \<le> b \<Longrightarrow> is_i64 a"
  by (simp add: i64_defs)

lemma is_i64_between: "is_i64 a \<Longrightarrow> is_i64 c \<Longrightarrow> a \<le> b \<Longrightarrow> b \<le> c \<Longrightarrow> is_i64 b"
  by (simp add: i64_defs)

lemma is_i64_diff_nonneg: "is_i64 a \<Longrightarrow> is_i64 b \<Longrightarrow> 0 \<le> a \<Longrightarrow> 0 \<le> b \<Longrightarrow> is_i64 (a - b)"
  by (simp add: i64_defs)

text \<open>A product of two \<open>i64\<close> values, and a sum of two such products, fit in an \<open>i128\<close>:
  the widening casts of the source never overflow.\<close>

lemma is_i128_prod:
  assumes "is_i64 a" "is_i64 b"
  shows "\<bar>a * b\<bar> \<le> 85070591730234615865843651857942052864"
proof -
  have "\<bar>a\<bar> \<le> 9223372036854775808" "\<bar>b\<bar> \<le> 9223372036854775808"
    using assms by (auto simp: i64_defs)
  then have "\<bar>a\<bar> * \<bar>b\<bar> \<le> 9223372036854775808 * 9223372036854775808"
    by (intro mult_mono) auto
  then show ?thesis by (simp add: abs_mult)
qed

section \<open>Results\<close>

definition is_ok :: "'e + 'a \<Rightarrow> bool" where
  "is_ok r = (case r of Inl _ \<Rightarrow> False | Inr _ \<Rightarrow> True)"

text \<open>Rust's \<open>?\<close> and \<open>and_then\<close>: the first error is the result.\<close>

definition and_then :: "'e + 'a \<Rightarrow> ('a \<Rightarrow> 'e + 'b) \<Rightarrow> 'e + 'b" where
  "and_then r f = (case r of Inl e \<Rightarrow> Inl e | Inr x \<Rightarrow> f x)"

lemma and_then_simps [simp]: "and_then (Inl e) f = Inl e" "and_then (Inr x) f = f x"
  by (simp_all add: and_then_def)

lemma and_then_Inr: "and_then r f = Inr y \<longleftrightarrow> (\<exists>x. r = Inr x \<and> f x = Inr y)"
  by (cases r) auto

lemma is_ok_simps [simp]: "is_ok (Inr x)" "\<not> is_ok (Inl e)"
  by (simp_all add: is_ok_def)

lemma is_ok_iff: "is_ok r \<longleftrightarrow> (\<exists>x. r = Inr x)"
  by (cases r) auto

section \<open>Sums over lists\<close>

lemma sum_list_nonneg_mem:
  fixes f :: "'a \<Rightarrow> int"
  shows "(\<And>x. x \<in> set xs \<Longrightarrow> 0 \<le> f x) \<Longrightarrow> 0 \<le> sum_list (map f xs)"
  by (induction xs) auto

lemma sum_list_map_uminus:
  fixes f :: "'a \<Rightarrow> int"
  shows "sum_list (map (\<lambda>x. - f x) xs) = - sum_list (map f xs)"
  by (induction xs) auto

lemma sum_list_map_perm:
  fixes f :: "'a \<Rightarrow> int"
  shows "mset xs = mset ys \<Longrightarrow> sum_list (map f xs) = sum_list (map f ys)"
  by (metis mset_map sum_mset_sum_list)

end
