(* ===== verification/Plan.thy ===== *)
theory Plan
  imports Prelude "HOL-Library.AList"
begin

text \<open>
  The data of a posting plan: pool methods, the closed error enumeration, line
  and event types with their SQL labels, and the three vectors of a plan result
  (\<open>ledger-core/src/{method,error,plan}.rs\<close>), together with the label decoder of
  \<open>ledger-spi-common/src/line_type.rs\<close>. Fields that several Rust structs share by
  name carry a prefix: \<open>req_\<close> for a request line, \<open>out_\<close> for a line to insert,
  \<open>post_\<close> for a posting. A Rust panic is the fault \<open>Panic\<close>, an error
  the fault \<open>Err\<close>. The theory shows that the SQL labels decode to the line type
  they were printed from, and that coalescing the aggregate upserts of a plan
  changes nothing of its effect on the pool states.
\<close>

section \<open>Methods and errors\<close>

type_synonym timestamp = int

datatype PoolMethod = Fifo | Lifo | Wac | Std | Specific

datatype ProvisionalBasis = RunningAvg | Standard

text \<open>The text of an overflow error is its fixed prefix and the pool it is formatted with.\<close>

datatype LedgerError =
    InsufficientInventory i64 i64 i64
  | MethodMismatch i64 PoolMethod PoolMethod
  | UnknownPool i64
  | MissingStandardCost i64 i64
  | MissingPostingAccounts i64 i64
  | MissingVarianceAccount i64
  | SpecificPoolOccupied i64 i64
  | Overflow string i64

datatype fault = Err LedgerError | Panic string

section \<open>Line types and their SQL labels\<close>

datatype LineType =
    PoReceiptLine
  | WoOutput
  | WoBackflush
  | WoScrap
  | InvAdjustmentLine
  | TransferShipmentLine
  | TransferReceiptLine
  | ManualAdjustmentLine
  | RevaluationLine

fun line_type_as_sql :: "LineType \<Rightarrow> string" where
  "line_type_as_sql PoReceiptLine = ''po_receipt_line''"
| "line_type_as_sql WoOutput = ''wo_output''"
| "line_type_as_sql WoBackflush = ''wo_backflush''"
| "line_type_as_sql WoScrap = ''wo_scrap''"
| "line_type_as_sql InvAdjustmentLine = ''inv_adjustment_line''"
| "line_type_as_sql TransferShipmentLine = ''transfer_shipment_line''"
| "line_type_as_sql TransferReceiptLine = ''transfer_receipt_line''"
| "line_type_as_sql ManualAdjustmentLine = ''manual_adjustment_line''"
| "line_type_as_sql RevaluationLine = ''revaluation_line''"

definition decode_line_type :: "string \<Rightarrow> LineType option" where
  "decode_line_type s =
    (if s = ''po_receipt_line'' then Some PoReceiptLine
     else if s = ''wo_output'' then Some WoOutput
     else if s = ''wo_backflush'' then Some WoBackflush
     else if s = ''wo_scrap'' then Some WoScrap
     else if s = ''inv_adjustment_line'' then Some InvAdjustmentLine
     else if s = ''transfer_shipment_line'' then Some TransferShipmentLine
     else if s = ''transfer_receipt_line'' then Some TransferReceiptLine
     else if s = ''manual_adjustment_line'' then Some ManualAdjustmentLine
     else if s = ''revaluation_line'' then Some RevaluationLine
     else None)"

datatype PostingEventType =
    InventoryReceipt
  | InventoryDepletion
  | WipMovement
  | Variance
  | Scrap
  | Adjustment
  | Revaluation

fun event_type_as_sql :: "PostingEventType \<Rightarrow> string" where
  "event_type_as_sql InventoryReceipt = ''inventory_receipt''"
| "event_type_as_sql InventoryDepletion = ''inventory_depletion''"
| "event_type_as_sql WipMovement = ''wip_movement''"
| "event_type_as_sql Variance = ''variance''"
| "event_type_as_sql Scrap = ''scrap''"
| "event_type_as_sql Adjustment = ''adjustment''"
| "event_type_as_sql Revaluation = ''revaluation''"

section \<open>Plans\<close>

record TrxLineRequest =
  req_pool_id :: i64
  req_line_type :: LineType
  req_source_id :: "i64 option"
  req_qty :: i64
  req_unit_cost :: i64

record TrxLineOutput =
  out_pool_id :: i64
  out_qty :: i64
  out_unit_cost :: i64
  out_source_trx_line_id :: "i64 option"
  out_line_type :: LineType
  out_source_id :: "i64 option"

text \<open>The arguments are, in the order of the source: pool, quantity, unit cost and value sum for an
  aggregate upsert; pool, index of the receipt in the plan's lines, quantity, unit cost and value
  sum for a new layer; pool and layer for a deletion.\<close>

datatype PoolStateMutation =
    UpsertAggregate i64 i64 i64 i64
  | InsertLayer i64 nat i64 i64 i64
  | DeleteLayer i64 i64

record PostingLineRequest =
  post_trx_line_idx :: nat
  post_event_type :: PostingEventType
  post_amount :: i64
  post_debit_account :: i64
  post_credit_account :: i64
  post_posted_at :: timestamp

record PlanResult =
  trx_lines :: "TrxLineOutput list"
  pool_state_mutations :: "PoolStateMutation list"
  posting_lines :: "PostingLineRequest list"

definition empty_plan :: PlanResult where
  "empty_plan = \<lparr>trx_lines = [], pool_state_mutations = [], posting_lines = []\<rparr>"

section \<open>Coalescing aggregate upserts\<close>

fun is_upsert :: "PoolStateMutation \<Rightarrow> bool" where
  "is_upsert (UpsertAggregate _ _ _ _) = True"
| "is_upsert _ = False"

fun record_idx :: "nat \<times> PoolStateMutation \<Rightarrow> (i64 \<times> nat) list \<Rightarrow> (i64 \<times> nat) list" where
  "record_idx (i, UpsertAggregate p _ _ _) last_idx = AList.update p i last_idx"
| "record_idx (i, _) last_idx = last_idx"

definition last_idx_of :: "PoolStateMutation list \<Rightarrow> (i64 \<times> nat) list" where
  "last_idx_of ms = fold record_idx (List.enumerate 0 ms) []"

fun keep_mutation :: "(i64 \<times> nat) list \<Rightarrow> nat \<times> PoolStateMutation \<Rightarrow> bool" where
  "keep_mutation last_idx (i, UpsertAggregate p _ _ _) = (map_of last_idx p = Some i)"
| "keep_mutation last_idx (i, _) = True"

definition coalesce_aggregates :: "PlanResult \<Rightarrow> PlanResult" where
  "coalesce_aggregates res =
    (let ms = pool_state_mutations res;
         last_idx = last_idx_of ms
     in if length last_idx = length ms \<and> list_all is_upsert ms then res
        else res\<lparr>pool_state_mutations :=
                   map snd (filter (keep_mutation last_idx) (List.enumerate 0 ms))\<rparr>)"

section \<open>Facts about labels\<close>

lemma line_type_as_sql_inj: "line_type_as_sql a = line_type_as_sql b \<Longrightarrow> a = b"
  by (cases a; cases b) simp_all

lemma decode_as_sql [simp]: "decode_line_type (line_type_as_sql l) = Some l"
  by (cases l) (simp_all add: decode_line_type_def)

lemma decode_line_typeD: "decode_line_type s = Some l \<Longrightarrow> s = line_type_as_sql l"
  by (auto simp: decode_line_type_def split: if_splits)

lemma event_type_as_sql_inj: "event_type_as_sql a = event_type_as_sql b \<Longrightarrow> a = b"
  by (cases a; cases b) simp_all

text \<open>
  The decoder of line-type labels is the exact inverse of the printer: a text decodes to a
  line type if and only if it is that line type's SQL label, so every label round-trips and every
  other text is rejected.
\<close>
theorem decode_line_type_roundtrip:
  "decode_line_type s = Some l \<longleftrightarrow> s = line_type_as_sql l"
  using decode_line_typeD by auto

section \<open>Facts about coalescing\<close>

text \<open>The effect of a list of mutations on the pool states, one after the other, with \<open>ids\<close> the
  identifiers that the inserted lines of the plan got.\<close>

type_synonym layer_state = "i64 \<times> i64 \<rightharpoonup> i64 \<times> i64 \<times> i64"

fun apply_mutation :: "(nat \<Rightarrow> i64) \<Rightarrow> PoolStateMutation \<Rightarrow> layer_state \<Rightarrow> layer_state" where
  "apply_mutation ids (UpsertAggregate p q c v) st = st((p, 0) \<mapsto> (q, c, v))"
| "apply_mutation ids (InsertLayer p i q c v) st = st((p, ids i) \<mapsto> (q, c, v))"
| "apply_mutation ids (DeleteLayer p l) st = st((p, l) := None)"

fun upserted :: "PoolStateMutation list \<Rightarrow> i64 list" where
  "upserted [] = []"
| "upserted (UpsertAggregate p _ _ _ # ms) = p # upserted ms"
| "upserted (_ # ms) = upserted ms"

lemma upserted_append: "upserted (xs @ ys) = upserted xs @ upserted ys"
  by (induction xs rule: upserted.induct) auto

lemma upserted_layers: "list_all (\<lambda>x. \<not> is_upsert x) ms \<Longrightarrow> upserted ms = []"
  by (induction ms rule: upserted.induct) auto

fun layer_op :: "(nat \<Rightarrow> i64) \<Rightarrow> PoolStateMutation \<Rightarrow> bool" where
  "layer_op ids (UpsertAggregate _ _ _ _) = True"
| "layer_op ids (InsertLayer _ i _ _ _) = (ids i \<noteq> 0)"
| "layer_op ids (DeleteLayer _ l) = (l \<noteq> 0)"

text \<open>The reference: of the upserts of a pool only the last stays.\<close>

fun keep_last :: "PoolStateMutation list \<Rightarrow> PoolStateMutation list" where
  "keep_last [] = []"
| "keep_last (UpsertAggregate p q c v # ms) =
    (if p \<in> set (upserted ms) then keep_last ms else UpsertAggregate p q c v # keep_last ms)"
| "keep_last (m # ms) = m # keep_last ms"

lemma set_upserted_keep_last [simp]: "set (upserted (keep_last ms)) = set (upserted ms)"
  by (induction ms rule: keep_last.induct) auto

lemma distinct_upserted_keep_last: "distinct (upserted (keep_last ms))"
  by (induction ms rule: keep_last.induct) auto

lemma filter_keep_last:
  "filter (\<lambda>m. \<not> is_upsert m) (keep_last ms) = filter (\<lambda>m. \<not> is_upsert m) ms"
  by (induction ms rule: keep_last.induct) auto

lemma keep_last_id: "distinct (upserted ms) \<Longrightarrow> keep_last ms = ms"
  by (induction ms rule: keep_last.induct) auto

lemma fold_overwritten:
  assumes "p \<in> set (upserted ms)" "list_all (layer_op ids) ms"
  shows "fold (apply_mutation ids) ms (st((p, 0) \<mapsto> x)) = fold (apply_mutation ids) ms st"
  using assms
proof (induction ms arbitrary: st)
  case (Cons m ms)
  show ?case
  proof (cases "\<exists>q c v. m = UpsertAggregate p q c v")
    case True
    then obtain q c v where "m = UpsertAggregate p q c v" by blast
    then show ?thesis by (simp only: fold_simps apply_mutation.simps fun_upd_upd)
  next
    case False
    then have mem: "p \<in> set (upserted ms)" using Cons.prems(1) by (cases m) auto
    have "apply_mutation ids m (st((p, 0) \<mapsto> x)) = (apply_mutation ids m st)((p, 0) \<mapsto> x)"
      using False Cons.prems(2) by (cases m) (auto simp: fun_upd_twist)
    then show ?thesis using Cons.IH[OF mem] Cons.prems(2) by (simp only: fold_simps list.pred_inject)
  qed
qed simp

lemma fold_keep_last:
  "list_all (layer_op ids) ms \<Longrightarrow>
    fold (apply_mutation ids) (keep_last ms) st = fold (apply_mutation ids) ms st"
  by (induction ms arbitrary: st rule: keep_last.induct) (auto simp: fold_overwritten)

lemma map_of_record:
  "map_of (fold record_idx (List.enumerate n ms) al) p =
    (if p \<in> set (upserted ms) then map_of (fold record_idx (List.enumerate n ms) []) p
     else map_of al p)"
proof (induction ms arbitrary: n al)
  case (Cons m ms)
  show ?case
    using Cons.IH[of "Suc n" "record_idx (n, m) al"] Cons.IH[of "Suc n" "record_idx (n, m) []"]
    by (cases m) (simp_all add: update_conv' del: update.simps)
qed simp

lemma map_of_record_ge:
  "map_of (fold record_idx (List.enumerate n ms) []) p = Some i \<Longrightarrow> n \<le> i"
proof (induction ms arbitrary: n)
  case (Cons m ms)
  have "map_of (fold record_idx (List.enumerate (Suc n) ms) (record_idx (n, m) [])) p = Some i"
    using Cons.prems by simp
  then have "map_of (fold record_idx (List.enumerate (Suc n) ms) []) p = Some i \<or>
      map_of (record_idx (n, m) []) p = Some i"
    by (subst (asm) map_of_record) (auto split: if_splits)
  then show ?case using Cons.IH[of "Suc n"] by (cases m) (auto split: if_splits)
qed simp

lemma filter_keep_eq_keep_last:
  "map snd (filter (keep_mutation (fold record_idx (List.enumerate n ms) al)) (List.enumerate n ms))
    = keep_last ms"
proof (induction ms arbitrary: n al)
  case (Cons m ms)
  let ?L = "fold record_idx (List.enumerate (Suc n) ms)"
  have rest: "map snd (filter (keep_mutation (?L (record_idx (n, m) al))) (List.enumerate (Suc n) ms))
      = keep_last ms"
    by (rule Cons.IH)
  have "keep_mutation (?L (record_idx (n, m) al)) (n, m) \<longleftrightarrow>
      (case m of UpsertAggregate p _ _ _ \<Rightarrow> p \<notin> set (upserted ms) | _ \<Rightarrow> True)"
  proof (cases m)
    case (UpsertAggregate p q c v)
    show ?thesis
      using map_of_record[of "Suc n" ms "AList.update p n al" p] map_of_record_ge[of "Suc n" ms p n]
      by (auto simp: UpsertAggregate update_conv' split: if_splits)
  qed simp_all
  then show ?case using rest by (cases m) simp_all
qed simp

lemma set_upserted_record:
  "fst ` set (fold record_idx (List.enumerate n ms) al) = set (upserted ms) \<union> fst ` set al"
proof (induction ms arbitrary: n al)
  case (Cons m ms)
  show ?case
    using Cons.IH[of "Suc n" "record_idx (n, m) al"] by (cases m) (auto simp: dom_update)
qed simp

lemma distinct_keys_record:
  "distinct (map fst al) \<Longrightarrow> distinct (map fst (fold record_idx (List.enumerate n ms) al))"
proof (induction ms arbitrary: n al)
  case (Cons m ms)
  show ?case
    using Cons.IH[of "record_idx (n, m) al" "Suc n"] Cons.prems by (cases m) (auto simp: distinct_update)
qed simp

lemma length_upserted: "list_all is_upsert ms \<Longrightarrow> length (upserted ms) = length ms"
  by (induction ms rule: upserted.induct) auto

lemma coalesce_mutations: "pool_state_mutations (coalesce_aggregates res) =
    keep_last (pool_state_mutations res)"
proof (cases "length (last_idx_of (pool_state_mutations res)) = length (pool_state_mutations res)
    \<and> list_all is_upsert (pool_state_mutations res)")
  case True
  let ?ms = "pool_state_mutations res"
  have "card (fst ` set (last_idx_of ?ms)) = length (last_idx_of ?ms)"
    using distinct_card[OF distinct_keys_record[of "[]" 0 ?ms]] by (simp add: last_idx_of_def)
  then have "card (set (upserted ?ms)) = length (last_idx_of ?ms)"
    using set_upserted_record[of 0 ?ms "[]"] by (simp add: last_idx_of_def)
  then have "distinct (upserted ?ms)" using True by (intro card_distinct) (simp add: length_upserted)
  then show ?thesis using True by (simp add: coalesce_aggregates_def Let_def keep_last_id)
next
  case False
  then have "coalesce_aggregates res = res\<lparr>pool_state_mutations := map snd (filter (keep_mutation
      (last_idx_of (pool_state_mutations res))) (List.enumerate 0 (pool_state_mutations res)))\<rparr>"
    unfolding coalesce_aggregates_def Let_def by (simp only: if_False)
  then show ?thesis
    using filter_keep_eq_keep_last[of 0 "pool_state_mutations res" "[]"] by (simp add: last_idx_of_def)
qed

text \<open>
  Coalescing the aggregate upserts of a plan is sound and sufficient: afterwards every pool has
  at most one aggregate upsert, which is what the bulk statement needs, the layer insertions and
  deletions are kept in order, the lines and postings are untouched, and applying the coalesced
  mutations one after the other has exactly the effect of applying all of them. The layer
  identifiers are those of inserted receipt lines, which are never the aggregate's identifier 0.
\<close>
theorem coalesce_aggregates_equiv:
  assumes "list_all (layer_op ids) (pool_state_mutations res)"
  shows "fold (apply_mutation ids) (pool_state_mutations (coalesce_aggregates res)) st =
      fold (apply_mutation ids) (pool_state_mutations res) st \<and>
    distinct (upserted (pool_state_mutations (coalesce_aggregates res))) \<and>
    filter (\<lambda>m. \<not> is_upsert m) (pool_state_mutations (coalesce_aggregates res)) =
      filter (\<lambda>m. \<not> is_upsert m) (pool_state_mutations res) \<and>
    trx_lines (coalesce_aggregates res) = trx_lines res \<and>
    posting_lines (coalesce_aggregates res) = posting_lines res"
proof -
  have "trx_lines (coalesce_aggregates res) = trx_lines res"
    "posting_lines (coalesce_aggregates res) = posting_lines res"
    by (simp_all add: coalesce_aggregates_def Let_def)
  then show ?thesis
    using fold_keep_last[OF assms]
    by (simp add: coalesce_mutations distinct_upserted_keep_last filter_keep_last)
qed

theorem coalesce_aggregates_equiv_witness:
  "fold (apply_mutation (\<lambda>i. int i + 7))
     (pool_state_mutations (coalesce_aggregates (empty_plan\<lparr>pool_state_mutations :=
        [UpsertAggregate 1 5 10 50, InsertLayer 2 0 1 9 9, UpsertAggregate 1 8 10 80]\<rparr>))) Map.empty (1, 0)
     = Some (8, 10, 80) \<and>
   length (pool_state_mutations (coalesce_aggregates (empty_plan\<lparr>pool_state_mutations :=
        [UpsertAggregate 1 5 10 50, InsertLayer 2 0 1 9 9, UpsertAggregate 1 8 10 80]\<rparr>))) = 2"
  using coalesce_aggregates_equiv[of "\<lambda>i. int i + 7" "empty_plan\<lparr>pool_state_mutations :=
        [UpsertAggregate 1 5 10 50, InsertLayer 2 0 1 9 9, UpsertAggregate 1 8 10 80]\<rparr>" Map.empty]
  by (simp add: empty_plan_def coalesce_aggregates_def last_idx_of_def)

end
