(* ===== verification/Numeric.thy ===== *)
theory Numeric
  imports Prelude
begin

text \<open>
  Round-half-to-even integer division, \<open>ledger-core/src/numeric.rs\<close>: the one
  rounding primitive of the ledger. The result is an option because the Rust
  function panics when the divisor is zero and when the rounded quotient does
  not fit in an \<open>i64\<close>. The theory shows that it returns the nearest integer
  with ties to even, exactly when that integer is an \<open>i64\<close>.
\<close>

section \<open>Definition\<close>

definition banker_round :: "i128 \<Rightarrow> i64 \<Rightarrow> i128" where
  "banker_round numerator denominator =
    (let denom = denominator;
         quotient = numerator sdiv denom;
         remainder = numerator smod denom
     in if remainder = 0 then quotient
        else
          (let abs_remainder = \<bar>remainder\<bar>;
               abs_denom = \<bar>denom\<bar>;
               twice_r = abs_remainder * 2;
               sign = (if (numerator < 0) \<noteq> (denom < 0) then - 1 else 1)
           in if twice_r < abs_denom then quotient
              else if twice_r > abs_denom then quotient + sign
              else if quotient smod 2 = 0 then quotient
              else quotient + sign))"

definition banker_div :: "i128 \<Rightarrow> i64 \<Rightarrow> i64 option" where
  "banker_div numerator denominator =
    (if denominator = 0 then None else try_i64 (banker_round numerator denominator))"

section \<open>Specification\<close>

text \<open>\<open>nearest_even n d v\<close>: \<^term>\<open>v\<close> is an integer nearest to \<open>n / d\<close>, and the even one of the two
  when \<open>n / d\<close> is half-way between them.\<close>

definition nearest_even :: "int \<Rightarrow> int \<Rightarrow> int \<Rightarrow> bool" where
  "nearest_even n d v \<longleftrightarrow>
    2 * \<bar>n - v * d\<bar> \<le> \<bar>d\<bar> \<and> (2 * \<bar>n - v * d\<bar> = \<bar>d\<bar> \<longrightarrow> even v)"

section \<open>Correctness\<close>

lemma trunc_div_cases:
  fixes n d :: int
  assumes "d \<noteq> 0"
  shows "n = (n sdiv d) * d + n smod d" "\<bar>n smod d\<bar> < \<bar>d\<bar>"
    "n smod d \<noteq> 0 \<Longrightarrow> n smod d < 0 \<longleftrightarrow> n < 0"
proof -
  show "n = (n sdiv d) * d + n smod d" by (simp add: smod_sdiv_mult_eq add.commute)
  show "\<bar>n smod d\<bar> < \<bar>d\<bar>" using smod_int_range[OF assms, of n] by simp linarith
  show "n smod d < 0 \<longleftrightarrow> n < 0" if "n smod d \<noteq> 0"
    using that assms smod_int_compares[of n d] by (cases "0 < d"; cases "n < 0") auto
qed

lemma even_smod_2: "n smod 2 = 0 \<longleftrightarrow> even (n :: int)"
  by (cases "n = 0") (auto simp: smod_int_alt_def sgn_0_0 mod_eq_0_iff_dvd)

lemma banker_round_nearest: 
  assumes d: "d \<noteq> 0"
  shows "nearest_even n d (banker_round n d)"
proof -
  define q r s where "q = n sdiv d" and "r = n smod d"
    and "s = (if (n < 0) \<noteq> (d < 0) then - 1 else 1 :: int)"
  have n: "n = q * d + r" and r: "\<bar>r\<bar> < \<bar>d\<bar>" and sn: "r \<noteq> 0 \<Longrightarrow> r < 0 \<longleftrightarrow> n < 0"
    using trunc_div_cases[OF d, of n] by (simp_all add: q_def r_def)
  have down: "n - q * d = r" using n by simp
  have "n - (q + s) * d = r - s * d" using n by (simp add: algebra_simps)
  then have up: "r \<noteq> 0 \<Longrightarrow> \<bar>n - (q + s) * d\<bar> = \<bar>d\<bar> - \<bar>r\<bar>"
    using r sn by (auto simp: s_def split: if_splits)
  have odd_up: "odd q \<Longrightarrow> even (q + s)" by (simp add: s_def)
  have eq: "banker_round n d = (if r = 0 \<or> 2 * \<bar>r\<bar> < \<bar>d\<bar> \<or> (2 * \<bar>r\<bar> = \<bar>d\<bar> \<and> even q) then q else q + s)"
    unfolding banker_round_def Let_def q_def[symmetric] r_def[symmetric] s_def[symmetric] even_smod_2
    by auto
  show ?thesis
  proof (cases "r = 0 \<or> 2 * \<bar>r\<bar> < \<bar>d\<bar> \<or> (2 * \<bar>r\<bar> = \<bar>d\<bar> \<and> even q)")
    case True
    then show ?thesis using eq down d by (auto simp: nearest_even_def)
  next
    case False
    then show ?thesis using eq up odd_up r by (auto simp: nearest_even_def)
  qed
qed

lemma nearest_even_unique:
  assumes "d \<noteq> 0" "nearest_even n d v" "nearest_even n d w"
  shows "v = w"
proof (rule ccontr)
  assume ne: "v \<noteq> w"
  have split: "(v - w) * d = (n - w * d) - (n - v * d)" by (simp add: algebra_simps)
  have le: "\<bar>v - w\<bar> * \<bar>d\<bar> \<le> \<bar>n - w * d\<bar> + \<bar>n - v * d\<bar>"
    unfolding abs_mult[symmetric] split by linarith
  have ge: "1 * \<bar>d\<bar> \<le> \<bar>v - w\<bar> * \<bar>d\<bar>" using ne by (intro mult_right_mono) auto
  have b: "2 * \<bar>n - v * d\<bar> \<le> \<bar>d\<bar>" "2 * \<bar>n - w * d\<bar> \<le> \<bar>d\<bar>"
    using assms by (auto simp: nearest_even_def)
  have half: "2 * \<bar>n - v * d\<bar> = \<bar>d\<bar>" "2 * \<bar>n - w * d\<bar> = \<bar>d\<bar>" and one: "\<bar>v - w\<bar> * \<bar>d\<bar> = 1 * \<bar>d\<bar>"
    using ge le b by linarith+
  from one have "\<bar>v - w\<bar> = 1" unfolding mult_cancel_right using assms(1) by simp
  moreover have "even v" "even w" using half assms by (auto simp: nearest_even_def)
  ultimately show False by presburger
qed
lemma banker_round_eqI: "d \<noteq> 0 \<Longrightarrow> nearest_even n d v \<Longrightarrow> banker_round n d = v"
  by (blast intro: nearest_even_unique banker_round_nearest)

lemma banker_round_mult [simp]: "d \<noteq> 0 \<Longrightarrow> banker_round (k * d) d = k"
  by (rule banker_round_eqI) (auto simp: nearest_even_def)

lemma banker_round_0 [simp]: "d \<noteq> 0 \<Longrightarrow> banker_round 0 d = 0"
  using banker_round_mult[of d 0] by simp

lemma banker_round_minus: "d \<noteq> 0 \<Longrightarrow> banker_round (- n) d = - banker_round n d"
proof (rule banker_round_eqI)
  assume d: "d \<noteq> 0"
  have "\<bar>- n - (- banker_round n d) * d\<bar> = \<bar>n - banker_round n d * d\<bar>" by simp
  then show "nearest_even (- n) d (- banker_round n d)"
    using banker_round_nearest[OF d, of n] by (simp add: nearest_even_def)
qed

text \<open>A rounded mean of values in an interval stays in the interval. This is what keeps a
  weighted-average cost inside the range of the costs it averages.\<close>

lemma banker_round_le:
  assumes "0 < d" "n \<le> hi * d"
  shows "banker_round n d \<le> hi"
proof (rule ccontr)
  assume "\<not> banker_round n d \<le> hi"
  then have "(hi + 1) * d \<le> banker_round n d * d" using assms(1) by (intro mult_right_mono) auto
  moreover have "2 * \<bar>n - banker_round n d * d\<bar> \<le> \<bar>d\<bar>"
    using banker_round_nearest[of d n] assms(1) by (simp add: nearest_even_def)
  ultimately show False using assms by (simp add: algebra_simps abs_if split: if_splits)
qed

lemma banker_round_ge:
  assumes "0 < d" "lo * d \<le> n"
  shows "lo \<le> banker_round n d"
  using banker_round_le[of d "- n" "- lo"] assms by (simp add: banker_round_minus)

lemma banker_div_eq: "d \<noteq> 0 \<Longrightarrow> banker_div n d = try_i64 (banker_round n d)"
  by (simp add: banker_div_def)

lemma banker_div_Some_iff:
  "banker_div n d = Some v \<longleftrightarrow> d \<noteq> 0 \<and> is_i64 v \<and> v = banker_round n d"
  by (auto simp: banker_div_def)

lemma banker_div_mean:
  assumes "0 < d" "is_i64 lo" "is_i64 hi" "lo * d \<le> n" "n \<le> hi * d"
  shows "banker_div n d = Some (banker_round n d)"
  using assms banker_round_le[of d n hi] banker_round_ge[of d lo n] is_i64_between[of lo hi]
  by (auto simp: banker_div_Some_iff)

lemma banker_div_i64:
  assumes "0 < d" "is_i64 n"
  shows "banker_div n d = Some (banker_round n d)"
proof (rule banker_div_mean[of d "min n 0" "max n 0"])
  have "min n 0 * d \<le> min n 0 * 1" using assms(1) by (intro mult_left_mono_neg) auto
  then show "min n 0 * d \<le> n" by linarith
  have "max n 0 * 1 \<le> max n 0 * d" using assms(1) by (intro mult_left_mono) auto
  then show "n \<le> max n 0 * d" by linarith
qed (use assms in \<open>auto simp: min_def max_def\<close>)

lemma is_i64_banker_round: "0 < d \<Longrightarrow> is_i64 n \<Longrightarrow> is_i64 (banker_round n d)"
  using banker_div_i64[of d n] by (simp add: banker_div_Some_iff)

text \<open>
  C30. \<open>banker_div\<close> implements round-half-to-even exactly: it returns \<^term>\<open>v\<close> if and only if
  the divisor is non-zero, \<^term>\<open>v\<close> fits in an \<open>i64\<close> and \<^term>\<open>v\<close> is the integer nearest to the
  quotient, the even one on a tie; in every other case the Rust function panics.
\<close>
theorem banker_div_correct:
  "banker_div n d = Some v \<longleftrightarrow> d \<noteq> 0 \<and> is_i64 v \<and> nearest_even n d v"
  by (auto simp: banker_div_Some_iff banker_round_nearest intro: sym[OF banker_round_eqI])

end
