(* ===== verification/Snapshot.thy ===== *)
theory Snapshot
  imports Plan Numeric
begin

text \<open>
  The in-memory state a submission is planned against, \<open>ledger-core/src/snapshot.rs\<close>:
  the rows of the touched pools and their configuration, with the reader and the
  writer of the aggregate row. The Rust \<open>HashMap\<close>s are maps. The theory also holds the
  invariant of a snapshot and the contract (\<open>posting_step\<close>) that every costing
  method keeps and the planning loop relies on.
\<close>

section \<open>State\<close>

record PostingAccounts =
  receipt_pair :: "i64 \<times> i64"
  transfer_pair :: "i64 \<times> i64"
  build_pair :: "i64 \<times> i64"
  scrap_pair :: "i64 \<times> i64"
  adjustment_pair :: "i64 \<times> i64"
  revaluation_pair :: "i64 \<times> i64"
  variance_acct :: "i64 option"

fun pair_for :: "PostingAccounts \<Rightarrow> LineType \<Rightarrow> i64 \<times> i64" where
  "pair_for accts PoReceiptLine = receipt_pair accts"
| "pair_for accts TransferReceiptLine = transfer_pair accts"
| "pair_for accts TransferShipmentLine = transfer_pair accts"
| "pair_for accts WoOutput = build_pair accts"
| "pair_for accts WoBackflush = build_pair accts"
| "pair_for accts WoScrap = scrap_pair accts"
| "pair_for accts InvAdjustmentLine = adjustment_pair accts"
| "pair_for accts ManualAdjustmentLine = adjustment_pair accts"
| "pair_for accts RevaluationLine = revaluation_pair accts"

record PoolStateRow =
  row_layer_id :: i64
  row_qty :: i64
  row_unit_cost :: i64
  row_value_sum :: i64

record Snapshot =
  pools :: "i64 \<rightharpoonup> PoolStateRow list"
  method_of :: "i64 \<rightharpoonup> PoolMethod"
  sku_location_of :: "i64 \<rightharpoonup> i64 \<times> i64"
  standard_cost_of :: "i64 \<rightharpoonup> i64"
  posting_accounts_of :: "i64 \<rightharpoonup> PostingAccounts"

section \<open>Operations\<close>

definition aggregate :: "Snapshot \<Rightarrow> i64 \<Rightarrow> PoolStateRow option" where
  "aggregate snap p =
    Option.bind (pools snap p) (\<lambda>rows. find (\<lambda>r. row_layer_id r = 0) rows)"

definition read_aggregate :: "Snapshot \<Rightarrow> i64 \<Rightarrow> i64 \<times> i64 \<times> i64 \<times> bool" where
  "read_aggregate snap p =
    (case aggregate snap p of
       Some r \<Rightarrow> (row_qty r, row_unit_cost r, row_value_sum r, True)
     | None \<Rightarrow> (0, 0, 0, False))"

definition resolve_posting_accounts :: "Snapshot \<Rightarrow> i64 \<Rightarrow> LedgerError + PostingAccounts" where
  "resolve_posting_accounts snap p =
    (case posting_accounts_of snap p of
       Some accts \<Rightarrow> Inr accts
     | None \<Rightarrow>
         (let (sku_id, location_id) =
                (case sku_location_of snap p of Some sl \<Rightarrow> sl | None \<Rightarrow> (0, 0))
          in Inl (MissingPostingAccounts sku_id location_id)))"

fun put_row :: "i64 \<Rightarrow> i64 \<Rightarrow> i64 \<Rightarrow> PoolStateRow list \<Rightarrow> PoolStateRow list" where
  "put_row q c v [] = [\<lparr>row_layer_id = 0, row_qty = q, row_unit_cost = c, row_value_sum = v\<rparr>]"
| "put_row q c v (r # rows) =
    (if row_layer_id r = 0
     then r\<lparr>row_qty := q, row_unit_cost := c, row_value_sum := v\<rparr> # rows
     else r # put_row q c v rows)"

definition put_aggregate :: "Snapshot \<Rightarrow> i64 \<Rightarrow> i64 \<Rightarrow> i64 \<Rightarrow> i64 \<Rightarrow> Snapshot" where
  "put_aggregate snap p q c v =
    (let rows = (case pools snap p of Some rows \<Rightarrow> rows | None \<Rightarrow> [])
     in snap\<lparr>pools := (pools snap)(p \<mapsto> put_row q c v rows)\<rparr>)"

text \<open>The appends to the three vectors of a plan result.\<close>

definition push_trx_line :: "TrxLineOutput \<Rightarrow> PlanResult \<Rightarrow> PlanResult" where
  "push_trx_line l res = res\<lparr>trx_lines := trx_lines res @ [l]\<rparr>"

definition push_mutation :: "PoolStateMutation \<Rightarrow> PlanResult \<Rightarrow> PlanResult" where
  "push_mutation m res = res\<lparr>pool_state_mutations := pool_state_mutations res @ [m]\<rparr>"

definition push_posting :: "PostingLineRequest \<Rightarrow> PlanResult \<Rightarrow> PlanResult" where
  "push_posting p res = res\<lparr>posting_lines := posting_lines res @ [p]\<rparr>"

text \<open>What a call returns, with the snapshot and the plan it mutated.\<close>

type_synonym outcome = "(fault + unit) \<times> Snapshot \<times> PlanResult"

type_synonym step_fun = "Snapshot \<Rightarrow> TrxLineRequest \<Rightarrow> PlanResult \<Rightarrow> timestamp \<Rightarrow> outcome"

section \<open>Reader and writer laws\<close>

definition agg_qty :: "Snapshot \<Rightarrow> i64 \<Rightarrow> i64" where
  "agg_qty snap p = (case read_aggregate snap p of (q, _) \<Rightarrow> q)"

definition agg_unit_cost :: "Snapshot \<Rightarrow> i64 \<Rightarrow> i64" where
  "agg_unit_cost snap p = (case read_aggregate snap p of (_, c, _) \<Rightarrow> c)"

definition agg_value_sum :: "Snapshot \<Rightarrow> i64 \<Rightarrow> i64" where
  "agg_value_sum snap p = (case read_aggregate snap p of (_, _, v, _) \<Rightarrow> v)"

lemma read_aggregate_eq:
  "read_aggregate snap p =
    (agg_qty snap p, agg_unit_cost snap p, agg_value_sum snap p, aggregate snap p \<noteq> None)"
  by (auto simp: agg_qty_def agg_unit_cost_def agg_value_sum_def read_aggregate_def split: option.splits)

lemma find_put_row [simp]:
  "find (\<lambda>r. row_layer_id r = 0) (put_row q c v rows) =
    Some (case find (\<lambda>r. row_layer_id r = 0) rows of
      Some r \<Rightarrow> r\<lparr>row_qty := q, row_unit_cost := c, row_value_sum := v\<rparr>
    | None \<Rightarrow> \<lparr>row_layer_id = 0, row_qty = q, row_unit_cost = c, row_value_sum = v\<rparr>)"
  by (induction rows) (auto split: option.splits)

lemma filter_put_row [simp]:
  "filter (\<lambda>r. 0 < row_layer_id r) (put_row q c v rows) = filter (\<lambda>r. 0 < row_layer_id r) rows"
  by (induction rows) auto

lemma set_put_row:
  "r \<in> set (put_row q c v rows) \<Longrightarrow>
    r \<in> set rows \<or> (row_layer_id r = 0 \<and> row_qty r = q \<and> row_unit_cost r = c \<and> row_value_sum r = v)"
  by (induction rows) (auto split: if_splits)

lemma agg_put_aggregate [simp]:
  "agg_qty (put_aggregate snap p q c v) p' = (if p' = p then q else agg_qty snap p')"
  "agg_unit_cost (put_aggregate snap p q c v) p' = (if p' = p then c else agg_unit_cost snap p')"
  "agg_value_sum (put_aggregate snap p q c v) p' = (if p' = p then v else agg_value_sum snap p')"
  by (simp_all add: agg_qty_def agg_unit_cost_def agg_value_sum_def read_aggregate_def aggregate_def
      put_aggregate_def Let_def split: option.splits)

lemma put_aggregate_frame [frame_simps, simp]:
  "method_of (put_aggregate snap p q c v) = method_of snap"
  "sku_location_of (put_aggregate snap p q c v) = sku_location_of snap"
  "standard_cost_of (put_aggregate snap p q c v) = standard_cost_of snap"
  "posting_accounts_of (put_aggregate snap p q c v) = posting_accounts_of snap"
  "p' \<noteq> p \<Longrightarrow> pools (put_aggregate snap p q c v) p' = pools snap p'"
  by (simp_all add: put_aggregate_def Let_def)

lemma push_simps [simp]:
  "trx_lines (push_trx_line l res) = trx_lines res @ [l]"
  "pool_state_mutations (push_trx_line l res) = pool_state_mutations res"
  "posting_lines (push_trx_line l res) = posting_lines res"
  "trx_lines (push_mutation m res) = trx_lines res"
  "pool_state_mutations (push_mutation m res) = pool_state_mutations res @ [m]"
  "posting_lines (push_mutation m res) = posting_lines res"
  "trx_lines (push_posting d res) = trx_lines res"
  "pool_state_mutations (push_posting d res) = pool_state_mutations res"
  "posting_lines (push_posting d res) = posting_lines res @ [d]"
  by (simp_all add: push_trx_line_def push_mutation_def push_posting_def)

section \<open>The invariant of a snapshot\<close>

definition row_i64 :: "PoolStateRow \<Rightarrow> bool" where
  "row_i64 r \<longleftrightarrow>
    is_i64 (row_layer_id r) \<and> is_i64 (row_qty r) \<and> is_i64 (row_unit_cost r) \<and> is_i64 (row_value_sum r)"

definition line_i64 :: "TrxLineRequest \<Rightarrow> bool" where
  "line_i64 l \<longleftrightarrow> is_i64 (req_qty l) \<and> is_i64 (req_unit_cost l)"

definition layers_of :: "PoolStateRow list \<Rightarrow> PoolStateRow list" where
  "layers_of rows = filter (\<lambda>r. 0 < row_layer_id r) rows"

text \<open>Per method: a weighted-average row's cost is the rounded mean of its book value, and an empty
  one carries no value; a standard-cost row's value is its quantity at its cost; a specific pool
  has at most one layer, of a positive quantity that the aggregate covers.\<close>

fun method_wf :: "PoolMethod \<Rightarrow> PoolStateRow \<Rightarrow> PoolStateRow list \<Rightarrow> bool" where
  "method_wf Wac a ls =
    (if row_qty a = 0 then row_value_sum a = 0
     else row_unit_cost a = banker_round (row_value_sum a) (row_qty a))"
| "method_wf Std a ls = (row_value_sum a = row_qty a * row_unit_cost a)"
| "method_wf Specific a ls =
    (length ls \<le> 1 \<and> list_all (\<lambda>r. 0 < row_qty r \<and> row_qty r \<le> row_qty a) ls)"
| "method_wf Fifo a ls = True"
| "method_wf Lifo a ls = True"

definition pool_wf :: "PoolMethod \<Rightarrow> PoolStateRow list \<Rightarrow> bool" where
  "pool_wf m rows \<longleftrightarrow>
    list_all (\<lambda>r. row_i64 r \<and> 0 \<le> row_layer_id r) rows \<and>
    (case find (\<lambda>r. row_layer_id r = 0) rows of
       None \<Rightarrow> layers_of rows = []
     | Some a \<Rightarrow> 0 \<le> row_qty a \<and> method_wf m a (layers_of rows))"

definition snapshot_wf :: "Snapshot \<Rightarrow> bool" where
  "snapshot_wf snap \<longleftrightarrow>
    (\<forall>p m rows. method_of snap p = Some m \<longrightarrow> pools snap p = Some rows \<longrightarrow> pool_wf m rows) \<and>
    (\<forall>p c. standard_cost_of snap p = Some c \<longrightarrow> is_i64 c)"

lemma snapshot_wf_pool:
  "snapshot_wf snap \<Longrightarrow> method_of snap p = Some m \<Longrightarrow> pools snap p = Some rows \<Longrightarrow> pool_wf m rows"
  by (simp add: snapshot_wf_def)

lemma aggregate_Some_iff:
  "aggregate snap p = Some a \<longleftrightarrow>
    (\<exists>rows. pools snap p = Some rows \<and> find (\<lambda>r. row_layer_id r = 0) rows = Some a)"
  by (cases "pools snap p") (auto simp: aggregate_def)

lemma find_SomeD: "find P xs = Some x \<Longrightarrow> x \<in> set xs \<and> P x"
  by (induction xs) (auto split: if_splits)

lemma agg_cases:
  assumes "snapshot_wf snap" "method_of snap p = Some m"
  obtains (no_row) "agg_qty snap p = 0" "agg_unit_cost snap p = 0" "agg_value_sum snap p = 0"
      "aggregate snap p = None"
  | (row) a rows where "pools snap p = Some rows" "find (\<lambda>r. row_layer_id r = 0) rows = Some a"
      "agg_qty snap p = row_qty a" "agg_unit_cost snap p = row_unit_cost a"
      "agg_value_sum snap p = row_value_sum a" "row_i64 a" "0 \<le> row_qty a"
      "method_wf m a (layers_of rows)"
proof (cases "aggregate snap p")
  case None
  then show ?thesis
    by (intro no_row) (simp_all add: agg_qty_def agg_unit_cost_def agg_value_sum_def read_aggregate_def)
next
  case (Some a)
  then obtain rows where rows: "pools snap p = Some rows" "find (\<lambda>r. row_layer_id r = 0) rows = Some a"
    by (auto simp: aggregate_Some_iff)
  have "pool_wf m rows" using assms rows(1) by (rule snapshot_wf_pool)
  then have "row_i64 a \<and> 0 \<le> row_qty a \<and> method_wf m a (layers_of rows)"
    using rows(2) find_SomeD[OF rows(2)] by (auto simp: pool_wf_def list_all_iff)
  then show ?thesis using Some rows
    by (intro row[of rows a])
      (auto simp: agg_qty_def agg_unit_cost_def agg_value_sum_def read_aggregate_def)
qed

lemma agg_i64:
  assumes "snapshot_wf snap" "method_of snap p = Some m"
  shows "0 \<le> agg_qty snap p" "is_i64 (agg_qty snap p)" "is_i64 (agg_unit_cost snap p)"
    "is_i64 (agg_value_sum snap p)"
  by (rule agg_cases[OF assms]; simp add: row_i64_def)+

text \<open>Writing the aggregate row keeps the invariant if the new row is well formed for the method and
  the layers are unchanged.\<close>

lemma put_aggregate_wf:
  assumes wf: "snapshot_wf snap" and m: "method_of snap p = Some m"
    and i64: "is_i64 q" "is_i64 c" "is_i64 v" and q: "0 \<le> q"
    and mw: "\<And>a. row_qty a = q \<Longrightarrow> row_unit_cost a = c \<Longrightarrow> row_value_sum a = v \<Longrightarrow>
      method_wf m a (layers_of (case pools snap p of Some rows \<Rightarrow> rows | None \<Rightarrow> []))"
  shows "snapshot_wf (put_aggregate snap p q c v)"
proof -
  let ?rows = "case pools snap p of Some rows \<Rightarrow> rows | None \<Rightarrow> []"
  have old: "list_all (\<lambda>r. row_i64 r \<and> 0 \<le> row_layer_id r) ?rows"
    using snapshot_wf_pool[OF wf m] by (auto simp: pool_wf_def split: option.splits)
  have "list_all (\<lambda>r. row_i64 r \<and> 0 \<le> row_layer_id r) (put_row q c v ?rows)"
    using old i64 by (auto simp: list_all_iff row_i64_def dest!: set_put_row)
  then have "pool_wf m (put_row q c v ?rows)"
    using q mw by (auto simp: pool_wf_def layers_of_def split: option.splits)
  then show ?thesis
    using wf m by (auto simp: snapshot_wf_def put_aggregate_def Let_def split: if_splits)
qed

lemma agg_qty_le_layers:
  assumes "snapshot_wf snap" "method_of snap p = Some Specific" "agg_qty snap p \<le> 0"
    "pools snap p = Some rows"
  shows "layers_of rows = []"
proof -
  have "pool_wf Specific rows" using assms by (auto intro: snapshot_wf_pool)
  moreover have "find (\<lambda>r. row_layer_id r = 0) rows = Some a \<Longrightarrow> row_qty a \<le> 0" for a
    using assms by (simp add: agg_qty_def read_aggregate_def aggregate_def)
  ultimately show ?thesis
    by (cases "layers_of rows") (auto simp: pool_wf_def split: option.splits)
qed

section \<open>The contract of a costing method\<close>

text \<open>The loop of the planner: the lines in order, stopping at the first fault.\<close>

fun run_lines :: "step_fun \<Rightarrow> timestamp \<Rightarrow> TrxLineRequest list \<Rightarrow> Snapshot \<Rightarrow> PlanResult \<Rightarrow> outcome" where
  "run_lines step t [] snap res = (Inr (), snap, res)"
| "run_lines step t (line # lines) snap res =
    (case step snap line res t of
       (Inl e, snap', res') \<Rightarrow> (Inl e, snap', res')
     | (Inr _, snap', res') \<Rightarrow> run_lines step t lines snap' res')"

lemma run_lines_append:
  "run_lines step t (xs @ ys) snap res =
    (case run_lines step t xs snap res of
       (Inl e, snap', res') \<Rightarrow> (Inl e, snap', res')
     | (Inr _, snap', res') \<Rightarrow> run_lines step t ys snap' res')"
  by (induction xs arbitrary: snap res) (auto split: prod.splits sum.splits)

type_synonym line_key = "i64 \<times> i64 \<times> LineType \<times> i64 option"

definition req_key :: "TrxLineRequest \<Rightarrow> line_key" where
  "req_key l = (req_pool_id l, req_qty l, req_line_type l, req_source_id l)"

definition out_key :: "TrxLineOutput \<Rightarrow> line_key" where
  "out_key l = (out_pool_id l, out_qty l, out_line_type l, out_source_id l)"

definition pool_sum :: "i64 \<Rightarrow> TrxLineRequest list \<Rightarrow> int" where
  "pool_sum p lines = sum_list (map (\<lambda>l. if req_pool_id l = p then req_qty l else 0) lines)"

definition agg_view :: "Snapshot \<Rightarrow> i64 \<Rightarrow> i64 \<times> i64 \<times> i64" where
  "agg_view snap p = (agg_qty snap p, agg_unit_cost snap p, agg_value_sum snap p)"

fun agg_effect :: "PoolStateMutation \<Rightarrow> (i64 \<Rightarrow> i64 \<times> i64 \<times> i64) \<Rightarrow> i64 \<Rightarrow> i64 \<times> i64 \<times> i64" where
  "agg_effect (UpsertAggregate p q c v) f = f(p := (q, c, v))"
| "agg_effect _ f = f"

lemma put_aggregate_view [simp]:
  "agg_view (put_aggregate s p q c v) = (agg_view s)(p := (q, c, v))"
  by (auto simp: agg_view_def)

lemma agg_view_updD:
  assumes "agg_view s' = (agg_view s)(p := (q, c, v))"
  shows "agg_qty s' p' = (if p' = p then q else agg_qty s p')"
  using fun_cong[OF assms, of p'] by (auto simp: agg_view_def split: if_splits)

definition same_config :: "Snapshot \<Rightarrow> Snapshot \<Rightarrow> bool" where
  "same_config s s' \<longleftrightarrow>
    method_of s' = method_of s \<and> sku_location_of s' = sku_location_of s \<and>
    standard_cost_of s' = standard_cost_of s \<and> posting_accounts_of s' = posting_accounts_of s"

definition posts_at :: "nat \<Rightarrow> TrxLineRequest \<Rightarrow> PostingLineRequest list \<Rightarrow> bool" where
  "posts_at n l ps \<longleftrightarrow>
    list_all (\<lambda>d. post_trx_line_idx d = n) ps \<and> (ps = [] \<longleftrightarrow> req_qty l = 0)"

text \<open>A mutation refers to a new layer by the index of one of the plan's \<open>n\<close> lines, and to an old
  layer by its id, which is never that of the aggregate row.\<close>

fun idx_in :: "nat \<Rightarrow> PoolStateMutation \<Rightarrow> bool" where
  "idx_in n (InsertLayer _ i _ _ _) = (i < n)"
| "idx_in n (DeleteLayer _ l) = (0 < l)"
| "idx_in n (UpsertAggregate _ _ _ _) = True"

lemma idx_in_mono: "idx_in n m \<Longrightarrow> n \<le> n' \<Longrightarrow> idx_in n' m"
  by (cases m) auto

locale posting_step =
  fixes step :: step_fun
  assumes step_config: "step s l r t = (Inr u, s', r') \<Longrightarrow> same_config s s'"
    and step_wf:
      "step s l r t = (Inr u, s', r') \<Longrightarrow> snapshot_wf s \<Longrightarrow> line_i64 l \<Longrightarrow> snapshot_wf s'"
    and step_qty:
      "step s l r t = (Inr u, s', r') \<Longrightarrow> snapshot_wf s \<Longrightarrow> line_i64 l \<Longrightarrow>
        agg_qty s' p = agg_qty s p + (if req_pool_id l = p then req_qty l else 0)"
    and step_out:
      "step s l r t = (Inr u, s', r') \<Longrightarrow>
        map out_key (trx_lines r') =
          map out_key (trx_lines r) @ (if req_qty l = 0 then [] else [req_key l])"
    and step_posts:
      "step s l r t = (Inr u, s', r') \<Longrightarrow>
        \<exists>ps. posting_lines r' = posting_lines r @ ps \<and> posts_at (length (trx_lines r)) l ps"
    and step_view:
      "step s l r t = (Inr u, s', r') \<Longrightarrow>
        \<exists>ms. pool_state_mutations r' = pool_state_mutations r @ ms \<and>
          upserted ms = (if req_qty l = 0 then [] else [req_pool_id l]) \<and>
          list_all (idx_in (length (trx_lines r'))) ms \<and>
          fold agg_effect ms (agg_view s) = agg_view s'"
    and step_no_panic: "step s l r t = (Inl f, s', r') \<Longrightarrow> \<exists>e. f = Err e"
begin

lemma run_cons_ok:
  assumes "run_lines step t (l # ls) s r = (Inr u, s', r')"
  obtains s1 r1 where "step s l r t = (Inr (), s1, r1)" "run_lines step t ls s1 r1 = (Inr u, s', r')"
  using assms by (auto split: prod.splits sum.splits)

lemma run_config: "run_lines step t ls s r = (Inr u, s', r') \<Longrightarrow> same_config s s'"
proof (induction ls arbitrary: s r)
  case (Cons l ls)
  show ?case
    by (rule run_cons_ok[OF Cons.prems])
      (use Cons.IH step_config in \<open>fastforce simp: same_config_def\<close>)
qed (simp add: same_config_def)

lemma run_wf:
  "run_lines step t ls s r = (Inr u, s', r') \<Longrightarrow> snapshot_wf s \<Longrightarrow> list_all line_i64 ls \<Longrightarrow> snapshot_wf s'"
proof (induction ls arbitrary: s r)
  case (Cons l ls)
  show ?case
    by (rule run_cons_ok[OF Cons.prems(1)]) (use Cons.IH Cons.prems(2,3) step_wf in auto)
qed simp

lemma run_qty:
  "run_lines step t ls s r = (Inr u, s', r') \<Longrightarrow> snapshot_wf s \<Longrightarrow> list_all line_i64 ls \<Longrightarrow>
    agg_qty s' p = agg_qty s p + pool_sum p ls"
proof (induction ls arbitrary: s r)
  case (Cons l ls)
  obtain s1 r1 where st: "step s l r t = (Inr (), s1, r1)"
    and rest: "run_lines step t ls s1 r1 = (Inr u, s', r')"
    using Cons.prems(1) by (rule run_cons_ok)
  show ?case
    using Cons.IH[OF rest] step_qty[OF st, of p] step_wf[OF st] Cons.prems(2,3)
    by (simp add: pool_sum_def)
qed (simp add: pool_sum_def)

lemma run_out:
  "run_lines step t ls s r = (Inr u, s', r') \<Longrightarrow>
    map out_key (trx_lines r') =
      map out_key (trx_lines r) @ map req_key (filter (\<lambda>l. req_qty l \<noteq> 0) ls)"
proof (induction ls arbitrary: s r)
  case (Cons l ls)
  obtain s1 r1 where st: "step s l r t = (Inr (), s1, r1)"
    and rest: "run_lines step t ls s1 r1 = (Inr u, s', r')"
    using Cons.prems(1) by (rule run_cons_ok)
  show ?case using Cons.IH[OF rest] step_out[OF st] by simp
qed simp

lemma run_length:
  assumes "run_lines step t ls s r = (Inr u, s', r')"
  shows "length (trx_lines r') = length (trx_lines r) + length (filter (\<lambda>l. req_qty l \<noteq> 0) ls)"
  using arg_cong[OF run_out[OF assms], of length] by simp

lemma run_posts:
  "run_lines step t ls s r = (Inr u, s', r') \<Longrightarrow>
    \<exists>ps. posting_lines r' = posting_lines r @ ps \<and>
      set (map post_trx_line_idx ps) = {length (trx_lines r) ..< length (trx_lines r')}"
proof (induction ls arbitrary: s r)
  case (Cons l ls)
  obtain s1 r1 where st: "step s l r t = (Inr (), s1, r1)"
    and rest: "run_lines step t ls s1 r1 = (Inr u, s', r')"
    using Cons.prems(1) by (rule run_cons_ok)
  obtain ps where ps: "posting_lines r1 = posting_lines r @ ps" "posts_at (length (trx_lines r)) l ps"
    using step_posts[OF st] by blast
  obtain qs where qs: "posting_lines r' = posting_lines r1 @ qs"
    "set (map post_trx_line_idx qs) = {length (trx_lines r1) ..< length (trx_lines r')}"
    using Cons.IH[OF rest] by blast
  have len: "length (trx_lines r1) = length (trx_lines r) + (if req_qty l = 0 then 0 else 1)"
    using arg_cong[OF step_out[OF st], of length] by (simp split: if_splits)
  have idx: "set (map post_trx_line_idx ps) =
      (if req_qty l = 0 then {} else {length (trx_lines r)})"
    using ps(2) by (cases ps) (auto simp: posts_at_def list_all_iff)
  have "length (trx_lines r1) \<le> length (trx_lines r')" using run_length[OF rest] by simp
  then show ?case
    by (intro exI[of _ "ps @ qs"]) (use ps(1) qs idx len in \<open>auto split: if_splits\<close>)
qed simp

lemma run_view:
  "run_lines step t ls s r = (Inr u, s', r') \<Longrightarrow>
    \<exists>ms. pool_state_mutations r' = pool_state_mutations r @ ms \<and>
      upserted ms = map req_pool_id (filter (\<lambda>l. req_qty l \<noteq> 0) ls) \<and>
      list_all (idx_in (length (trx_lines r'))) ms \<and>
      fold agg_effect ms (agg_view s) = agg_view s'"
proof (induction ls arbitrary: s r)
  case (Cons l ls)
  obtain s1 r1 where st: "step s l r t = (Inr (), s1, r1)"
    and rest: "run_lines step t ls s1 r1 = (Inr u, s', r')"
    using Cons.prems by (rule run_cons_ok)
  obtain ms where ms: "pool_state_mutations r1 = pool_state_mutations r @ ms"
    "upserted ms = (if req_qty l = 0 then [] else [req_pool_id l])"
    "list_all (idx_in (length (trx_lines r1))) ms" "fold agg_effect ms (agg_view s) = agg_view s1"
    using step_view[OF st] by auto
  obtain ns where ns: "pool_state_mutations r' = pool_state_mutations r1 @ ns"
    "upserted ns = map req_pool_id (filter (\<lambda>l. req_qty l \<noteq> 0) ls)"
    "list_all (idx_in (length (trx_lines r'))) ns" "fold agg_effect ns (agg_view s1) = agg_view s'"
    using Cons.IH[OF rest] by auto
  have "list_all (idx_in (length (trx_lines r'))) ms"
    using ms(3) run_length[OF rest] by (auto simp: list_all_iff intro: idx_in_mono)
  then show ?case using ms ns by (intro exI[of _ "ms @ ns"]) (simp add: upserted_append)
qed simp

lemma run_no_panic: "run_lines step t ls s r = (Inl f, s', r') \<Longrightarrow> \<exists>e. f = Err e"
proof (induction ls arbitrary: s r)
  case (Cons l ls)
  then show ?case using step_no_panic by (auto split: prod.splits sum.splits)
qed simp

end

text \<open>The contract as a single method meets it: a line of quantity zero is a no-op, and the laws are
  about the other lines, which the method only accepts for pools it is configured for.\<close>

locale method_step =
  fixes step :: step_fun and m :: PoolMethod
  assumes routed: "step s l r t = (Inr u, s', r') \<Longrightarrow> method_of s (req_pool_id l) = Some m"
    and zero_line: "step s l r t = (Inr u, s', r') \<Longrightarrow> req_qty l = 0 \<Longrightarrow> s' = s \<and> r' = r"
    and nz_config: "step s l r t = (Inr u, s', r') \<Longrightarrow> req_qty l \<noteq> 0 \<Longrightarrow> same_config s s'"
    and nz_out:
      "step s l r t = (Inr u, s', r') \<Longrightarrow> req_qty l \<noteq> 0 \<Longrightarrow>
        map out_key (trx_lines r') = map out_key (trx_lines r) @ [req_key l]"
    and nz_posts:
      "step s l r t = (Inr u, s', r') \<Longrightarrow> req_qty l \<noteq> 0 \<Longrightarrow>
        \<exists>ps. posting_lines r' = posting_lines r @ ps \<and> ps \<noteq> [] \<and>
          list_all (\<lambda>d. post_trx_line_idx d = length (trx_lines r)) ps"
    and nz_wf:
      "step s l r t = (Inr u, s', r') \<Longrightarrow> req_qty l \<noteq> 0 \<Longrightarrow> snapshot_wf s \<Longrightarrow> line_i64 l \<Longrightarrow>
        snapshot_wf s'"
    and nz_view:
      "step s l r t = (Inr u, s', r') \<Longrightarrow> req_qty l \<noteq> 0 \<Longrightarrow>
        \<exists>ms q c v. pool_state_mutations r' = pool_state_mutations r @ ms @
            [UpsertAggregate (req_pool_id l) q c v] \<and>
          list_all (\<lambda>x. \<not> is_upsert x \<and> idx_in (Suc (length (trx_lines r))) x) ms \<and>
          agg_view s' = (agg_view s)(req_pool_id l := (q, c, v))"
    and nz_qty:
      "step s l r t = (Inr u, s', r') \<Longrightarrow> req_qty l \<noteq> 0 \<Longrightarrow> snapshot_wf s \<Longrightarrow> line_i64 l \<Longrightarrow>
        agg_qty s' (req_pool_id l) = agg_qty s (req_pool_id l) + req_qty l"
    and fault_err: "step s l r t = (Inl f, s', r') \<Longrightarrow> \<exists>e. f = Err e"

lemma fold_agg_effect_layers: "list_all (\<lambda>x. \<not> is_upsert x) ms \<Longrightarrow> fold agg_effect ms f = f"
proof (induction ms)
  case (Cons x ms)
  then show ?case by (cases x) auto
qed simp

sublocale method_step \<subseteq> posting_step step
proof
  fix s l r t u s' r' and p :: i64
  assume ok: "step s l r t = (Inr u, s', r')"
  note zero = zero_line[OF ok]
  show "same_config s s'" using zero nz_config[OF ok] by (auto simp: same_config_def)
  show "map out_key (trx_lines r') =
      map out_key (trx_lines r) @ (if req_qty l = 0 then [] else [req_key l])"
    using zero nz_out[OF ok] by auto
  show "\<exists>ps. posting_lines r' = posting_lines r @ ps \<and> posts_at (length (trx_lines r)) l ps"
    using zero nz_posts[OF ok] by (cases "req_qty l = 0") (auto simp: posts_at_def)
  show "\<exists>ms. pool_state_mutations r' = pool_state_mutations r @ ms \<and>
      upserted ms = (if req_qty l = 0 then [] else [req_pool_id l]) \<and>
      list_all (idx_in (length (trx_lines r'))) ms \<and> fold agg_effect ms (agg_view s) = agg_view s'"
  proof (cases "req_qty l = 0")
    case False
    then obtain ms q c v where ms: "pool_state_mutations r' = pool_state_mutations r @ ms @
        [UpsertAggregate (req_pool_id l) q c v]"
      "list_all (\<lambda>x. \<not> is_upsert x \<and> idx_in (Suc (length (trx_lines r))) x) ms"
      "agg_view s' = (agg_view s)(req_pool_id l := (q, c, v))"
      using nz_view[OF ok] by blast
    have "length (trx_lines r') = Suc (length (trx_lines r))"
      using arg_cong[OF nz_out[OF ok False], of length] by simp
    moreover have "list_all (\<lambda>x. \<not> is_upsert x) ms" using ms(2) by (simp add: list_all_iff)
    ultimately show ?thesis
      using ms False by (intro exI[of _ "ms @ [UpsertAggregate (req_pool_id l) q c v]"])
        (simp add: fold_agg_effect_layers upserted_layers upserted_append list_all_iff)
  qed (use zero in simp)
  assume wf: "snapshot_wf s" "line_i64 l"
  show "snapshot_wf s'" using zero nz_wf[OF ok] wf by auto
  show "agg_qty s' p = agg_qty s p + (if req_pool_id l = p then req_qty l else 0)"
  proof (cases "req_qty l = 0")
    case False
    then obtain q c v where "agg_view s' = (agg_view s)(req_pool_id l := (q, c, v))"
      using nz_view[OF ok] by blast
    then show ?thesis using agg_view_updD nz_qty[OF ok False wf] by (cases "p = req_pool_id l") auto
  qed (use zero in auto)
next
  fix s l r t f s' r'
  assume "step s l r t = (Inl f, s', r')"
  then show "\<exists>e. f = Err e" by (rule fault_err)
qed

end
