(* ===== verification/Tables.thy ===== *)
theory Tables
  imports Snapshot
begin

text \<open>
  The database the extension runs in (\<open>db/migrations\<close>): one record with a list of rows
  per table, in insertion order, the sequences and the clock, and the statements the
  Rust code shares. A statement is a function of the database that returns an error,
  which aborts the enclosing transaction, or its result and the new database. A
  rolled-back attempt leaves the database as it was; the gaps such an attempt leaves
  in the identifier sequences are not modelled.

  Times are microseconds in UTC, dates are days. \<open>db_quot\<close> is the server's
  numeric division followed by \<open>trunc\<close>, as the SQL function \<open>banker_div\<close> uses it:
  it is part of the server, so it is a parameter of the model carried in the state.
  Constraints between tables that the configuration tables already guarantee
  (accounts, skus, locations) are not modelled.
\<close>

section \<open>Keyed rows\<close>

text \<open>The contract of a table with a primary key.\<close>

locale row_store =
  fixes lookup :: "'t \<Rightarrow> 'k \<Rightarrow> 'r option"
    and store :: "'r \<Rightarrow> 't \<Rightarrow> 't"
    and remove :: "'k \<Rightarrow> 't \<Rightarrow> 't"
    and key :: "'r \<Rightarrow> 'k"
  assumes lookup_store: "lookup (store r t) k = (if k = key r then Some r else lookup t k)"
    and lookup_remove: "lookup (remove k t) k' = (if k' = k then None else lookup t k')"
begin

lemma lookup_store_same [simp]: "lookup (store r t) (key r) = Some r"
  by (simp add: lookup_store)

lemma lookup_store_list:
  "lookup (fold store rs t) k =
    (case find (\<lambda>r. key r = k) (rev rs) of Some r \<Rightarrow> Some r | None \<Rightarrow> lookup t k)"
  by (induction rs rule: rev_induct) (auto simp: lookup_store)

lemma lookup_store_other: "k \<notin> key ` set rs \<Longrightarrow> lookup (fold store rs t) k = lookup t k"
  by (induction rs arbitrary: t) (auto simp: lookup_store)

lemma lookup_store_distinct:
  "distinct (map key rs) \<Longrightarrow> r \<in> set rs \<Longrightarrow> lookup (fold store rs t) (key r) = Some r"
proof (induction rs arbitrary: t)
  case (Cons a rs)
  then show ?case by (cases "r = a") (auto simp: lookup_store_other)
qed simp

lemma lookup_remove_list:
  "lookup (fold remove ks t) k = (if k \<in> set ks then None else lookup t k)"
  by (induction ks arbitrary: t) (auto simp: lookup_remove)

end

definition find_key :: "('r \<Rightarrow> 'k) \<Rightarrow> 'r list \<Rightarrow> 'k \<Rightarrow> 'r option" where
  "find_key key rows k = find (\<lambda>r. key r = k) rows"

fun put_key :: "('r \<Rightarrow> 'k) \<Rightarrow> 'r \<Rightarrow> 'r list \<Rightarrow> 'r list" where
  "put_key key r [] = [r]"
| "put_key key r (x # rows) = (if key x = key r then r # rows else x # put_key key r rows)"

definition del_key :: "('r \<Rightarrow> 'k) \<Rightarrow> 'k \<Rightarrow> 'r list \<Rightarrow> 'r list" where
  "del_key key k rows = filter (\<lambda>r. key r \<noteq> k) rows"

lemma find_put_key: "find_key key (put_key key r rows) k = (if k = key r then Some r else find_key key rows k)"
  unfolding find_key_def by (induction rows) auto

lemma find_del_key: "find_key key (del_key key k rows) k' = (if k' = k then None else find_key key rows k')"
  unfolding find_key_def del_key_def by (induction rows) auto

lemma keys_put_key: "set (map key (put_key key r rows)) = insert (key r) (set (map key rows))"
  by (induction rows) auto

lemma distinct_put_key: "distinct (map key rows) \<Longrightarrow> distinct (map key (put_key key r rows))"
  using keys_put_key[of key r] by (induction rows) auto

lemma distinct_del_key: "distinct (map key rows) \<Longrightarrow> distinct (map key (del_key key k rows))"
  by (simp add: del_key_def distinct_map_filter)

lemma find_key_Some: "find_key key rows k = Some r \<Longrightarrow> r \<in> set rows \<and> key r = k"
  unfolding find_key_def by (induction rows) (auto split: if_splits)

lemma find_key_None: "find_key key rows k = None \<longleftrightarrow> k \<notin> key ` set rows"
  unfolding find_key_def by (induction rows) auto

lemma find_key_unique: "distinct (map key rows) \<Longrightarrow> r \<in> set rows \<Longrightarrow> find_key key rows (key r) = Some r"
  unfolding find_key_def by (induction rows) (auto simp: rev_image_eqI)

section \<open>Rows\<close>

record pool_row =
  pl_id :: i64
  pl_sku_id :: i64
  pl_location_id :: i64
  pl_method :: PoolMethod
  pl_basis :: ProvisionalBasis

record trx_row =
  tr_id :: i64
  tr_trx_type :: string
  tr_source_id :: i64
  tr_posted_at :: timestamp

record trx_line_row =
  tl_id :: i64
  tl_trx_id :: i64
  tl_pool_id :: i64
  tl_line_type :: string
  tl_source_id :: "i64 option"
  tl_qty :: i64
  tl_unit_cost :: i64
  tl_source_trx_line_id :: "i64 option"
  tl_posted_at :: timestamp

record posting_row =
  po_id :: i64
  po_trx_line_id :: i64
  po_event_type :: string
  po_amount :: i64
  po_debit_account :: i64
  po_credit_account :: i64
  po_posted_at :: timestamp

record state_row =
  st_pool_id :: i64
  st_layer_id :: i64
  st_qty :: i64
  st_unit_cost :: i64
  st_value_sum :: i64

record queue_row =
  qu_pool_id :: i64
  qu_enqueued_at :: timestamp

text \<open>A frontier or floor is a position \<open>(posted_at, id)\<close> in a pool's business chronology.\<close>

type_synonym position = "timestamp \<times> i64"

record settlement_row =
  se_pool_id :: i64
  se_generation :: i64
  se_settled_through :: "position option"
  se_recost_floor :: "position option"

record cost_settlement_row =
  cs_depletion :: i64
  cs_generation :: i64
  cs_authoritative :: i64
  cs_prior :: i64
  cs_posting :: "i64 option"

record consumption_row =
  cc_depletion :: i64
  cc_layer :: i64
  cc_generation :: i64
  cc_qty :: i64
  cc_unit_cost :: i64

record escalation_row =
  es_pool_id :: i64
  es_closed_period :: "i64 option"
  es_depletion :: i64
  es_had_settlement :: bool
  es_frozen :: i64
  es_recomputed :: i64
  es_qty :: i64
  es_diverging :: i64
  es_total_value :: i64
  es_resolved :: bool

datatype period_state = PeriodOpen | PeriodClosing | PeriodClosed

record period_row =
  pe_id :: i64
  pe_start :: int
  pe_last :: int
  pe_state :: period_state
  pe_closed_at :: "timestamp option"
  pe_closed_by :: "string option"

record db =
  db_pool :: "pool_row list"
  db_accounts :: "i64 \<times> i64 \<rightharpoonup> PostingAccounts"
  db_standard_cost :: "i64 \<times> i64 \<rightharpoonup> i64"
  db_trx :: "trx_row list"
  db_trx_line :: "trx_line_row list"
  db_posting :: "posting_row list"
  db_pool_state :: "state_row list"
  db_queue :: "queue_row list"
  db_settlement :: "settlement_row list"
  db_cost_settlement :: "cost_settlement_row list"
  db_consumption :: "consumption_row list"
  db_escalation :: "escalation_row list"
  db_backlog :: "(i64 \<times> i64) list"
  db_backpressure :: "(i64 \<times> i64) list"
  db_bound_events :: i64
  db_low_water :: i64
  db_period :: "period_row list"
  db_next_trx :: i64
  db_next_line :: i64
  db_next_posting :: i64
  db_next_adjustment :: i64
  db_now :: timestamp
  db_quot :: "int \<Rightarrow> int \<Rightarrow> int"

section \<open>Errors and transactions\<close>

text \<open>Errors raised by the server carry what it names; those the extension raises itself carry
  their SQLSTATE and the fixed part of the message.\<close>

datatype pg_error =
    Unique_violation string
  | Check_violation string
  | Foreign_key_violation string
  | Numeric_out_of_range
  | Division_by_zero
  | Cardinality_violation
  | Invalid_text string
  | Raised string string
  | Rust_panic string

type_synonym 'a tx = "db \<Rightarrow> pg_error + 'a \<times> db"

definition tx_return :: "'a \<Rightarrow> 'a tx" where
  "tx_return x = (\<lambda>s. Inr (x, s))"

definition tx_fail :: "pg_error \<Rightarrow> 'a tx" where
  "tx_fail e = (\<lambda>s. Inl e)"

definition tx_bind :: "'a tx \<Rightarrow> ('a \<Rightarrow> 'b tx) \<Rightarrow> 'b tx" where
  "tx_bind c f = (\<lambda>s. case c s of Inl e \<Rightarrow> Inl e | Inr (x, s') \<Rightarrow> f x s')"

definition tx_lift :: "pg_error + 'a \<Rightarrow> 'a tx" where
  "tx_lift r = (\<lambda>s. case r of Inl e \<Rightarrow> Inl e | Inr x \<Rightarrow> Inr (x, s))"

fun tx_iter :: "('a \<Rightarrow> unit tx) \<Rightarrow> 'a list \<Rightarrow> unit tx" where
  "tx_iter f [] = tx_return ()"
| "tx_iter f (x # xs) = tx_bind (f x) (\<lambda>_. tx_iter f xs)"

lemma tx_bind_Inr:
  "tx_bind c f s = Inr (y, s') \<longleftrightarrow> (\<exists>x s1. c s = Inr (x, s1) \<and> f x s1 = Inr (y, s'))"
  by (auto simp: tx_bind_def split: sum.splits)

lemma tx_simps [simp]:
  "tx_return x s = Inr (x, s)" "tx_fail e s = Inl e"
  "tx_lift (Inr x) s = Inr (x, s)" "tx_lift (Inl e) s = Inl e"
  by (simp_all add: tx_return_def tx_fail_def tx_lift_def)

lemma tx_lift_Inr [simp]: "tx_lift r s = Inr (x, s') \<longleftrightarrow> r = Inr x \<and> s' = s"
  by (cases r) auto

lemma tx_bind_simps [simp]:
  "c s = Inl e \<Longrightarrow> tx_bind c f s = Inl e"
  "c s = Inr (x, s') \<Longrightarrow> tx_bind c f s = f x s'"
  by (simp_all add: tx_bind_def)

lemma tx_iter_append: "tx_iter f (xs @ ys) s = tx_bind (tx_iter f xs) (\<lambda>_. tx_iter f ys) s"
proof (induction xs arbitrary: s)
  case (Cons x xs)
  then show ?case by (auto simp: tx_bind_def split: sum.splits prod.splits)
qed (simp add: tx_bind_def)

section \<open>Arithmetic of the server\<close>

definition to_bigint :: "int \<Rightarrow> pg_error + i64" where
  "to_bigint x = (if is_i64 x then Inr x else Inl Numeric_out_of_range)"

lemma to_bigint_Inr [simp]: "to_bigint x = Inr y \<longleftrightarrow> y = x \<and> is_i64 x"
  by (auto simp: to_bigint_def)

definition sql_banker_div :: "(int \<Rightarrow> int \<Rightarrow> int) \<Rightarrow> int \<Rightarrow> i64 \<Rightarrow> pg_error + i64" where
  "sql_banker_div quot numerator denominator =
    (if denominator = 0 then Inl Division_by_zero
     else
       (let q = quot numerator denominator;
            r = numerator - q * denominator;
            abs_d = \<bar>denominator\<bar>;
            sign = (if (numerator < 0) \<noteq> (denominator < 0) then - 1 else 1)
        in to_bigint
             (if r = 0 then q
              else if \<bar>r\<bar> * 2 < abs_d then q
              else if \<bar>r\<bar> * 2 > abs_d then q + sign
              else if q smod 2 = 0 then q
              else q + sign)))"

definition exact_quot :: "db \<Rightarrow> bool" where
  "exact_quot s \<longleftrightarrow> (\<forall>n d. d \<noteq> 0 \<longrightarrow> db_quot s n d = n sdiv d)"

lemma sql_banker_div_exact:
  assumes "quot n d = n sdiv d" "d \<noteq> 0"
  shows "sql_banker_div quot n d =
    (case banker_div n d of Some v \<Rightarrow> Inr v | None \<Rightarrow> Inl Numeric_out_of_range)"
proof -
  have "n - (n sdiv d) * d = n smod d"
    using trunc_div_cases(1)[OF assms(2), of n] by simp
  then show ?thesis
    using assms
    by (simp add: sql_banker_div_def banker_div_def banker_round_def Let_def to_bigint_def try_i64_def)
qed

section \<open>Lookups\<close>

definition st_key :: "state_row \<Rightarrow> i64 \<times> i64" where
  "st_key r = (st_pool_id r, st_layer_id r)"

interpretation states: row_store "find_key st_key" "put_key st_key" "del_key st_key" st_key
  by unfold_locales (simp_all add: find_put_key find_del_key)

interpretation settlements: row_store "find_key se_pool_id" "put_key se_pool_id" "del_key se_pool_id" se_pool_id
  by unfold_locales (simp_all add: find_put_key find_del_key)

definition pool_of :: "db \<Rightarrow> i64 \<Rightarrow> pool_row option" where
  "pool_of s p = find_key pl_id (db_pool s) p"

definition state_of :: "db \<Rightarrow> i64 \<Rightarrow> i64 \<Rightarrow> state_row option" where
  "state_of s p l = find_key st_key (db_pool_state s) (p, l)"

definition put_state :: "state_row \<Rightarrow> db \<Rightarrow> db" where
  "put_state r s = s\<lparr>db_pool_state := put_key st_key r (db_pool_state s)\<rparr>"

definition settlement_of :: "db \<Rightarrow> i64 \<Rightarrow> settlement_row option" where
  "settlement_of s p = find_key se_pool_id (db_settlement s) p"

lemma state_of_put_state [simp]:
  "state_of (put_state r s) p l = (if (p, l) = st_key r then Some r else state_of s p l)"
  by (simp add: state_of_def put_state_def states.lookup_store)

lemma put_state_frame [frame_simps, simp]:
  "db_pool (put_state r s) = db_pool s" "db_accounts (put_state r s) = db_accounts s"
  "db_standard_cost (put_state r s) = db_standard_cost s" "db_trx (put_state r s) = db_trx s"
  "db_trx_line (put_state r s) = db_trx_line s" "db_posting (put_state r s) = db_posting s"
  "db_queue (put_state r s) = db_queue s" "db_settlement (put_state r s) = db_settlement s"
  "db_period (put_state r s) = db_period s" "db_next_line (put_state r s) = db_next_line s"
  "db_next_posting (put_state r s) = db_next_posting s" "db_quot (put_state r s) = db_quot s"
  "pool_of (put_state r s) p = pool_of s p"
  by (simp_all add: put_state_def pool_of_def)

section \<open>Inserting lines and postings\<close>

definition day_start :: "int \<Rightarrow> timestamp" where
  "day_start d = d * 86400000000"

definition period_contains :: "period_row \<Rightarrow> timestamp \<Rightarrow> bool" where
  "period_contains pr t \<longleftrightarrow> day_start (pe_start pr) \<le> t \<and> t < day_start (pe_last pr + 1)"

text \<open>The latest closed end date, which bounds every later write.\<close>

definition closed_frontier :: "db \<Rightarrow> int option" where
  "closed_frontier s =
    (let ends = map pe_last (filter (\<lambda>pr. pe_state pr = PeriodClosed) (db_period s))
     in if ends = [] then None else Some (Max (set ends)))"

definition period_guard :: "db \<Rightarrow> timestamp \<Rightarrow> pg_error + unit" where
  "period_guard s t =
    (if list_ex (\<lambda>pr. period_contains pr t \<and> pe_state pr = PeriodClosed) (db_period s)
     then Inl (Raised ''55000'' ''PeriodClosed: falls in closed accounting_period'')
     else
       (case closed_frontier s of
          None \<Rightarrow> Inr ()
        | Some v_floor_end \<Rightarrow>
            if t < day_start (v_floor_end + 1)
            then Inl (Raised ''55000'' ''PeriodClosed: at or before the closed-period frontier'')
            else Inr ()))"

definition cost_adjustment_line :: string where
  "cost_adjustment_line = ''cost_adjustment_line''"

definition line_type_labels :: "string list" where
  "line_type_labels =
    [''po_receipt_line'', ''wo_output'', ''wo_backflush'', ''wo_scrap'', ''inv_adjustment_line'',
     ''transfer_shipment_line'', ''transfer_receipt_line'', ''manual_adjustment_line'',
     ''revaluation_line'', cost_adjustment_line]"

definition trx_type_labels :: "string list" where
  "trx_type_labels =
    [''po_receipt'', ''wo_completion'', ''inv_adjustment'', ''transfer_shipment'',
     ''transfer_receipt'', ''manual_adjustment'', ''revaluation_run'', ''cost_adjustment'']"

text \<open>A \<open>trx_line\<close> row on its way in: the enum cast, the period trigger, which lets the engine's own
  adjustment lines pass, the two check constraints and the foreign key. The row's identifier is the
  next of the sequence, whatever the argument carries.\<close>

definition insert_line :: "trx_line_row \<Rightarrow> i64 tx" where
  "insert_line r s =
    (if tl_line_type r \<notin> set line_type_labels then Inl (Invalid_text ''line_type'')
     else
       (case (if tl_line_type r = cost_adjustment_line then Inr () else period_guard s (tl_posted_at r)) of
          Inl e \<Rightarrow> Inl e
        | Inr _ \<Rightarrow>
            if tl_qty r = 0 \<and> tl_line_type r \<noteq> cost_adjustment_line
            then Inl (Check_violation ''trx_line_qty_nonzero'')
            else if tl_unit_cost r < 0 then Inl (Check_violation ''trx_line_unit_cost_nonneg'')
            else if pool_of s (tl_pool_id r) = None
            then Inl (Foreign_key_violation ''trx_line_pool_id_fkey'')
            else Inr (db_next_line s,
                   s\<lparr>db_trx_line := db_trx_line s @ [r\<lparr>tl_id := db_next_line s\<rparr>],
                     db_next_line := db_next_line s + 1\<rparr>)))"

definition insert_posting :: "posting_row \<Rightarrow> i64 tx" where
  "insert_posting r s =
    Inr (db_next_posting s,
      s\<lparr>db_posting := db_posting s @ [r\<lparr>po_id := db_next_posting s\<rparr>],
        db_next_posting := db_next_posting s + 1\<rparr>)"

definition insert_trx :: "string \<Rightarrow> i64 \<Rightarrow> timestamp \<Rightarrow> i64 tx" where
  "insert_trx trx_type source_id posted_at s =
    (if trx_type \<notin> set trx_type_labels then Inl (Invalid_text ''trx_type'')
     else if list_ex (\<lambda>r. tr_trx_type r = trx_type \<and> tr_source_id r = source_id) (db_trx s)
     then Inl (Unique_violation ''trx_trx_type_source_id_key'')
     else Inr (db_next_trx s,
            s\<lparr>db_trx := db_trx s @ [\<lparr>tr_id = db_next_trx s, tr_trx_type = trx_type,
                tr_source_id = source_id, tr_posted_at = posted_at\<rparr>],
              db_next_trx := db_next_trx s + 1\<rparr>))"

lemma insert_line_ok:
  assumes "insert_line r s = Inr (i, s')"
  shows "i = db_next_line s"
    "s' = s\<lparr>db_trx_line := db_trx_line s @ [r\<lparr>tl_id := i\<rparr>], db_next_line := i + 1\<rparr>"
    "0 \<le> tl_unit_cost r" "tl_qty r \<noteq> 0 \<or> tl_line_type r = cost_adjustment_line"
    "tl_line_type r \<in> set line_type_labels" "pool_of s (tl_pool_id r) \<noteq> None"
    "tl_line_type r \<noteq> cost_adjustment_line \<Longrightarrow> period_guard s (tl_posted_at r) = Inr ()"
  using assms by (auto simp: insert_line_def split: if_splits sum.splits)

lemma line_labels [simp]:
  "line_type_as_sql l \<in> set line_type_labels" "line_type_as_sql l \<noteq> cost_adjustment_line"
  "cost_adjustment_line \<in> set line_type_labels"
  by (cases l; simp add: line_type_labels_def cost_adjustment_line_def)+

lemma closed_frontier_cases:
  obtains (none) "closed_frontier s = None"
      "list_all (\<lambda>pr. pe_state pr \<noteq> PeriodClosed) (db_period s)"
  | (frontier) pr where "closed_frontier s = Some (pe_last pr)" "pr \<in> set (db_period s)"
      "pe_state pr = PeriodClosed"
      "list_all (\<lambda>pr'. pe_state pr' = PeriodClosed \<longrightarrow> pe_last pr' \<le> pe_last pr) (db_period s)"
proof -
  let ?closed = "\<lambda>prs. filter (\<lambda>pr. pe_state pr = PeriodClosed) prs"
  have eq: "closed_frontier s = (if ?closed (db_period s) = [] then None
      else Some (Max (pe_last ` set (?closed (db_period s)))))"
    by (simp add: closed_frontier_def Let_def)
  show thesis
  proof (cases "?closed (db_period s) = []")
    case True
    then show ?thesis using eq by (intro none) (auto simp: filter_empty_conv list_all_iff)
  next
    case False
    let ?S = "pe_last ` set (?closed (db_period s))"
    have ne: "?S \<noteq> {}" using False by (auto simp: filter_empty_conv)
    have "Max ?S \<in> ?S" by (rule Max_in) (use ne in auto)
    then obtain pr where pr: "pr \<in> set (?closed (db_period s))" "Max ?S = pe_last pr" by auto
    then show ?thesis
      using eq False Max_ge[of ?S] by (intro frontier[of pr]) (auto simp: list_all_iff)
  qed
qed

text \<open>The guard lets a time through exactly when it lies after every closed period.\<close>

lemma period_guard_iff:
  "period_guard s t = Inr () \<longleftrightarrow>
    list_all (\<lambda>pr. pe_state pr = PeriodClosed \<longrightarrow> day_start (pe_last pr + 1) \<le> t) (db_period s)"
proof (rule closed_frontier_cases[of s])
  assume "closed_frontier s = None" "list_all (\<lambda>pr. pe_state pr \<noteq> PeriodClosed) (db_period s)"
  then show ?thesis by (auto simp: period_guard_def list_all_iff list_ex_iff)
next
  fix pr
  assume *: "closed_frontier s = Some (pe_last pr)" "pr \<in> set (db_period s)"
      "pe_state pr = PeriodClosed"
      "list_all (\<lambda>pr'. pe_state pr' = PeriodClosed \<longrightarrow> pe_last pr' \<le> pe_last pr) (db_period s)"
  have "day_start (pe_last pr' + 1) \<le> t"
    if "day_start (pe_last pr + 1) \<le> t" "pr' \<in> set (db_period s)" "pe_state pr' = PeriodClosed" for pr'
    using that *(4) by (auto simp: list_all_iff day_start_def)
  then show ?thesis
    using * by (auto simp: period_guard_def list_all_iff list_ex_iff period_contains_def)
qed

lemma period_guard_put_state [simp, frame_simps]:
  "period_guard (put_state r s) t = period_guard s t"
  by (simp add: period_guard_def closed_frontier_def)

section \<open>Rows of a plan\<close>

text \<open>The row a planned line or posting becomes; the identifiers are the sequence's.\<close>

definition line_row_of :: "i64 \<Rightarrow> timestamp \<Rightarrow> TrxLineOutput \<Rightarrow> trx_line_row" where
  "line_row_of trx_id posted_at l =
    \<lparr>tl_id = 0, tl_trx_id = trx_id, tl_pool_id = out_pool_id l,
     tl_line_type = line_type_as_sql (out_line_type l), tl_source_id = out_source_id l,
     tl_qty = out_qty l, tl_unit_cost = out_unit_cost l,
     tl_source_trx_line_id = out_source_trx_line_id l, tl_posted_at = posted_at\<rparr>"

definition posting_row_of :: "i64 \<Rightarrow> PostingLineRequest \<Rightarrow> posting_row" where
  "posting_row_of line d =
    \<lparr>po_id = 0, po_trx_line_id = line, po_event_type = event_type_as_sql (post_event_type d),
     po_amount = post_amount d, po_debit_account = post_debit_account d,
     po_credit_account = post_credit_account d, po_posted_at = post_posted_at d\<rparr>"

end
