(* ===== verification/Wac.thy ===== *)
theory Wac
  imports Snapshot
begin

text \<open>
  The weighted-average method, \<open>ledger-core/src/wac.rs\<close>. One aggregate row per
  pool carries the quantity, the exact cumulative book value and the average
  derived from them. Each operation returns the snapshot and the plan as they are
  when it returns, on its error paths too.
\<close>

definition overflow :: "string \<Rightarrow> i64 \<Rightarrow> fault" where
  "overflow detail p = Err (Overflow detail p)"

definition expect_method :: "Snapshot \<Rightarrow> i64 \<Rightarrow> PoolMethod \<Rightarrow> LedgerError + unit" where
  "expect_method snap p expected =
    (case method_of snap p of
       None \<Rightarrow> Inl (UnknownPool p)
     | Some got \<Rightarrow> if got \<noteq> expected then Inl (MethodMismatch p expected got) else Inr ())"

definition aggregate_receipt :: step_fun where
  "aggregate_receipt snap line res posted_at =
    (let p = req_pool_id line in
     case resolve_posting_accounts snap p of
       Inl e \<Rightarrow> (Inl (Err e), snap, res)
     | Inr accts \<Rightarrow>
         (let (debit_account, credit_account) = pair_for accts (req_line_type line);
              (old_qty, old_unit_cost, old_value_sum, _) = read_aggregate snap p
          in case checked_add old_qty (req_qty line) of
               None \<Rightarrow> (Inl (overflow ''receipt qty on pool '' p), snap, res)
             | Some new_qty \<Rightarrow>
                 (let new_value_sum_i128 = old_value_sum + req_qty line * req_unit_cost line
                  in case try_i64 new_value_sum_i128 of
                       None \<Rightarrow> (Inl (overflow ''receipt value_sum on pool '' p), snap, res)
                     | Some new_value_sum \<Rightarrow>
                         (case (if new_qty > 0 then banker_div new_value_sum_i128 new_qty
                                else Some old_unit_cost) of
                            None \<Rightarrow> (Inl (Panic ''banker_div''), snap, res)
                          | Some new_unit_cost \<Rightarrow>
                              (let trx_line_idx = length (trx_lines res);
                                   res1 = push_trx_line
                                     \<lparr>out_pool_id = p, out_qty = req_qty line,
                                      out_unit_cost = req_unit_cost line,
                                      out_source_trx_line_id = None,
                                      out_line_type = req_line_type line,
                                      out_source_id = req_source_id line\<rparr> res;
                                   res2 = push_mutation
                                     (UpsertAggregate p new_qty new_unit_cost new_value_sum) res1;
                                   snap1 = put_aggregate snap p new_qty new_unit_cost new_value_sum
                               in case try_i64 (req_qty line * req_unit_cost line) of
                                    None \<Rightarrow>
                                      (Inl (overflow ''receipt amount on pool '' p), snap1, res2)
                                  | Some amount \<Rightarrow>
                                      (Inr (), snap1, push_posting
                                        \<lparr>post_trx_line_idx = trx_line_idx,
                                         post_event_type = InventoryReceipt,
                                         post_amount = amount,
                                         post_debit_account = debit_account,
                                         post_credit_account = credit_account,
                                         post_posted_at = posted_at\<rparr> res2))))))"

text \<open>The guard makes the unchecked subtraction of the source exact: the difference lies between
  0 and the quantity it is taken from.\<close>

definition aggregate_deplete ::
  "Snapshot \<Rightarrow> TrxLineRequest \<Rightarrow> PlanResult \<Rightarrow> timestamp \<Rightarrow> i64 \<Rightarrow> outcome" where
  "aggregate_deplete snap line res posted_at applied_unit_cost =
    (let p = req_pool_id line in
     case resolve_posting_accounts snap p of
       Inl e \<Rightarrow> (Inl (Err e), snap, res)
     | Inr accts \<Rightarrow>
         (let (rcv_debit, rcv_credit) = pair_for accts (req_line_type line);
              (debit_account, credit_account) = (rcv_credit, rcv_debit)
          in case checked_abs (req_qty line) of
               None \<Rightarrow> (Inl (overflow ''deplete qty.abs() on pool '' p), snap, res)
             | Some qty_to_deplete \<Rightarrow>
                 (let (current_qty, current_unit_cost, current_value_sum, _) = read_aggregate snap p
                  in if current_qty < qty_to_deplete
                     then (Inl (Err (InsufficientInventory p qty_to_deplete current_qty)), snap, res)
                     else
                       (let new_qty = current_qty - qty_to_deplete;
                            trx_line_idx = length (trx_lines res);
                            res1 = push_trx_line
                              \<lparr>out_pool_id = p, out_qty = req_qty line,
                               out_unit_cost = applied_unit_cost,
                               out_source_trx_line_id = None,
                               out_line_type = req_line_type line,
                               out_source_id = req_source_id line\<rparr> res
                        in case try_i64 (qty_to_deplete * applied_unit_cost) of
                             None \<Rightarrow> (Inl (overflow ''deplete amount on pool '' p), snap, res1)
                           | Some amount \<Rightarrow>
                               (case (if new_qty = 0 then Some 0
                                      else checked_sub current_value_sum amount) of
                                  None \<Rightarrow> (Inl (overflow ''deplete value_sum on pool '' p), snap, res1)
                                | Some new_value_sum \<Rightarrow>
                                    (case (if new_qty > 0 then banker_div new_value_sum new_qty
                                           else Some current_unit_cost) of
                                       None \<Rightarrow> (Inl (Panic ''banker_div''), snap, res1)
                                     | Some new_unit_cost \<Rightarrow>
                                         (let res2 = push_mutation (UpsertAggregate p new_qty
                                                       new_unit_cost new_value_sum) res1;
                                              snap1 = put_aggregate snap p new_qty
                                                        new_unit_cost new_value_sum
                                          in (Inr (), snap1, push_posting
                                               \<lparr>post_trx_line_idx = trx_line_idx,
                                                post_event_type = InventoryDepletion,
                                                post_amount = amount,
                                                post_debit_account = debit_account,
                                                post_credit_account = credit_account,
                                                post_posted_at = posted_at\<rparr> res2))))))))"

definition apply_wac :: step_fun where
  "apply_wac snap line res posted_at =
    (case expect_method snap (req_pool_id line) Wac of
       Inl e \<Rightarrow> (Inl (Err e), snap, res)
     | Inr _ \<Rightarrow>
         (if req_qty line = 0 then (Inr (), snap, res)
          else if req_qty line > 0 then aggregate_receipt snap line res posted_at
          else
            (let (_, applied_unit_cost, _, _) = read_aggregate snap (req_pool_id line)
             in aggregate_deplete snap line res posted_at applied_unit_cost)))"

section \<open>Successful calls\<close>

text \<open>What a successful receipt and a successful depletion have checked and done.\<close>

definition receipt_out :: "TrxLineRequest \<Rightarrow> TrxLineOutput" where
  "receipt_out line = \<lparr>out_pool_id = req_pool_id line, out_qty = req_qty line,
     out_unit_cost = req_unit_cost line, out_source_trx_line_id = None,
     out_line_type = req_line_type line, out_source_id = req_source_id line\<rparr>"

lemma aggregate_receipt_okE:
  assumes "aggregate_receipt snap line res t = (Inr u, snap', res')"
  obtains accts new_qty new_value new_cost where
    "posting_accounts_of snap (req_pool_id line) = Some accts"
    "new_qty = agg_qty snap (req_pool_id line) + req_qty line" "is_i64 new_qty"
    "new_value = agg_value_sum snap (req_pool_id line) + req_qty line * req_unit_cost line"
    "is_i64 new_value" "is_i64 (req_qty line * req_unit_cost line)"
    "new_cost = (if 0 < new_qty then banker_round new_value new_qty
       else agg_unit_cost snap (req_pool_id line))"
    "0 < new_qty \<Longrightarrow> is_i64 new_cost"
    "snap' = put_aggregate snap (req_pool_id line) new_qty new_cost new_value"
    "trx_lines res' = trx_lines res @ [receipt_out line]"
    "pool_state_mutations res' = pool_state_mutations res @
       [UpsertAggregate (req_pool_id line) new_qty new_cost new_value]"
    "posting_lines res' = posting_lines res @
       [\<lparr>post_trx_line_idx = length (trx_lines res), post_event_type = InventoryReceipt,
         post_amount = req_qty line * req_unit_cost line,
         post_debit_account = fst (pair_for accts (req_line_type line)),
         post_credit_account = snd (pair_for accts (req_line_type line)), post_posted_at = t\<rparr>]"
  using assms
  by (auto simp: aggregate_receipt_def Let_def resolve_posting_accounts_def read_aggregate_eq
      banker_div_Some_iff receipt_out_def split: option.splits prod.splits if_splits intro!: that)

lemma aggregate_deplete_okE:
  assumes "aggregate_deplete snap line res t c = (Inr u, snap', res')" "req_qty line < 0"
  obtains accts new_qty new_value new_cost where
    "posting_accounts_of snap (req_pool_id line) = Some accts"
    "new_qty = agg_qty snap (req_pool_id line) + req_qty line" "0 \<le> new_qty"
    "is_i64 (- req_qty line)" "is_i64 (- req_qty line * c)"
    "new_value = (if new_qty = 0 then 0 else agg_value_sum snap (req_pool_id line) + req_qty line * c)"
    "is_i64 new_value"
    "new_cost = (if new_qty = 0 then agg_unit_cost snap (req_pool_id line)
       else banker_round new_value new_qty)"
    "0 < new_qty \<Longrightarrow> is_i64 new_cost"
    "snap' = put_aggregate snap (req_pool_id line) new_qty new_cost new_value"
    "trx_lines res' = trx_lines res @ [(receipt_out line)\<lparr>out_unit_cost := c\<rparr>]"
    "pool_state_mutations res' = pool_state_mutations res @
       [UpsertAggregate (req_pool_id line) new_qty new_cost new_value]"
    "posting_lines res' = posting_lines res @
       [\<lparr>post_trx_line_idx = length (trx_lines res), post_event_type = InventoryDepletion,
         post_amount = - req_qty line * c,
         post_debit_account = snd (pair_for accts (req_line_type line)),
         post_credit_account = fst (pair_for accts (req_line_type line)), post_posted_at = t\<rparr>]"
  using assms
  by (auto simp: aggregate_deplete_def Let_def resolve_posting_accounts_def read_aggregate_eq
      banker_div_Some_iff receipt_out_def split: option.splits prod.splits if_splits intro!: that)

section \<open>The contract holds\<close>

lemma expect_method_Inr [simp]: "expect_method s p m = Inr u \<longleftrightarrow> method_of s p = Some m"
  by (auto simp: expect_method_def split: option.splits)

lemma apply_wac_cases:
  assumes "apply_wac s l r t = (Inr u, s', r')"
  obtains (zero) "req_qty l = 0" "method_of s (req_pool_id l) = Some Wac" "s' = s" "r' = r"
  | (receipt) "0 < req_qty l" "method_of s (req_pool_id l) = Some Wac"
      "aggregate_receipt s l r t = (Inr u, s', r')"
  | (deplete) "req_qty l < 0" "method_of s (req_pool_id l) = Some Wac"
      "aggregate_deplete s l r t (agg_unit_cost s (req_pool_id l)) = (Inr u, s', r')"
  using assms
  by (auto simp: apply_wac_def read_aggregate_eq expect_method_def
      split: sum.splits option.splits if_splits)

text \<open>One line in terms of the old aggregate: the facts the contract needs, for both signs. The book
  value of an emptied pool is cleared, whatever rounding residue it had.\<close>

lemma apply_wac_effect:
  assumes ok: "apply_wac s l r t = (Inr u, s', r')" and nz: "req_qty l \<noteq> 0"
    and wf: "snapshot_wf s"
  obtains c v where
    "s' = put_aggregate s (req_pool_id l) (agg_qty s (req_pool_id l) + req_qty l) c v"
    "0 \<le> agg_qty s (req_pool_id l) + req_qty l" "is_i64 (agg_qty s (req_pool_id l) + req_qty l)"
    "is_i64 c" "is_i64 v"
    "if agg_qty s (req_pool_id l) + req_qty l = 0 then v = 0
     else c = banker_round v (agg_qty s (req_pool_id l) + req_qty l)"
    "pool_state_mutations r' = pool_state_mutations r @
       [UpsertAggregate (req_pool_id l) (agg_qty s (req_pool_id l) + req_qty l) c v]"
proof -
  let ?p = "req_pool_id l"
  have m: "method_of s ?p = Some Wac" using ok by (cases rule: apply_wac_cases)
  note old = agg_i64[OF wf m]
  from ok show thesis
  proof (cases rule: apply_wac_cases)
    case receipt
    show ?thesis
      by (rule aggregate_receipt_okE[OF receipt(3)], rule that)
        (use receipt(1) old in \<open>auto split: if_splits\<close>)
  next
    case deplete
    show ?thesis
    proof (rule aggregate_deplete_okE[OF deplete(3,1)], rule that)
      fix new_qty :: int
      assume "new_qty = agg_qty s ?p + req_qty l" "0 \<le> new_qty"
      then show "is_i64 (agg_qty s ?p + req_qty l)"
        using deplete(1) is_i64_mono[OF old(2)] by simp
    qed (use old in \<open>auto split: if_splits\<close>)
  qed (use nz in simp)
qed

lemma apply_wac_no_panic: "apply_wac s l r t = (Inl f, s', r') \<Longrightarrow> \<exists>e. f = Err e"
  by (auto simp: apply_wac_def aggregate_receipt_def aggregate_deplete_def overflow_def Let_def
      banker_div_i64 is_i64_banker_round read_aggregate_eq
      split: sum.splits option.splits prod.splits if_splits)

interpretation wac: method_step apply_wac Wac
proof
  fix s l r t u s' r'
  assume ok: "apply_wac s l r t = (Inr u, s', r')"
  show m: "method_of s (req_pool_id l) = Some Wac" using ok by (cases rule: apply_wac_cases)
  show "s' = s \<and> r' = r" if "req_qty l = 0"
    using ok that by (cases rule: apply_wac_cases) auto
  assume nz: "req_qty l \<noteq> 0"
  from ok show "same_config s s'"
    by (cases rule: apply_wac_cases)
      (auto simp: same_config_def elim: aggregate_receipt_okE aggregate_deplete_okE)
  from ok show "map out_key (trx_lines r') = map out_key (trx_lines r) @ [req_key l]"
    by (cases rule: apply_wac_cases) (use nz in \<open>auto simp: out_key_def req_key_def receipt_out_def
      elim: aggregate_receipt_okE aggregate_deplete_okE\<close>)
  from ok show "\<exists>ps. posting_lines r' = posting_lines r @ ps \<and> ps \<noteq> [] \<and>
      list_all (\<lambda>d. post_trx_line_idx d = length (trx_lines r)) ps"
    by (cases rule: apply_wac_cases)
      (use nz in \<open>auto elim: aggregate_receipt_okE aggregate_deplete_okE\<close>)
  from ok show "\<exists>ms q c v. pool_state_mutations r' = pool_state_mutations r @ ms @ [UpsertAggregate (req_pool_id l) q c v] \<and>
      list_all (\<lambda>x. \<not> is_upsert x \<and> idx_in (Suc (length (trx_lines r))) x) ms \<and>
      agg_view s' = (agg_view s)(req_pool_id l := (q, c, v))"
    by (cases rule: apply_wac_cases)
      (use nz in \<open>auto elim!: aggregate_receipt_okE aggregate_deplete_okE intro!: exI[of _ "[]"]\<close>)
  assume wf: "snapshot_wf s"
  show "snapshot_wf s'"
    by (rule apply_wac_effect[OF ok nz wf])
      (simp, rule put_aggregate_wf[OF wf m], auto split: if_splits)
  show "agg_qty s' (req_pool_id l) = agg_qty s (req_pool_id l) + req_qty l"
    by (rule apply_wac_effect[OF ok nz wf]) simp
qed (rule apply_wac_no_panic)

end
