(* ===== verification/Cte.thy ===== *)
theory Cte
  imports Tables Wac
begin

text \<open>
  The four single-statement aggregate mutations of the hot path,
  \<open>ledger-direct/src/cte.rs\<close>. Each is one SQL statement: the mutation of the
  aggregate row, the insertion of the line and, for weighted-average pools, of the
  posting. An \<open>INSERT ... ON CONFLICT\<close> evaluates its \<open>VALUES\<close> before it looks for the
  conflicting row, so their range errors come first on both arms. The theory shows
  that the weighted-average statements compute what \<open>ledger_core::wac\<close> computes, and
  that every statement keeps the aggregate row reconcilable to the recorded lines
  (the verifier's checks V1 and V2).
\<close>

section \<open>Mutations of the aggregate row\<close>

text \<open>The \<open>mv\<close> part of WAC_RECEIPT.\<close>

definition wac_receipt_mv :: "i64 \<Rightarrow> i64 \<Rightarrow> i64 \<Rightarrow> unit tx" where
  "wac_receipt_mv p q c s =
    and_then (sql_banker_div (db_quot s) (q * c) q) (\<lambda>uc0.
    and_then (to_bigint (q * c)) (\<lambda>vs0.
    case state_of s p 0 of
      None \<Rightarrow> Inr ((), put_state \<lparr>st_pool_id = p, st_layer_id = 0, st_qty = q,
                                  st_unit_cost = uc0, st_value_sum = vs0\<rparr> s)
    | Some r \<Rightarrow>
        and_then (to_bigint (st_qty r + q)) (\<lambda>qty.
        and_then (to_bigint (st_value_sum r + q * c)) (\<lambda>vs.
        and_then (sql_banker_div (db_quot s) (st_value_sum r + q * c) qty) (\<lambda>uc.
          Inr ((), put_state (r\<lparr>st_qty := qty, st_unit_cost := uc, st_value_sum := vs\<rparr>) s))))))"

text \<open>The \<open>mv\<close> part of WAC_DEPLETE: no row when the gate fails, otherwise the cost applied.\<close>

definition wac_deplete_mv :: "i64 \<Rightarrow> i64 \<Rightarrow> i64 option tx" where
  "wac_deplete_mv p q s =
    (case state_of s p 0 of
       None \<Rightarrow> Inr (None, s)
     | Some r \<Rightarrow>
         and_then (to_bigint (st_qty r - q)) (\<lambda>qty.
         if qty < 0 then Inr (None, s)
         else
           and_then (if qty = 0 then Inr 0 else to_bigint (st_value_sum r - q * st_unit_cost r)) (\<lambda>vs.
           and_then (if qty > 0 then sql_banker_div (db_quot s) (st_value_sum r - q * st_unit_cost r) qty
                     else Inr (st_unit_cost r)) (\<lambda>uc.
             Inr (Some (st_unit_cost r),
               put_state (r\<lparr>st_qty := qty, st_unit_cost := uc, st_value_sum := vs\<rparr>) s)))))"

definition fl_receipt_mv :: "i64 \<Rightarrow> i64 \<Rightarrow> i64 \<Rightarrow> unit tx" where
  "fl_receipt_mv p q c s =
    and_then (sql_banker_div (db_quot s) (q * c) q) (\<lambda>uc0.
    and_then (to_bigint (q * c)) (\<lambda>vs0.
    case state_of s p 0 of
      None \<Rightarrow> Inr ((), put_state \<lparr>st_pool_id = p, st_layer_id = 0, st_qty = q,
                                  st_unit_cost = uc0, st_value_sum = vs0\<rparr> s)
    | Some r \<Rightarrow>
        and_then (to_bigint (st_qty r + q)) (\<lambda>qty.
        and_then (to_bigint (st_value_sum r + q * c)) (\<lambda>vs.
        and_then (if qty > 0 then sql_banker_div (db_quot s) (st_value_sum r + q * c) qty
                  else Inr (st_unit_cost r)) (\<lambda>uc.
          Inr ((), put_state (r\<lparr>st_qty := qty, st_unit_cost := uc, st_value_sum := vs\<rparr>) s))))))"

text \<open>The observed cost of a FIFO/LIFO depletion: the standard when the pool's basis is the
  standard, otherwise the average before the statement, and never negative.\<close>

definition observed_cost :: "i64 option \<Rightarrow> i64 option \<Rightarrow> i64" where
  "observed_cost standard_observed old_unit_cost =
    max (case standard_observed of Some c \<Rightarrow> c
         | None \<Rightarrow> (case old_unit_cost of Some c \<Rightarrow> c | None \<Rightarrow> 0)) 0"

definition fl_deplete_mv :: "i64 \<Rightarrow> i64 \<Rightarrow> i64 option \<Rightarrow> i64 tx" where
  "fl_deplete_mv p q standard_observed s =
    and_then (to_bigint (q * observed_cost standard_observed None * - 1)) (\<lambda>vs0.
    case state_of s p 0 of
      None \<Rightarrow> Inr (observed_cost standard_observed None,
                put_state \<lparr>st_pool_id = p, st_layer_id = 0, st_qty = 0 - q,
                           st_unit_cost = 0, st_value_sum = vs0\<rparr> s)
    | Some r \<Rightarrow>
        (let c = observed_cost standard_observed (Some (st_unit_cost r)) in
         and_then (to_bigint (st_qty r - q)) (\<lambda>qty.
         and_then (if qty = 0 then Inr 0 else to_bigint (st_value_sum r - q * c)) (\<lambda>vs.
         and_then (if qty > 0 then sql_banker_div (db_quot s) (st_value_sum r - q * c) qty
                   else Inr (st_unit_cost r)) (\<lambda>uc.
           Inr (c, put_state (r\<lparr>st_qty := qty, st_unit_cost := uc, st_value_sum := vs\<rparr>) s))))))"

section \<open>The statements\<close>

definition new_line :: "i64 \<Rightarrow> i64 \<Rightarrow> string \<Rightarrow> i64 option \<Rightarrow> i64 \<Rightarrow> i64 \<Rightarrow> timestamp \<Rightarrow> trx_line_row" where
  "new_line trx_id p lt src q c posted_at =
    \<lparr>tl_id = 0, tl_trx_id = trx_id, tl_pool_id = p, tl_line_type = lt, tl_source_id = src,
     tl_qty = q, tl_unit_cost = c, tl_source_trx_line_id = None, tl_posted_at = posted_at\<rparr>"

definition new_posting :: "i64 \<Rightarrow> string \<Rightarrow> i64 \<Rightarrow> i64 \<Rightarrow> i64 \<Rightarrow> timestamp \<Rightarrow> posting_row" where
  "new_posting line ev amount debit credit posted_at =
    \<lparr>po_id = 0, po_trx_line_id = line, po_event_type = ev, po_amount = amount,
     po_debit_account = debit, po_credit_account = credit, po_posted_at = posted_at\<rparr>"

definition wac_receipt ::
  "i64 \<Rightarrow> i64 \<Rightarrow> i64 \<Rightarrow> i64 \<Rightarrow> string \<Rightarrow> i64 option \<Rightarrow> timestamp \<Rightarrow> i64 \<Rightarrow> i64 \<Rightarrow> i64 option tx" where
  "wac_receipt p q c trx_id lt src posted_at debit credit =
    tx_bind (wac_receipt_mv p q c) (\<lambda>_.
    tx_bind (insert_line (new_line trx_id p lt src q c posted_at)) (\<lambda>i.
    tx_bind (tx_lift (to_bigint (q * c))) (\<lambda>amount.
    tx_bind (insert_posting (new_posting i ''inventory_receipt'' amount debit credit posted_at)) (\<lambda>_.
    tx_return (Some i)))))"

definition wac_deplete ::
  "i64 \<Rightarrow> i64 \<Rightarrow> i64 \<Rightarrow> string \<Rightarrow> i64 option \<Rightarrow> timestamp \<Rightarrow> i64 \<Rightarrow> i64 \<Rightarrow> i64 option tx" where
  "wac_deplete p q trx_id lt src posted_at debit credit =
    tx_bind (wac_deplete_mv p q) (\<lambda>mv.
    case mv of
      None \<Rightarrow> tx_return None
    | Some applied_uc \<Rightarrow>
        tx_bind (insert_line (new_line trx_id p lt src (0 - q) applied_uc posted_at)) (\<lambda>i.
        tx_bind (tx_lift (to_bigint (q * applied_uc))) (\<lambda>amount.
        tx_bind (insert_posting (new_posting i ''inventory_depletion'' amount debit credit posted_at)) (\<lambda>_.
        tx_return (Some i)))))"

definition fl_receipt ::
  "i64 \<Rightarrow> i64 \<Rightarrow> i64 \<Rightarrow> i64 \<Rightarrow> string \<Rightarrow> i64 option \<Rightarrow> timestamp \<Rightarrow> i64 option tx" where
  "fl_receipt p q c trx_id lt src posted_at =
    tx_bind (fl_receipt_mv p q c) (\<lambda>_.
    tx_bind (insert_line (new_line trx_id p lt src q c posted_at)) (\<lambda>i.
    tx_return (Some i)))"

definition fl_deplete ::
  "i64 \<Rightarrow> i64 \<Rightarrow> i64 option \<Rightarrow> i64 \<Rightarrow> string \<Rightarrow> i64 option \<Rightarrow> timestamp \<Rightarrow> i64 option tx" where
  "fl_deplete p q standard_observed trx_id lt src posted_at =
    tx_bind (fl_deplete_mv p q standard_observed) (\<lambda>applied_uc.
    tx_bind (insert_line (new_line trx_id p lt src (0 - q) applied_uc posted_at)) (\<lambda>i.
    tx_return (Some i)))"

section \<open>The verifier's fold over recorded lines\<close>

fun hot_fold :: "(i64 \<times> i64 \<times> i64) list \<Rightarrow> i64 \<Rightarrow> i128 \<Rightarrow> bool \<Rightarrow> i128 \<times> bool" where
  "hot_fold [] qty acc flushed = (acc, flushed)"
| "hot_fold ((_, q, c) # events) qty acc flushed =
    (let qty' = qty + q in
     if q > 0 then hot_fold events qty' (acc + q * c) flushed
     else if qty' = 0 then hot_fold events qty' 0 True
     else hot_fold events qty' (acc - (- q) * c) flushed)"

section \<open>Reconciliation to the recorded lines\<close>

definition pool_events :: "db \<Rightarrow> i64 \<Rightarrow> (i64 \<times> i64 \<times> i64) list" where
  "pool_events s p =
    map (\<lambda>r. (tl_id r, tl_qty r, tl_unit_cost r))
      (filter (\<lambda>r. tl_pool_id r = p \<and> tl_line_type r \<noteq> cost_adjustment_line) (db_trx_line s))"

definition agg_of :: "db \<Rightarrow> i64 \<Rightarrow> i64 \<times> i64" where
  "agg_of s p = (case state_of s p 0 of Some r \<Rightarrow> (st_qty r, st_value_sum r) | None \<Rightarrow> (0, 0))"

definition events_qty :: "(i64 \<times> i64 \<times> i64) list \<Rightarrow> int" where
  "events_qty evs = sum_list (map (\<lambda>(_, q, _). q) evs)"

text \<open>The aggregate row of a pool is reconciled when its quantity is the sum of the recorded
  quantities (V1) and its value the commit-order fold of the recorded lines (V2).\<close>

definition reconciled :: "db \<Rightarrow> i64 \<Rightarrow> bool" where
  "reconciled s p \<longleftrightarrow>
    agg_of s p = (events_qty (pool_events s p), fst (hot_fold (pool_events s p) 0 0 False))"

lemma hot_fold_append:
  "hot_fold (xs @ ys) qty acc fl =
    (case hot_fold xs qty acc fl of (acc', fl') \<Rightarrow> hot_fold ys (qty + events_qty xs) acc' fl')"
proof (induction xs arbitrary: qty acc fl)
  case (Cons x xs)
  obtain i q c where x: "x = (i, q, c)" by (cases x)
  have "events_qty (x # xs) = q + events_qty xs" by (simp add: x events_qty_def)
  then show ?case by (simp add: x Let_def Cons.IH add.assoc[symmetric])
qed (simp add: events_qty_def)

text \<open>The common effect of the four statements: one line recorded, the pool's aggregate row moved by
  it, perhaps a posting, and nothing else.\<close>

definition line_effect ::
  "i64 \<Rightarrow> i64 \<Rightarrow> string \<Rightarrow> i64 option \<Rightarrow> i64 \<Rightarrow> i64 \<Rightarrow> timestamp \<Rightarrow> db \<Rightarrow> db \<Rightarrow> bool" where
  "line_effect trx_id p lt src q c t s s' \<longleftrightarrow>
    agg_of s' p = (fst (agg_of s p) + q,
      if q \<le> 0 \<and> fst (agg_of s p) + q = 0 then 0 else snd (agg_of s p) + q * c) \<and>
    (\<forall>p' l. (p', l) \<noteq> (p, 0) \<longrightarrow> state_of s' p' l = state_of s p' l) \<and>
    (\<exists>rows ps m. s' = s\<lparr>db_pool_state := rows,
      db_trx_line := db_trx_line s @ [(new_line trx_id p lt src q c t)\<lparr>tl_id := db_next_line s\<rparr>],
      db_next_line := db_next_line s + 1, db_posting := db_posting s @ ps, db_next_posting := m\<rparr>)"

lemma line_effect_events:
  assumes "line_effect trx_id p lt src q c t s s'" "lt \<noteq> cost_adjustment_line"
  shows "pool_events s' p' = pool_events s p' @ (if p' = p then [(db_next_line s, q, c)] else [])"
  using assms by (auto simp: line_effect_def pool_events_def new_line_def)

lemma line_effect_agg:
  assumes "line_effect trx_id p lt src q c t s s'" "p' \<noteq> p"
  shows "agg_of s' p' = agg_of s p'"
proof -
  have "state_of s' p' 0 = state_of s p' 0" using assms by (simp add: line_effect_def)
  then show ?thesis by (simp add: agg_of_def)
qed

lemma line_effect_reconciled:
  assumes eff: "line_effect trx_id p lt src q c t s s'" and lt: "lt \<noteq> cost_adjustment_line"
    and rec: "reconciled s p'"
  shows "reconciled s' p'"
proof (cases "p' = p")
  case True
  have ev: "pool_events s' p = pool_events s p @ [(db_next_line s, q, c)]"
    using line_effect_events[OF eff lt] by simp
  have "fst (hot_fold (pool_events s' p) 0 0 False) =
      (if q \<le> 0 \<and> events_qty (pool_events s p) + q = 0 then 0
       else fst (hot_fold (pool_events s p) 0 0 False) + q * c)"
    by (simp add: ev hot_fold_append Let_def split: prod.splits)
  then show ?thesis
    using eff rec True ev by (auto simp: line_effect_def reconciled_def events_qty_def)
next
  case False
  then show ?thesis
    using rec line_effect_events[OF eff lt] line_effect_agg[OF eff] by (simp add: reconciled_def)
qed

text \<open>Storing an aggregate row and inserting a line that records what it moved by is such an effect.\<close>

lemma line_effectI:
  assumes ins: "insert_line (new_line trx_id p lt src q c t) (put_state r s) = Inr (i, s1)"
    and r: "st_pool_id r = p" "st_layer_id r = 0"
    and q: "st_qty r = fst (agg_of s p) + q"
    and v: "st_value_sum r = (if q \<le> 0 \<and> fst (agg_of s p) + q = 0 then 0 else snd (agg_of s p) + q * c)"
    and s': "s' = s1\<lparr>db_posting := db_posting s1 @ ps, db_next_posting := m\<rparr>"
  shows "line_effect trx_id p lt src q c t s s'"
proof -
  note i = insert_line_ok(1,2)[OF ins]
  have st: "state_of s' p' l = state_of (put_state r s) p' l" for p' l
    using s' i by (simp add: state_of_def put_state_def)
  have "s' = s\<lparr>db_pool_state := put_key st_key r (db_pool_state s),
      db_trx_line := db_trx_line s @ [(new_line trx_id p lt src q c t)\<lparr>tl_id := db_next_line s\<rparr>],
      db_next_line := db_next_line s + 1, db_posting := db_posting s @ ps, db_next_posting := m\<rparr>"
    using s' i by (simp add: put_state_def)
  moreover have "agg_of s' p = (fst (agg_of s p) + q,
      if q \<le> 0 \<and> fst (agg_of s p) + q = 0 then 0 else snd (agg_of s p) + q * c)"
    unfolding agg_of_def st using r q v by (auto simp: st_key_def agg_of_def)
  moreover have "state_of s' p' l = state_of s p' l" if "(p', l) \<noteq> (p, 0)" for p' l
    using that r by (auto simp: st st_key_def)
  ultimately show ?thesis unfolding line_effect_def by blast
qed

lemma wac_receipt_effect:
  assumes "wac_receipt p q c trx_id lt src t debit credit s = Inr (x, s')" "0 < q"
  shows "line_effect trx_id p lt src q c t s s'"
proof -
  obtain r i s1 ps m where "insert_line (new_line trx_id p lt src q c t) (put_state r s) = Inr (i, s1)"
    "st_pool_id r = p" "st_layer_id r = 0" "st_qty r = fst (agg_of s p) + q"
    "st_value_sum r = snd (agg_of s p) + q * c"
    "s' = s1\<lparr>db_posting := db_posting s1 @ ps, db_next_posting := m\<rparr>"
    using assms(1)
    by (fastforce simp: wac_receipt_def wac_receipt_mv_def tx_bind_Inr and_then_Inr insert_posting_def
        agg_of_def state_of_def st_key_def split: option.splits dest!: find_key_Some)
  then show ?thesis by (intro line_effectI) (use assms(2) in auto)
qed

lemma wac_deplete_mv_ok:
  assumes "wac_deplete_mv p q s = Inr (Some c, s1)"
  obtains r where "s1 = put_state r s" "st_pool_id r = p" "st_layer_id r = 0"
    "st_qty r = fst (agg_of s p) + - q"
    "st_value_sum r = (if fst (agg_of s p) + - q = 0 then 0 else snd (agg_of s p) + - q * c)"
proof (cases "state_of s p 0")
  case (Some r)
  then have "st_pool_id r = p" "st_layer_id r = 0"
    by (auto simp: state_of_def st_key_def dest!: find_key_Some)
  then show ?thesis
    using assms Some
    by (auto simp: wac_deplete_mv_def and_then_Inr agg_of_def split: if_splits intro!: that)
qed (use assms in \<open>simp add: wac_deplete_mv_def\<close>)

lemma wac_deplete_effect:
  assumes "wac_deplete p q trx_id lt src t debit credit s = Inr (Some x, s')" "0 < q"
  shows "\<exists>c. line_effect trx_id p lt src (- q) c t s s'"
proof -
  obtain c s0 i s1 ps m where mv: "wac_deplete_mv p q s = Inr (Some c, s0)"
    and ins: "insert_line (new_line trx_id p lt src (- q) c t) s0 = Inr (i, s1)"
    and s': "s' = s1\<lparr>db_posting := db_posting s1 @ ps, db_next_posting := m\<rparr>"
    using assms(1)
    by (auto simp: wac_deplete_def tx_bind_Inr insert_posting_def split: option.splits)
  show ?thesis
    by (rule wac_deplete_mv_ok[OF mv], rule exI[of _ c], rule line_effectI[OF _ _ _ _ _ s'])
      (use ins assms(2) in auto)
qed

lemma fl_receipt_effect:
  assumes "fl_receipt p q c trx_id lt src t s = Inr (x, s')" "0 < q"
  shows "line_effect trx_id p lt src q c t s s'"
proof -
  obtain r i where "insert_line (new_line trx_id p lt src q c t) (put_state r s) = Inr (i, s')"
    "st_pool_id r = p" "st_layer_id r = 0" "st_qty r = fst (agg_of s p) + q"
    "st_value_sum r = snd (agg_of s p) + q * c"
    using assms(1)
    by (fastforce simp: fl_receipt_def fl_receipt_mv_def tx_bind_Inr and_then_Inr
        agg_of_def state_of_def st_key_def split: option.splits dest!: find_key_Some)
  then show ?thesis
    by (intro line_effectI[where ps = "[]" and m = "db_next_posting s'"]) (use assms(2) in auto)
qed

lemma fl_deplete_effect:
  assumes "fl_deplete p q std trx_id lt src t s = Inr (x, s')" "0 < q"
  shows "\<exists>c. line_effect trx_id p lt src (- q) c t s s'"
proof -
  obtain c r i where "insert_line (new_line trx_id p lt src (- q) c t) (put_state r s) = Inr (i, s')"
    "st_pool_id r = p" "st_layer_id r = 0" "st_qty r = fst (agg_of s p) + - q"
    "st_value_sum r = (if fst (agg_of s p) + - q = 0 then 0 else snd (agg_of s p) + - q * c)"
    using assms
    by (fastforce simp: fl_deplete_def fl_deplete_mv_def tx_bind_Inr and_then_Inr Let_def
        agg_of_def state_of_def st_key_def split: option.splits if_splits dest!: find_key_Some)
  then show ?thesis
    by (intro exI[of _ c] line_effectI[where ps = "[]" and m = "db_next_posting s'"])
      (use assms(2) in auto)
qed

section \<open>The weighted-average statements and the core\<close>

definition db_view :: "db \<Rightarrow> i64 \<Rightarrow> i64 \<times> i64 \<times> i64" where
  "db_view s p =
    (case state_of s p 0 of Some r \<Rightarrow> (st_qty r, st_unit_cost r, st_value_sum r) | None \<Rightarrow> (0, 0, 0))"

definition agrees :: "Snapshot \<Rightarrow> db \<Rightarrow> i64 \<Rightarrow> bool" where
  "agrees snap s p \<longleftrightarrow> agg_view snap p = db_view s p"

text \<open>What a plan of one line leaves in the database when its line and posting are inserted.\<close>

definition plan_written :: "i64 \<Rightarrow> timestamp \<Rightarrow> PlanResult \<Rightarrow> db \<Rightarrow> db \<Rightarrow> bool" where
  "plan_written trx_id t res s s' \<longleftrightarrow>
    map (\<lambda>r. r\<lparr>tl_id := 0\<rparr>) (drop (length (db_trx_line s)) (db_trx_line s')) =
      map (line_row_of trx_id t) (trx_lines res) \<and>
    map (\<lambda>r. r\<lparr>po_id := 0\<rparr>) (drop (length (db_posting s)) (db_posting s')) =
      map (\<lambda>d. posting_row_of (db_next_line s + int (post_trx_line_idx d)) d) (posting_lines res)"

lemma state_of_key: "state_of s p l = Some r \<Longrightarrow> st_pool_id r = p \<and> st_layer_id r = l"
  by (auto simp: state_of_def st_key_def dest!: find_key_Some)

lemma state_row_eq:
  "state_of s p l = Some r \<Longrightarrow>
    r\<lparr>st_qty := q, st_unit_cost := c, st_value_sum := v\<rparr> =
      \<lparr>st_pool_id = p, st_layer_id = l, st_qty = q, st_unit_cost = c, st_value_sum = v\<rparr>"
  by (cases r) (auto dest: state_of_key)

lemma sql_banker_div_i64:
  assumes "exact_quot s" "0 < d" "is_i64 n"
  shows "sql_banker_div (db_quot s) n d = Inr (banker_round n d)"
  using assms sql_banker_div_exact[of "db_quot s" n d] banker_div_i64[of d n]
  by (simp add: exact_quot_def)

lemma insert_line_succeeds:
  assumes "period_guard s t = Inr ()" "pool_of s p \<noteq> None" "q \<noteq> 0" "0 \<le> c"
  shows "insert_line (new_line trx_id p (line_type_as_sql l) src q c t) (put_state r s) =
    Inr (db_next_line s, (put_state r s)\<lparr>db_trx_line := db_trx_line s @
      [(new_line trx_id p (line_type_as_sql l) src q c t)\<lparr>tl_id := db_next_line s\<rparr>],
      db_next_line := db_next_line s + 1\<rparr>)"
  using assms by (auto simp: insert_line_def new_line_def)

lemma wac_receipt_mv_core:
  assumes ex: "exact_quot s" and ag: "agrees snap s p" and q: "0 < q" "is_i64 q" "is_i64 c"
    and pos: "0 \<le> agg_qty snap p"
  shows "wac_receipt_mv p q c s =
    (if is_i64 (agg_qty snap p + q) \<and> is_i64 (agg_value_sum snap p + q * c) \<and> is_i64 (q * c)
     then Inr ((), put_state \<lparr>st_pool_id = p, st_layer_id = 0, st_qty = agg_qty snap p + q,
       st_unit_cost = banker_round (agg_value_sum snap p + q * c) (agg_qty snap p + q),
       st_value_sum = agg_value_sum snap p + q * c\<rparr> s)
     else Inl Numeric_out_of_range)"
proof -
  have "sql_banker_div (db_quot s) (q * c) q = Inr c"
    using sql_banker_div_exact[of "db_quot s" "q * c" q] ex q banker_round_mult[of q c]
    by (simp add: exact_quot_def banker_div_def mult.commute[of q c] try_i64_def)
  then show ?thesis
    using ag q pos sql_banker_div_i64[OF ex, of "agg_qty snap p + q" "agg_value_sum snap p + q * c"]
      banker_round_mult[of q c]
    by (auto simp: wac_receipt_mv_def agrees_def db_view_def agg_view_def to_bigint_def mult.commute[of q c]
        state_row_eq split: option.splits)
qed

lemma agrees_put:
  "agrees (put_aggregate snap p q c v) (put_state \<lparr>st_pool_id = p, st_layer_id = 0, st_qty = q,
     st_unit_cost = c, st_value_sum = v\<rparr> s) p"
  by (simp add: agrees_def db_view_def st_key_def)

lemma wac_receipt_core:
  assumes ex: "exact_quot s" and ag: "agrees snap s (req_pool_id l)"
    and l: "0 < req_qty l" "line_i64 l" "0 \<le> req_unit_cost l"
    and pos: "0 \<le> agg_qty snap (req_pool_id l)"
    and acc: "posting_accounts_of snap (req_pool_id l) = Some accts"
    and ins: "period_guard s t = Inr ()" "pool_of s (req_pool_id l) \<noteq> None"
  shows "case aggregate_receipt snap l empty_plan t of
      (Inl _, _) \<Rightarrow> \<not> is_ok (wac_receipt (req_pool_id l) (req_qty l) (req_unit_cost l) trx_id
          (line_type_as_sql (req_line_type l)) (req_source_id l) t
          (fst (pair_for accts (req_line_type l))) (snd (pair_for accts (req_line_type l))) s)
    | (Inr _, snap', res) \<Rightarrow>
        \<exists>s'. wac_receipt (req_pool_id l) (req_qty l) (req_unit_cost l) trx_id
            (line_type_as_sql (req_line_type l)) (req_source_id l) t
            (fst (pair_for accts (req_line_type l))) (snd (pair_for accts (req_line_type l))) s =
              Inr (Some (db_next_line s), s') \<and>
          agrees snap' s' (req_pool_id l) \<and> plan_written trx_id t res s s'"
proof -
  let ?p = "req_pool_id l" let ?q = "req_qty l" let ?c = "req_unit_cost l"
  have mv: "wac_receipt_mv ?p ?q ?c s =
    (if is_i64 (agg_qty snap ?p + ?q) \<and> is_i64 (agg_value_sum snap ?p + ?q * ?c) \<and> is_i64 (?q * ?c)
     then Inr ((), put_state \<lparr>st_pool_id = ?p, st_layer_id = 0, st_qty = agg_qty snap ?p + ?q,
       st_unit_cost = banker_round (agg_value_sum snap ?p + ?q * ?c) (agg_qty snap ?p + ?q),
       st_value_sum = agg_value_sum snap ?p + ?q * ?c\<rparr> s)
     else Inl Numeric_out_of_range)"
    using l by (intro wac_receipt_mv_core[OF ex ag _ _ _ pos]) (auto simp: line_i64_def)
  show ?thesis
  proof (cases "is_i64 (agg_qty snap ?p + ?q) \<and> is_i64 (agg_value_sum snap ?p + ?q * ?c) \<and> is_i64 (?q * ?c)")
    case True
    then have bd: "banker_div (agg_value_sum snap ?p + ?q * ?c) (agg_qty snap ?p + ?q) =
        Some (banker_round (agg_value_sum snap ?p + ?q * ?c) (agg_qty snap ?p + ?q))"
      using pos l(1) by (intro banker_div_i64) auto
    show ?thesis
      using True mv bd l pos acc insert_line_succeeds[OF ins]
      by (auto simp: aggregate_receipt_def wac_receipt_def resolve_posting_accounts_def read_aggregate_eq
          Let_def checked_add_def try_i64_def insert_posting_def plan_written_def empty_plan_def
          line_row_of_def posting_row_of_def new_line_def new_posting_def agrees_def db_view_def st_key_def
          state_of_def put_state_def states.lookup_store push_trx_line_def push_mutation_def
          push_posting_def split: prod.splits)
  next
    case False
    then have "\<not> is_ok (fst (aggregate_receipt snap l empty_plan t))"
      using acc pos l
      by (auto simp: aggregate_receipt_def resolve_posting_accounts_def read_aggregate_eq Let_def
          checked_add_def try_i64_def split: prod.splits option.splits)
    then show ?thesis
      using mv False by (auto simp: wac_receipt_def is_ok_iff split: prod.splits sum.splits)
  qed
qed

lemma put_state_lines [simp]:
  "state_of ((put_state r s)\<lparr>db_trx_line := xs, db_next_line := n, db_posting := ys,
      db_next_posting := m\<rparr>) p l = (if (p, l) = st_key r then Some r else state_of s p l)"
  by (simp add: state_of_def put_state_def states.lookup_store)

lemma wac_deplete_mv_core:
  assumes ex: "exact_quot s" and ag: "agrees snap s p" and q: "0 < q" "is_i64 q"
    and i64: "is_i64 (agg_qty snap p)" "0 \<le> agg_qty snap p"
  shows "wac_deplete_mv p q s =
    (let qty = agg_qty snap p - q; v = agg_value_sum snap p - q * agg_unit_cost snap p in
     if qty < 0 then Inr (None, s)
     else if qty = 0 \<or> is_i64 v
     then Inr (Some (agg_unit_cost snap p),
       put_state \<lparr>st_pool_id = p, st_layer_id = 0, st_qty = qty,
         st_unit_cost = (if 0 < qty then banker_round v qty else agg_unit_cost snap p),
         st_value_sum = (if qty = 0 then 0 else v)\<rparr> s)
     else Inl Numeric_out_of_range)"
proof -
  have "is_i64 (agg_qty snap p - q)"
    using q i64 by (auto simp: i64_defs)
  then show ?thesis
    using ag q state_row_eq[of s p 0]
      sql_banker_div_i64[OF ex, of "agg_qty snap p - q" "agg_value_sum snap p - q * agg_unit_cost snap p"]
    by (auto simp: wac_deplete_mv_def to_bigint_def agrees_def db_view_def agg_view_def Let_def split: option.splits)
qed

lemma wac_deplete_core:
  assumes ex: "exact_quot s" and ag: "agrees snap s (req_pool_id l)"
    and l: "req_qty l < 0" "checked_abs (req_qty l) = Some q"
    and agg: "is_i64 (agg_qty snap (req_pool_id l))" "0 \<le> agg_qty snap (req_pool_id l)"
      "0 \<le> agg_unit_cost snap (req_pool_id l)"
    and acc: "posting_accounts_of snap (req_pool_id l) = Some accts"
    and ins: "period_guard s t = Inr ()" "pool_of s (req_pool_id l) \<noteq> None"
  shows "case aggregate_deplete snap l empty_plan t (agg_unit_cost snap (req_pool_id l)) of
      (Inl _, _) \<Rightarrow> \<forall>i s'. wac_deplete (req_pool_id l) q trx_id
          (line_type_as_sql (req_line_type l)) (req_source_id l) t
          (snd (pair_for accts (req_line_type l))) (fst (pair_for accts (req_line_type l))) s \<noteq>
            Inr (Some i, s')
    | (Inr _, snap', res) \<Rightarrow>
        \<exists>s'. wac_deplete (req_pool_id l) q trx_id
            (line_type_as_sql (req_line_type l)) (req_source_id l) t
            (snd (pair_for accts (req_line_type l))) (fst (pair_for accts (req_line_type l))) s =
              Inr (Some (db_next_line s), s') \<and>
          agrees snap' s' (req_pool_id l) \<and> plan_written trx_id t res s s'"
proof -
  let ?p = "req_pool_id l" let ?c = "agg_unit_cost snap (req_pool_id l)"
  let ?v = "agg_value_sum snap ?p - q * ?c"
  have q: "0 < q" "is_i64 q" "req_qty l = - q"
    using l by (auto simp: checked_abs_def try_i64_def split: if_splits)
  then have abs: "checked_abs (- q) = Some q"
    using l by simp
  note mv = wac_deplete_mv_core[OF ex ag q(1,2) agg(1,2), unfolded Let_def]
  show ?thesis
  proof (cases "q \<le> agg_qty snap ?p \<and> is_i64 (q * ?c) \<and> (q = agg_qty snap ?p \<or> is_i64 ?v)")
    case True
    then have bd: "q < agg_qty snap ?p \<Longrightarrow>
        banker_div ?v (agg_qty snap ?p - q) = Some (banker_round ?v (agg_qty snap ?p - q))"
      by (intro banker_div_i64) auto
    let ?qty = "agg_qty snap ?p - q"
    let ?uc = "if 0 < ?qty then banker_round ?v ?qty else ?c" let ?vs = "if ?qty = 0 then 0 else ?v"
    obtain res where res: "aggregate_deplete snap l empty_plan t ?c =
          (Inr (), put_aggregate snap ?p ?qty ?uc ?vs, res)"
        "trx_lines res = [\<lparr>out_pool_id = ?p, out_qty = - q, out_unit_cost = ?c,
          out_source_trx_line_id = None, out_line_type = req_line_type l,
          out_source_id = req_source_id l\<rparr>]"
        "posting_lines res = [\<lparr>post_trx_line_idx = 0, post_event_type = InventoryDepletion,
          post_amount = q * ?c, post_debit_account = snd (pair_for accts (req_line_type l)),
          post_credit_account = fst (pair_for accts (req_line_type l)), post_posted_at = t\<rparr>]"
      using True bd q(1,3) acc
      by (cases "pair_for accts (req_line_type l)"; cases "agg_qty snap ?p = q")
        (auto simp: aggregate_deplete_def resolve_posting_accounts_def read_aggregate_eq Let_def abs
          checked_sub_def try_i64_def empty_plan_def push_trx_line_def push_mutation_def
          push_posting_def)
    obtain s' where s': "wac_deplete ?p q trx_id (line_type_as_sql (req_line_type l))
          (req_source_id l) t (snd (pair_for accts (req_line_type l)))
          (fst (pair_for accts (req_line_type l))) s = Inr (Some (db_next_line s), s')"
        "db_trx_line s' = db_trx_line s @ [(new_line trx_id ?p (line_type_as_sql (req_line_type l))
          (req_source_id l) (- q) ?c t)\<lparr>tl_id := db_next_line s\<rparr>]"
        "db_posting s' = db_posting s @ [(new_posting (db_next_line s) ''inventory_depletion''
          (q * ?c) (snd (pair_for accts (req_line_type l))) (fst (pair_for accts (req_line_type l))) t)
          \<lparr>po_id := db_next_posting s\<rparr>]"
        "state_of s' ?p 0 = Some \<lparr>st_pool_id = ?p, st_layer_id = 0, st_qty = ?qty,
          st_unit_cost = ?uc, st_value_sum = ?vs\<rparr>"
      using True mv q(1) agg(3) insert_line_succeeds[OF ins, of "- q"]
      by (auto simp: wac_deplete_def to_bigint_def insert_posting_def st_key_def)
    show ?thesis
      using res s' by (simp add: agrees_def db_view_def plan_written_def line_row_of_def posting_row_of_def
          new_line_def new_posting_def)
  next
    case False
    then have "\<not> is_ok (fst (aggregate_deplete snap l empty_plan t ?c))"
      using acc q
      by (auto simp: aggregate_deplete_def resolve_posting_accounts_def read_aggregate_eq Let_def abs
          checked_sub_def try_i64_def split: prod.splits option.splits)
    moreover have "wac_deplete ?p q trx_id lt src t d c s \<noteq> Inr (Some i, s')" for lt src d c i s'
      using mv False q
      by (auto simp: wac_deplete_def to_bigint_def tx_bind_def tx_lift_def tx_return_def
          split: sum.splits if_splits prod.splits)
    ultimately show ?thesis
      by (auto simp: is_ok_iff split: prod.splits sum.splits)
  qed
qed

end
