(* ===== verification/Standard.thy ===== *)
theory Standard
  imports Wac
begin

text \<open>
  The standard-cost method, \<open>ledger-core/src/standard.rs\<close>: lines are recorded at
  the configured standard, and a receipt posts the difference between what was
  paid and the standard to the variance account.
\<close>

definition resolve_standard_cost :: "Snapshot \<Rightarrow> i64 \<Rightarrow> LedgerError + i64" where
  "resolve_standard_cost snap p =
    (case standard_cost_of snap p of
       Some c \<Rightarrow> Inr c
     | None \<Rightarrow>
         (let (sku_id, location_id) =
                (case sku_location_of snap p of Some sl \<Rightarrow> sl | None \<Rightarrow> (0, 0))
          in Inl (MissingStandardCost sku_id location_id)))"

definition std_variance_leg ::
  "TrxLineRequest \<Rightarrow> PostingAccounts \<Rightarrow> i64 \<Rightarrow> nat \<Rightarrow> timestamp \<Rightarrow> (fault + PostingLineRequest list)" where
  "std_variance_leg line accts c_std trx_line_idx posted_at =
    (let p = req_pool_id line;
         credit_account = snd (pair_for accts (req_line_type line));
         delta_unit = req_unit_cost line - c_std
     in if delta_unit = 0 then Inr []
        else
          (case variance_acct accts of
             None \<Rightarrow> Inl (Err (MissingVarianceAccount p))
           | Some variance_account \<Rightarrow>
               (let variance = req_qty line * delta_unit;
                    (var_debit, var_credit, amount) =
                      (if variance > 0 then (variance_account, credit_account, variance)
                       else (credit_account, variance_account, - variance))
                in case try_i64 amount of
                     None \<Rightarrow> Inl (overflow ''std variance on pool '' p)
                   | Some amount64 \<Rightarrow>
                       Inr [\<lparr>post_trx_line_idx = trx_line_idx, post_event_type = Variance,
                             post_amount = amount64, post_debit_account = var_debit,
                             post_credit_account = var_credit, post_posted_at = posted_at\<rparr>])))"

definition std_receipt ::
  "Snapshot \<Rightarrow> TrxLineRequest \<Rightarrow> PlanResult \<Rightarrow> timestamp \<Rightarrow> i64 \<Rightarrow> i64 \<Rightarrow> outcome" where
  "std_receipt snap line res posted_at c_std old_qty =
    (let p = req_pool_id line in
     case resolve_posting_accounts snap p of
       Inl e \<Rightarrow> (Inl (Err e), snap, res)
     | Inr accts \<Rightarrow>
         (let (debit_account, credit_account) = pair_for accts (req_line_type line);
              q = req_qty line
          in case checked_add old_qty q of
               None \<Rightarrow> (Inl (overflow ''std receipt qty on pool '' p), snap, res)
             | Some new_qty \<Rightarrow>
                 (let trx_line_idx = length (trx_lines res);
                      res1 = push_trx_line
                        \<lparr>out_pool_id = p, out_qty = q, out_unit_cost = c_std,
                         out_source_trx_line_id = None, out_line_type = req_line_type line,
                         out_source_id = req_source_id line\<rparr> res
                  in case try_i64 (new_qty * c_std) of
                       None \<Rightarrow> (Inl (overflow ''std receipt value_sum on pool '' p), snap, res1)
                     | Some value_sum \<Rightarrow>
                         (let res2 = push_mutation (UpsertAggregate p new_qty c_std value_sum) res1;
                              snap1 = put_aggregate snap p new_qty c_std value_sum
                          in case try_i64 (q * c_std) of
                               None \<Rightarrow> (Inl (overflow ''std value on pool '' p), snap1, res2)
                             | Some std_value \<Rightarrow>
                                 (let res3 = push_posting
                                        \<lparr>post_trx_line_idx = trx_line_idx,
                                         post_event_type = InventoryReceipt,
                                         post_amount = std_value,
                                         post_debit_account = debit_account,
                                         post_credit_account = credit_account,
                                         post_posted_at = posted_at\<rparr> res2
                                  in case std_variance_leg line accts c_std trx_line_idx posted_at of
                                       Inl e \<Rightarrow> (Inl e, snap1, res3)
                                     | Inr legs \<Rightarrow> (Inr (), snap1, fold push_posting legs res3))))))"

definition std_deplete ::
  "Snapshot \<Rightarrow> TrxLineRequest \<Rightarrow> PlanResult \<Rightarrow> timestamp \<Rightarrow> i64 \<Rightarrow> i64 \<Rightarrow> outcome" where
  "std_deplete snap line res posted_at c_std old_qty =
    (let p = req_pool_id line in
     case resolve_posting_accounts snap p of
       Inl e \<Rightarrow> (Inl (Err e), snap, res)
     | Inr accts \<Rightarrow>
         (let (rcv_debit, rcv_credit) = pair_for accts (req_line_type line);
              (debit_account, credit_account) = (rcv_credit, rcv_debit)
          in case checked_abs (req_qty line) of
               None \<Rightarrow> (Inl (overflow ''std deplete qty.abs() on pool '' p), snap, res)
             | Some qty_to_deplete \<Rightarrow>
                 if old_qty < qty_to_deplete
                 then (Inl (Err (InsufficientInventory p qty_to_deplete old_qty)), snap, res)
                 else
                   (let new_qty = old_qty - qty_to_deplete;
                        trx_line_idx = length (trx_lines res);
                        res1 = push_trx_line
                          \<lparr>out_pool_id = p, out_qty = req_qty line, out_unit_cost = c_std,
                           out_source_trx_line_id = None, out_line_type = req_line_type line,
                           out_source_id = req_source_id line\<rparr> res
                    in case try_i64 (new_qty * c_std) of
                         None \<Rightarrow> (Inl (overflow ''std deplete value_sum on pool '' p), snap, res1)
                       | Some value_sum \<Rightarrow>
                           (let res2 = push_mutation (UpsertAggregate p new_qty c_std value_sum) res1;
                                snap1 = put_aggregate snap p new_qty c_std value_sum
                            in case try_i64 (qty_to_deplete * c_std) of
                                 None \<Rightarrow> (Inl (overflow ''std deplete amount on pool '' p), snap1, res2)
                               | Some amount \<Rightarrow>
                                   (Inr (), snap1, push_posting
                                     \<lparr>post_trx_line_idx = trx_line_idx,
                                      post_event_type = InventoryDepletion,
                                      post_amount = amount,
                                      post_debit_account = debit_account,
                                      post_credit_account = credit_account,
                                      post_posted_at = posted_at\<rparr> res2)))))"

definition apply_std :: step_fun where
  "apply_std snap line res posted_at =
    (case expect_method snap (req_pool_id line) Std of
       Inl e \<Rightarrow> (Inl (Err e), snap, res)
     | Inr _ \<Rightarrow>
         (if req_qty line = 0 then (Inr (), snap, res)
          else
            (case resolve_standard_cost snap (req_pool_id line) of
               Inl e \<Rightarrow> (Inl (Err e), snap, res)
             | Inr c_std \<Rightarrow>
                 (let (old_qty, _, _, _) = read_aggregate snap (req_pool_id line)
                  in if req_qty line > 0
                     then std_receipt snap line res posted_at c_std old_qty
                     else std_deplete snap line res posted_at c_std old_qty))))"

section \<open>Successful calls\<close>

definition std_out :: "TrxLineRequest \<Rightarrow> i64 \<Rightarrow> TrxLineOutput" where
  "std_out line c = (receipt_out line)\<lparr>out_unit_cost := c\<rparr>"

definition main_leg :: "PostingEventType \<Rightarrow> nat \<Rightarrow> i64 \<Rightarrow> i64 \<Rightarrow> i64 \<Rightarrow> timestamp \<Rightarrow> PostingLineRequest" where
  "main_leg ev n a debit credit t =
    \<lparr>post_trx_line_idx = n, post_event_type = ev, post_amount = a,
     post_debit_account = debit, post_credit_account = credit, post_posted_at = t\<rparr>"

lemma fold_push_posting [simp]:
  "trx_lines (fold push_posting legs res) = trx_lines res"
  "pool_state_mutations (fold push_posting legs res) = pool_state_mutations res"
  "posting_lines (fold push_posting legs res) = posting_lines res @ legs"
  by (induction legs arbitrary: res) simp_all

lemma std_receipt_okE:
  assumes "std_receipt s l r t c q = (Inr u, s', r')"
  obtains accts legs where
    "posting_accounts_of s (req_pool_id l) = Some accts"
    "is_i64 (q + req_qty l)" "is_i64 ((q + req_qty l) * c)" "is_i64 (req_qty l * c)"
    "std_variance_leg l accts c (length (trx_lines r)) t = Inr legs"
    "s' = put_aggregate s (req_pool_id l) (q + req_qty l) c ((q + req_qty l) * c)"
    "trx_lines r' = trx_lines r @ [std_out l c]"
    "pool_state_mutations r' = pool_state_mutations r @
       [UpsertAggregate (req_pool_id l) (q + req_qty l) c ((q + req_qty l) * c)]"
    "posting_lines r' = posting_lines r @
       main_leg InventoryReceipt (length (trx_lines r)) (req_qty l * c)
         (fst (pair_for accts (req_line_type l))) (snd (pair_for accts (req_line_type l))) t # legs"
  using assms
  by (auto simp: std_receipt_def Let_def resolve_posting_accounts_def std_out_def receipt_out_def
      main_leg_def split: option.splits prod.splits if_splits sum.splits intro!: that)

lemma std_deplete_okE:
  assumes "std_deplete s l r t c q = (Inr u, s', r')" "req_qty l < 0"
  obtains accts where
    "posting_accounts_of s (req_pool_id l) = Some accts"
    "0 \<le> q + req_qty l" "is_i64 (- req_qty l)" "is_i64 ((q + req_qty l) * c)" "is_i64 (- req_qty l * c)"
    "s' = put_aggregate s (req_pool_id l) (q + req_qty l) c ((q + req_qty l) * c)"
    "trx_lines r' = trx_lines r @ [std_out l c]"
    "pool_state_mutations r' = pool_state_mutations r @
       [UpsertAggregate (req_pool_id l) (q + req_qty l) c ((q + req_qty l) * c)]"
    "posting_lines r' = posting_lines r @
       [main_leg InventoryDepletion (length (trx_lines r)) (- req_qty l * c)
         (snd (pair_for accts (req_line_type l))) (fst (pair_for accts (req_line_type l))) t]"
  using assms
  by (auto simp: std_deplete_def Let_def resolve_posting_accounts_def std_out_def receipt_out_def
      main_leg_def split: option.splits prod.splits if_splits sum.splits intro!: that)

lemma apply_std_cases:
  assumes "apply_std s l r t = (Inr u, s', r')"
  obtains (zero) "req_qty l = 0" "method_of s (req_pool_id l) = Some Std" "s' = s" "r' = r"
  | (receipt) c where "0 < req_qty l" "method_of s (req_pool_id l) = Some Std"
      "standard_cost_of s (req_pool_id l) = Some c"
      "std_receipt s l r t c (agg_qty s (req_pool_id l)) = (Inr u, s', r')"
  | (deplete) c where "req_qty l < 0" "method_of s (req_pool_id l) = Some Std"
      "standard_cost_of s (req_pool_id l) = Some c"
      "std_deplete s l r t c (agg_qty s (req_pool_id l)) = (Inr u, s', r')"
  using assms
  by (auto simp: apply_std_def read_aggregate_eq expect_method_def resolve_standard_cost_def Let_def
      split: sum.splits option.splits if_splits)

lemma std_variance_leg_idx:
  "std_variance_leg l accts c n t = Inr legs \<Longrightarrow> list_all (\<lambda>d. post_trx_line_idx d = n) legs"
  by (auto simp: std_variance_leg_def Let_def split: if_splits option.splits prod.splits)

lemma apply_std_effect:
  assumes ok: "apply_std s l r t = (Inr u, s', r')" and nz: "req_qty l \<noteq> 0"
  obtains c ps where "standard_cost_of s (req_pool_id l) = Some c"
    "s' = put_aggregate s (req_pool_id l) (agg_qty s (req_pool_id l) + req_qty l) c
       ((agg_qty s (req_pool_id l) + req_qty l) * c)"
    "is_i64 ((agg_qty s (req_pool_id l) + req_qty l) * c)"
    "0 < req_qty l \<and> is_i64 (agg_qty s (req_pool_id l) + req_qty l) \<or>
     req_qty l < 0 \<and> 0 \<le> agg_qty s (req_pool_id l) + req_qty l"
    "trx_lines r' = trx_lines r @ [std_out l c]"
    "pool_state_mutations r' = pool_state_mutations r @
       [UpsertAggregate (req_pool_id l) (agg_qty s (req_pool_id l) + req_qty l) c
         ((agg_qty s (req_pool_id l) + req_qty l) * c)]"
    "posting_lines r' = posting_lines r @ ps" "ps \<noteq> []"
    "list_all (\<lambda>d. post_trx_line_idx d = length (trx_lines r)) ps"
  using ok
proof (cases rule: apply_std_cases)
  case (receipt c)
  show ?thesis
    by (rule std_receipt_okE[OF receipt(4)], rule that[of c])
      (use receipt in \<open>auto simp: main_leg_def dest: std_variance_leg_idx\<close>)
next
  case (deplete c)
  show ?thesis
    by (rule std_deplete_okE[OF deplete(4,1)], rule that[of c])
      (use deplete in \<open>auto simp: main_leg_def\<close>)
qed (use nz in simp)

section \<open>The contract holds\<close>

lemma apply_std_no_panic: "apply_std s l r t = (Inl f, s', r') \<Longrightarrow> \<exists>e. f = Err e"
  by (auto simp: apply_std_def std_receipt_def std_deplete_def std_variance_leg_def overflow_def Let_def
      read_aggregate_eq split: sum.splits option.splits prod.splits if_splits)

interpretation std: method_step apply_std Std
proof
  fix s l r t u s' r'
  assume ok: "apply_std s l r t = (Inr u, s', r')"
  show m: "method_of s (req_pool_id l) = Some Std" using ok by (cases rule: apply_std_cases)
  show "s' = s \<and> r' = r" if "req_qty l = 0"
    using ok that by (cases rule: apply_std_cases) auto
  assume nz: "req_qty l \<noteq> 0"
  show "same_config s s'" by (rule apply_std_effect[OF ok nz]) (simp add: same_config_def)
  show "map out_key (trx_lines r') = map out_key (trx_lines r) @ [req_key l]"
    by (rule apply_std_effect[OF ok nz]) (simp add: out_key_def req_key_def std_out_def receipt_out_def)
  show "\<exists>ps. posting_lines r' = posting_lines r @ ps \<and> ps \<noteq> [] \<and>
      list_all (\<lambda>d. post_trx_line_idx d = length (trx_lines r)) ps"
    by (rule apply_std_effect[OF ok nz]) auto
  show "\<exists>ms q c v. pool_state_mutations r' = pool_state_mutations r @ ms @ [UpsertAggregate (req_pool_id l) q c v] \<and>
      list_all (\<lambda>x. \<not> is_upsert x \<and> idx_in (Suc (length (trx_lines r))) x) ms \<and>
      agg_view s' = (agg_view s)(req_pool_id l := (q, c, v))"
    by (rule apply_std_effect[OF ok nz]) (intro exI[of _ "[]"], auto)
  assume wf: "snapshot_wf s"
  show "snapshot_wf s'"
  proof (rule apply_std_effect[OF ok nz])
    let ?q = "agg_qty s (req_pool_id l) + req_qty l"
    fix c
    assume c: "standard_cost_of s (req_pool_id l) = Some c" and
      s': "s' = put_aggregate s (req_pool_id l) ?q c (?q * c)" and v: "is_i64 (?q * c)"
      and d: "0 < req_qty l \<and> is_i64 ?q \<or> req_qty l < 0 \<and> 0 \<le> ?q"
    have "is_i64 c" using wf c by (auto simp: snapshot_wf_def)
    moreover have "is_i64 ?q" "0 \<le> ?q"
      using d is_i64_mono[OF agg_i64(2)[OF wf m], of ?q] agg_i64(1)[OF wf m] by auto
    ultimately show ?thesis unfolding s' using v by (intro put_aggregate_wf[OF wf m]) simp_all
  qed
  show "agg_qty s' (req_pool_id l) = agg_qty s (req_pool_id l) + req_qty l"
    by (rule apply_std_effect[OF ok nz]) simp
qed (rule apply_std_no_panic)

end
