(* ===== verification/Specific.thy ===== *)
theory Specific
  imports Wac
begin

text \<open>
  The specific-identification method, \<open>ledger-core/src/specific.rs\<close>: one unit per
  pool, materialised as a layer by its receipt and deleted by its depletion. A
  receipt does not put its layer into the snapshot (its identifier is not known
  before the line is inserted), so the snapshot only has layers of earlier
  submissions.
\<close>

definition min_layer :: "PoolStateRow list \<Rightarrow> PoolStateRow option" where
  "min_layer rows =
    fold (\<lambda>r best. case best of None \<Rightarrow> Some r
                  | Some b \<Rightarrow> if row_layer_id r < row_layer_id b then Some r else Some b)
      (filter (\<lambda>r. 0 < row_layer_id r) rows) None"

definition specific_receipt :: step_fun where
  "specific_receipt snap line res posted_at =
    (let p = req_pool_id line in
     case resolve_posting_accounts snap p of
       Inl e \<Rightarrow> (Inl (Err e), snap, res)
     | Inr accts \<Rightarrow>
         (let (debit_account, credit_account) = pair_for accts (req_line_type line);
              (old_qty, _, _, _) = read_aggregate snap p
          in if old_qty > 0 then (Inl (Err (SpecificPoolOccupied p old_qty)), snap, res)
             else
               (case checked_add old_qty (req_qty line) of
                  None \<Rightarrow> (Inl (overflow ''specific receipt qty on pool '' p), snap, res)
                | Some new_qty \<Rightarrow>
                    (let trx_line_idx = length (trx_lines res);
                         res1 = push_trx_line
                           \<lparr>out_pool_id = p, out_qty = req_qty line,
                            out_unit_cost = req_unit_cost line, out_source_trx_line_id = None,
                            out_line_type = req_line_type line,
                            out_source_id = req_source_id line\<rparr> res
                     in case try_i64 (req_qty line * req_unit_cost line) of
                          None \<Rightarrow> (Inl (overflow ''specific layer value_sum on pool '' p), snap, res1)
                        | Some layer_value_sum \<Rightarrow>
                            (let res2 = push_mutation (InsertLayer p trx_line_idx (req_qty line)
                                          (req_unit_cost line) layer_value_sum) res1
                             in case try_i64 (new_qty * req_unit_cost line) of
                                  None \<Rightarrow>
                                    (Inl (overflow ''specific receipt value_sum on pool '' p), snap, res2)
                                | Some value_sum \<Rightarrow>
                                    (let res3 = push_mutation (UpsertAggregate p new_qty
                                                  (req_unit_cost line) value_sum) res2;
                                         snap1 = put_aggregate snap p new_qty
                                                   (req_unit_cost line) value_sum
                                     in case try_i64 (req_qty line * req_unit_cost line) of
                                          None \<Rightarrow>
                                            (Inl (overflow ''specific receipt amount on pool '' p), snap1, res3)
                                        | Some amount \<Rightarrow>
                                            (Inr (), snap1, push_posting
                                              \<lparr>post_trx_line_idx = trx_line_idx,
                                               post_event_type = InventoryReceipt,
                                               post_amount = amount,
                                               post_debit_account = debit_account,
                                               post_credit_account = credit_account,
                                               post_posted_at = posted_at\<rparr> res3)))))))"

definition retain_rows :: "Snapshot \<Rightarrow> i64 \<Rightarrow> i64 \<Rightarrow> Snapshot" where
  "retain_rows snap p layer =
    (case pools snap p of
       None \<Rightarrow> snap
     | Some rows \<Rightarrow>
         snap\<lparr>pools := (pools snap)(p \<mapsto> filter (\<lambda>r. row_layer_id r \<noteq> layer) rows)\<rparr>)"

definition specific_deplete :: step_fun where
  "specific_deplete snap line res posted_at =
    (let p = req_pool_id line in
     case resolve_posting_accounts snap p of
       Inl e \<Rightarrow> (Inl (Err e), snap, res)
     | Inr accts \<Rightarrow>
         (let (rcv_debit, rcv_credit) = pair_for accts (req_line_type line);
              (debit_account, credit_account) = (rcv_credit, rcv_debit)
          in case checked_abs (req_qty line) of
               None \<Rightarrow> (Inl (overflow ''specific deplete qty.abs() on pool '' p), snap, res)
             | Some qty_to_deplete \<Rightarrow>
                 (case Option.bind (pools snap p) min_layer of
                    None \<Rightarrow> (Inl (Err (InsufficientInventory p qty_to_deplete 0)), snap, res)
                  | Some layer \<Rightarrow>
                      if row_qty layer < qty_to_deplete
                      then (Inl (Err (InsufficientInventory p qty_to_deplete (row_qty layer))), snap, res)
                      else
                        (let trx_line_idx = length (trx_lines res);
                             res1 = push_trx_line
                               \<lparr>out_pool_id = p, out_qty = req_qty line,
                                out_unit_cost = row_unit_cost layer,
                                out_source_trx_line_id = Some (row_layer_id layer),
                                out_line_type = req_line_type line,
                                out_source_id = req_source_id line\<rparr> res;
                             res2 = push_mutation (DeleteLayer p (row_layer_id layer)) res1;
                             (agg_q, agg_uc, _, _) = read_aggregate snap p;
                             new_agg_qty = max (wrap_i64 (agg_q - qty_to_deplete)) 0
                         in case try_i64 (new_agg_qty * agg_uc) of
                              None \<Rightarrow>
                                (Inl (overflow ''specific deplete value_sum on pool '' p), snap, res2)
                            | Some new_value_sum \<Rightarrow>
                                (let res3 = push_mutation (UpsertAggregate p new_agg_qty agg_uc
                                              new_value_sum) res2;
                                     snap1 = put_aggregate (retain_rows snap p (row_layer_id layer))
                                               p new_agg_qty agg_uc new_value_sum
                                 in case try_i64 (qty_to_deplete * row_unit_cost layer) of
                                      None \<Rightarrow>
                                        (Inl (overflow ''specific deplete amount on pool '' p), snap1, res3)
                                    | Some amount \<Rightarrow>
                                        (Inr (), snap1, push_posting
                                          \<lparr>post_trx_line_idx = trx_line_idx,
                                           post_event_type = InventoryDepletion,
                                           post_amount = amount,
                                           post_debit_account = debit_account,
                                           post_credit_account = credit_account,
                                           post_posted_at = posted_at\<rparr> res3))))))"

definition apply_specific :: step_fun where
  "apply_specific snap line res posted_at =
    (case expect_method snap (req_pool_id line) Specific of
       Inl e \<Rightarrow> (Inl (Err e), snap, res)
     | Inr _ \<Rightarrow>
         (if req_qty line = 0 then (Inr (), snap, res)
          else if req_qty line > 0 then specific_receipt snap line res posted_at
          else specific_deplete snap line res posted_at))"

section \<open>Successful calls\<close>

lemma min_layer_mem:
  assumes "min_layer rows = Some a"
  shows "a \<in> set (layers_of rows)"
proof -
  have *: "fold (\<lambda>r best. case best of None \<Rightarrow> Some r
        | Some b \<Rightarrow> if row_layer_id r < row_layer_id b then Some r else Some b) rs best = Some a
      \<Longrightarrow> a \<in> set rs \<or> best = Some a" for rs best
    by (induction rs arbitrary: best) (fastforce split: option.splits if_splits)+
  show ?thesis
    using *[OF assms[unfolded min_layer_def]] by (simp add: layers_of_def)
qed

lemma specific_receipt_okE:
  assumes "specific_receipt s l r t = (Inr u, s', r')"
  obtains accts where
    "posting_accounts_of s (req_pool_id l) = Some accts" "agg_qty s (req_pool_id l) \<le> 0"
    "is_i64 (agg_qty s (req_pool_id l) + req_qty l)" "is_i64 (req_qty l * req_unit_cost l)"
    "is_i64 ((agg_qty s (req_pool_id l) + req_qty l) * req_unit_cost l)"
    "s' = put_aggregate s (req_pool_id l) (agg_qty s (req_pool_id l) + req_qty l) (req_unit_cost l)
       ((agg_qty s (req_pool_id l) + req_qty l) * req_unit_cost l)"
    "trx_lines r' = trx_lines r @ [receipt_out l]"
    "pool_state_mutations r' = pool_state_mutations r @
       [InsertLayer (req_pool_id l) (length (trx_lines r)) (req_qty l) (req_unit_cost l)
          (req_qty l * req_unit_cost l),
        UpsertAggregate (req_pool_id l) (agg_qty s (req_pool_id l) + req_qty l) (req_unit_cost l)
          ((agg_qty s (req_pool_id l) + req_qty l) * req_unit_cost l)]"
    "posting_lines r' = posting_lines r @
       [\<lparr>post_trx_line_idx = length (trx_lines r), post_event_type = InventoryReceipt,
         post_amount = req_qty l * req_unit_cost l,
         post_debit_account = fst (pair_for accts (req_line_type l)),
         post_credit_account = snd (pair_for accts (req_line_type l)), post_posted_at = t\<rparr>]"
  using assms
  by (auto simp: specific_receipt_def Let_def resolve_posting_accounts_def read_aggregate_eq
      receipt_out_def split: option.splits prod.splits if_splits intro!: that)

lemma specific_deplete_okE:
  assumes "specific_deplete s l r t = (Inr u, s', r')" "req_qty l < 0"
  obtains accts rows layer q v where
    "posting_accounts_of s (req_pool_id l) = Some accts"
    "pools s (req_pool_id l) = Some rows" "min_layer rows = Some layer"
    "- req_qty l \<le> row_qty layer" "is_i64 (- req_qty l)"
    "q = max (wrap_i64 (agg_qty s (req_pool_id l) + req_qty l)) 0"
    "v = q * agg_unit_cost s (req_pool_id l)" "is_i64 v"
    "s' = put_aggregate (retain_rows s (req_pool_id l) (row_layer_id layer)) (req_pool_id l) q
       (agg_unit_cost s (req_pool_id l)) v"
    "trx_lines r' = trx_lines r @ [(receipt_out l)\<lparr>out_unit_cost := row_unit_cost layer,
       out_source_trx_line_id := Some (row_layer_id layer)\<rparr>]"
    "pool_state_mutations r' = pool_state_mutations r @
       [DeleteLayer (req_pool_id l) (row_layer_id layer),
        UpsertAggregate (req_pool_id l) q (agg_unit_cost s (req_pool_id l)) v]"
    "posting_lines r' = posting_lines r @
       [\<lparr>post_trx_line_idx = length (trx_lines r), post_event_type = InventoryDepletion,
         post_amount = - req_qty l * row_unit_cost layer,
         post_debit_account = snd (pair_for accts (req_line_type l)),
         post_credit_account = fst (pair_for accts (req_line_type l)), post_posted_at = t\<rparr>]"
  using assms
  by (auto simp: specific_deplete_def Let_def resolve_posting_accounts_def read_aggregate_eq
      receipt_out_def split: option.splits prod.splits if_splits bind_splits intro!: that)

lemma apply_specific_cases:
  assumes "apply_specific s l r t = (Inr u, s', r')"
  obtains (zero) "req_qty l = 0" "method_of s (req_pool_id l) = Some Specific" "s' = s" "r' = r"
  | (receipt) "0 < req_qty l" "method_of s (req_pool_id l) = Some Specific"
      "specific_receipt s l r t = (Inr u, s', r')"
  | (deplete) "req_qty l < 0" "method_of s (req_pool_id l) = Some Specific"
      "specific_deplete s l r t = (Inr u, s', r')"
  using assms
  by (auto simp: apply_specific_def expect_method_def split: sum.splits option.splits if_splits)

section \<open>Removing the consumed layer\<close>

lemma retain_rows_frame [frame_simps, simp]:
  "method_of (retain_rows s p i) = method_of s"
  "sku_location_of (retain_rows s p i) = sku_location_of s"
  "standard_cost_of (retain_rows s p i) = standard_cost_of s"
  "posting_accounts_of (retain_rows s p i) = posting_accounts_of s"
  by (simp_all add: retain_rows_def split: option.splits)

lemma find_retain:
  "i \<noteq> 0 \<Longrightarrow> find (\<lambda>r. row_layer_id r = 0) (filter (\<lambda>r. row_layer_id r \<noteq> i) rows) =
    find (\<lambda>r. row_layer_id r = 0) rows"
  by (induction rows) auto

lemma agg_view_retain [simp]: "i \<noteq> 0 \<Longrightarrow> agg_view (retain_rows s p i) = agg_view s"
  by (auto simp: agg_view_def agg_qty_def agg_unit_cost_def agg_value_sum_def read_aggregate_def
      aggregate_def retain_rows_def find_retain fun_eq_iff split: option.splits)

lemma specific_layer:
  assumes "snapshot_wf s" "method_of s p = Some Specific" "pools s p = Some rows"
    "min_layer rows = Some layer"
  shows "layers_of rows = [layer]" "0 < row_layer_id layer" "0 < row_qty layer"
    "row_qty layer \<le> agg_qty s p"
proof -
  have mem: "layer \<in> set (layers_of rows)" using assms(4) by (rule min_layer_mem)
  then show "0 < row_layer_id layer" by (simp add: layers_of_def)
  have "pool_wf Specific rows" using assms(1-3) by (rule snapshot_wf_pool)
  then obtain a where a: "find (\<lambda>r. row_layer_id r = 0) rows = Some a"
    "length (layers_of rows) \<le> 1" "0 < row_qty layer" "row_qty layer \<le> row_qty a"
    using mem by (auto simp: pool_wf_def list_all_iff split: option.splits)
  then show "layers_of rows = [layer]" using mem by (cases "layers_of rows") auto
  show "0 < row_qty layer" "row_qty layer \<le> agg_qty s p"
    using a assms(3) by (simp_all add: agg_qty_def read_aggregate_def aggregate_def)
qed

lemma retain_rows_wf:
  assumes "snapshot_wf s" "method_of s p = Some Specific" "pools s p = Some rows"
    "layers_of rows = [layer]" "0 < row_layer_id layer"
  shows "snapshot_wf (retain_rows s p (row_layer_id layer))"
    "pools (retain_rows s p (row_layer_id layer)) p =
      Some (filter (\<lambda>r. row_layer_id r \<noteq> row_layer_id layer) rows)"
    "layers_of (filter (\<lambda>r. row_layer_id r \<noteq> row_layer_id layer) rows) = []"
proof -
  let ?f = "filter (\<lambda>r. row_layer_id r \<noteq> row_layer_id layer)"
  have "layers_of (?f rows) = ?f (layers_of rows)"
    by (simp add: layers_of_def conj_commute)
  then show none: "layers_of (?f rows) = []" using assms(4) by simp
  show "pools (retain_rows s p (row_layer_id layer)) p = Some (?f rows)"
    using assms(3) by (simp add: retain_rows_def)
  have "pool_wf Specific rows" using assms(1-3) by (rule snapshot_wf_pool)
  then have "pool_wf Specific (?f rows)"
    using none assms(5) by (auto simp: pool_wf_def find_retain list_all_iff split: option.splits)
  then show "snapshot_wf (retain_rows s p (row_layer_id layer))"
    using assms(1-3) by (auto simp: snapshot_wf_def retain_rows_def split: if_splits)
qed

section \<open>The contract holds\<close>

lemma apply_specific_no_panic: "apply_specific s l r t = (Inl f, s', r') \<Longrightarrow> \<exists>e. f = Err e"
  by (auto simp: apply_specific_def specific_receipt_def specific_deplete_def overflow_def Let_def
      read_aggregate_eq split: sum.splits option.splits prod.splits if_splits)

text \<open>A depletion in a well-formed pool takes its quantity off the aggregate exactly: the clamp at zero
  and the unchecked subtraction never act.\<close>

lemma specific_deplete_effect:
  assumes ok: "specific_deplete s l r t = (Inr u, s', r')" and neg: "req_qty l < 0"
    and wf: "snapshot_wf s" and m: "method_of s (req_pool_id l) = Some Specific"
  shows "snapshot_wf s'"
    "\<exists>i v. 0 < i \<and> pool_state_mutations r' = pool_state_mutations r @ [DeleteLayer (req_pool_id l) i] @
       [UpsertAggregate (req_pool_id l) (agg_qty s (req_pool_id l) + req_qty l)
          (agg_unit_cost s (req_pool_id l)) v] \<and>
     agg_view s' = (agg_view s)(req_pool_id l :=
       (agg_qty s (req_pool_id l) + req_qty l, agg_unit_cost s (req_pool_id l), v))"
proof -
  let ?p = "req_pool_id l" let ?q = "agg_qty s (req_pool_id l) + req_qty l"
  obtain rows layer q v where d: "pools s ?p = Some rows" "min_layer rows = Some layer"
    "- req_qty l \<le> row_qty layer" "q = max (wrap_i64 ?q) 0" "v = q * agg_unit_cost s ?p" "is_i64 v"
    "s' = put_aggregate (retain_rows s ?p (row_layer_id layer)) ?p q (agg_unit_cost s ?p) v"
    "pool_state_mutations r' = pool_state_mutations r @
       [DeleteLayer ?p (row_layer_id layer), UpsertAggregate ?p q (agg_unit_cost s ?p) v]"
    using ok neg by (rule specific_deplete_okE)
  note lay = specific_layer[OF wf m d(1,2)]
  have q: "0 \<le> ?q" "is_i64 ?q"
    using lay d(3) neg is_i64_mono[OF agg_i64(2)[OF wf m], of ?q] by auto
  then have q_eq: "q = ?q" using d(4) by (simp add: wrap_i64_id)
  note ret = retain_rows_wf[OF wf m d(1) lay(1,2)]
  show "snapshot_wf s'" unfolding d(7)
    by (rule put_aggregate_wf[OF ret(1), of _ Specific])
      (use m q q_eq d(6) ret agg_i64[OF wf m] in auto)
  show "\<exists>i v. 0 < i \<and> pool_state_mutations r' = pool_state_mutations r @ [DeleteLayer ?p i] @
       [UpsertAggregate ?p ?q (agg_unit_cost s ?p) v] \<and>
     agg_view s' = (agg_view s)(?p := (?q, agg_unit_cost s ?p, v))"
    using d(7,8) lay(2) q_eq min_layer_mem[OF d(2)] by auto
qed

lemma specific_receipt_wf:
  assumes ok: "specific_receipt s l r t = (Inr u, s', r')" and pos: "0 < req_qty l"
    and wf: "snapshot_wf s" "line_i64 l" and m: "method_of s (req_pool_id l) = Some Specific"
  shows "snapshot_wf s'"
proof (rule specific_receipt_okE[OF ok])
  let ?p = "req_pool_id l" let ?q = "agg_qty s ?p + req_qty l"
  assume s': "s' = put_aggregate s ?p ?q (req_unit_cost l) (?q * req_unit_cost l)"
    and "agg_qty s ?p \<le> 0" "is_i64 ?q" "is_i64 (?q * req_unit_cost l)"
  moreover from this have "layers_of (case pools s ?p of Some rows \<Rightarrow> rows | None \<Rightarrow> []) = []"
    using agg_qty_le_layers[OF wf(1) m] by (auto simp: layers_of_def split: option.splits)
  ultimately show ?thesis
    using agg_i64(1)[OF wf(1) m] pos wf(2) unfolding s'
    by (intro put_aggregate_wf[OF wf(1) m]) (auto simp: line_i64_def)
qed

interpretation specific: method_step apply_specific Specific
proof
  fix s l r t u s' r'
  assume ok: "apply_specific s l r t = (Inr u, s', r')"
  show m: "method_of s (req_pool_id l) = Some Specific" using ok by (cases rule: apply_specific_cases)
  show "s' = s \<and> r' = r" if "req_qty l = 0"
    using ok that by (cases rule: apply_specific_cases) auto
  assume nz: "req_qty l \<noteq> 0"
  from ok show "same_config s s'"
    by (cases rule: apply_specific_cases)
      (auto simp: same_config_def elim: specific_receipt_okE specific_deplete_okE)
  from ok show "map out_key (trx_lines r') = map out_key (trx_lines r) @ [req_key l]"
    by (cases rule: apply_specific_cases) (use nz in \<open>auto simp: out_key_def req_key_def receipt_out_def
      elim: specific_receipt_okE specific_deplete_okE\<close>)
  from ok show "\<exists>ps. posting_lines r' = posting_lines r @ ps \<and> ps \<noteq> [] \<and>
      list_all (\<lambda>d. post_trx_line_idx d = length (trx_lines r)) ps"
    by (cases rule: apply_specific_cases)
      (use nz in \<open>auto elim: specific_receipt_okE specific_deplete_okE\<close>)
  from ok show "\<exists>ms q c v. pool_state_mutations r' = pool_state_mutations r @ ms @ [UpsertAggregate (req_pool_id l) q c v] \<and>
      list_all (\<lambda>x. \<not> is_upsert x \<and> idx_in (Suc (length (trx_lines r))) x) ms \<and>
      agg_view s' = (agg_view s)(req_pool_id l := (q, c, v))"
  proof (cases rule: apply_specific_cases)
    case receipt
    show ?thesis
      by (rule specific_receipt_okE[OF receipt(3)])
        (intro exI[of _ "[InsertLayer (req_pool_id l) (length (trx_lines r)) (req_qty l) (req_unit_cost l)
          (req_qty l * req_unit_cost l)]"], auto)
  next
    case deplete
    show ?thesis
    proof (rule specific_deplete_okE[OF deplete(3,1)])
      fix rows layer q v
      assume "min_layer rows = Some layer" and s': "s' = put_aggregate
          (retain_rows s (req_pool_id l) (row_layer_id layer)) (req_pool_id l) q
          (agg_unit_cost s (req_pool_id l)) v"
        and ms: "pool_state_mutations r' = pool_state_mutations r @
          [DeleteLayer (req_pool_id l) (row_layer_id layer),
           UpsertAggregate (req_pool_id l) q (agg_unit_cost s (req_pool_id l)) v]"
      then have "0 < row_layer_id layer" by (auto simp: layers_of_def dest!: min_layer_mem)
      then show ?thesis
        by (intro exI[of _ "[DeleteLayer (req_pool_id l) (row_layer_id layer)]"] exI[of _ q]
            exI[of _ "agg_unit_cost s (req_pool_id l)"] exI[of _ v]) (simp add: s' ms)
    qed
  qed (use nz in simp)
  assume wf: "snapshot_wf s" "line_i64 l"
  from ok show "snapshot_wf s'"
    by (cases rule: apply_specific_cases)
      (use nz wf specific_receipt_wf specific_deplete_effect(1) in auto)
  from ok show "agg_qty s' (req_pool_id l) = agg_qty s (req_pool_id l) + req_qty l"
  proof (cases rule: apply_specific_cases)
    case receipt
    show ?thesis by (rule specific_receipt_okE[OF receipt(3)]) simp
  next
    case deplete
    then show ?thesis
      using specific_deplete_effect(2)[OF deplete(3,1) wf(1) m] agg_view_updD by force
  qed (use nz in simp)
qed (rule apply_specific_no_panic)

end
