(* ===== verification/Method.thy ===== *)
theory Method
  imports Standard Specific
begin

text \<open>
  The dispatcher of the hot path, \<open>ledger-core/src/method.rs\<close>, with the fail-loud
  entries of \<open>fifo.rs\<close> and \<open>lifo.rs\<close>. The dispatcher itself meets the contract of a
  costing method, so the facts about the planning loop hold of \<open>plan_apply\<close> for any
  mix of pools and methods.
\<close>

definition apply_fifo :: step_fun where
  "apply_fifo snap line res posted_at =
    (case method_of snap (req_pool_id line) of
       None \<Rightarrow> (Inl (Err (UnknownPool (req_pool_id line))), snap, res)
     | Some got \<Rightarrow> (Inl (Err (MethodMismatch (req_pool_id line) Fifo got)), snap, res))"

definition apply_lifo :: step_fun where
  "apply_lifo snap line res posted_at =
    (case method_of snap (req_pool_id line) of
       None \<Rightarrow> (Inl (Err (UnknownPool (req_pool_id line))), snap, res)
     | Some got \<Rightarrow> (Inl (Err (MethodMismatch (req_pool_id line) Lifo got)), snap, res))"

definition apply_line :: step_fun where
  "apply_line snap line res posted_at =
    (case method_of snap (req_pool_id line) of
       None \<Rightarrow> (Inl (Err (UnknownPool (req_pool_id line))), snap, res)
     | Some Wac \<Rightarrow> apply_wac snap line res posted_at
     | Some Std \<Rightarrow> apply_std snap line res posted_at
     | Some Specific \<Rightarrow> apply_specific snap line res posted_at
     | Some Fifo \<Rightarrow> apply_fifo snap line res posted_at
     | Some Lifo \<Rightarrow> apply_lifo snap line res posted_at)"

definition plan_apply :: "Snapshot \<Rightarrow> TrxLineRequest list \<Rightarrow> timestamp \<Rightarrow> (fault + PlanResult) \<times> Snapshot" where
  "plan_apply snap lines posted_at =
    (case run_lines apply_line posted_at lines snap empty_plan of
       (Inl e, snap', _) \<Rightarrow> (Inl e, snap')
     | (Inr _, snap', res) \<Rightarrow> (Inr res, snap'))"

section \<open>The dispatcher meets the contract\<close>

lemma apply_line_cases:
  assumes "apply_line s l r t = (Inr u, s', r')"
  obtains "apply_wac s l r t = (Inr u, s', r')" | "apply_std s l r t = (Inr u, s', r')"
  | "apply_specific s l r t = (Inr u, s', r')"
  using assms
  by (auto simp: apply_line_def apply_fifo_def apply_lifo_def split: option.splits PoolMethod.splits)

interpretation dispatch: posting_step apply_line
proof
  fix s l r t f s' r'
  assume "apply_line s l r t = (Inl f, s', r')"
  then show "\<exists>e. f = Err e"
    using wac.step_no_panic std.step_no_panic specific.step_no_panic
    by (auto simp: apply_line_def apply_fifo_def apply_lifo_def split: option.splits PoolMethod.splits)
qed (elim apply_line_cases; blast intro: wac.step_config std.step_config specific.step_config
  wac.step_wf std.step_wf specific.step_wf wac.step_qty std.step_qty specific.step_qty
  wac.step_out std.step_out specific.step_out wac.step_posts std.step_posts specific.step_posts
  wac.step_view std.step_view specific.step_view)+

lemma plan_apply_ok:
  "plan_apply snap lines t = (Inr res, snap') \<longleftrightarrow>
    run_lines apply_line t lines snap empty_plan = (Inr (), snap', res)"
  by (auto simp: plan_apply_def split: prod.splits sum.splits)

lemma empty_plan_simps [simp]:
  "trx_lines empty_plan = []" "pool_state_mutations empty_plan = []" "posting_lines empty_plan = []"
  by (simp_all add: empty_plan_def)

section \<open>Receipts into a weighted-average pool\<close>

definition line_value :: "TrxLineRequest \<Rightarrow> int" where
  "line_value l = req_qty l * req_unit_cost l"

definition wac_receipt_line :: "i64 \<Rightarrow> TrxLineRequest \<Rightarrow> bool" where
  "wac_receipt_line p l \<longleftrightarrow>
    req_pool_id l = p \<and> 0 < req_qty l \<and> 0 \<le> req_unit_cost l \<and> line_i64 l \<and> is_i64 (line_value l)"

lemma wac_receipt_step:
  assumes wf: "snapshot_wf s" and m: "method_of s p = Some Wac"
    and acc: "posting_accounts_of s p = Some accts" and l: "wac_receipt_line p l"
    and q: "is_i64 (agg_qty s p + req_qty l)" and v: "is_i64 (agg_value_sum s p + line_value l)"
  shows "\<exists>r'. apply_line s l r t = (Inr (), put_aggregate s p (agg_qty s p + req_qty l)
      (banker_round (agg_value_sum s p + line_value l) (agg_qty s p + req_qty l))
      (agg_value_sum s p + line_value l), r')"
proof -
  have pos: "0 < agg_qty s p + req_qty l"
    using agg_i64(1)[OF wf m] l by (simp add: wac_receipt_line_def)
  have "req_pool_id l = p" "0 < req_qty l" "is_i64 (req_qty l * req_unit_cost l)"
    using l by (simp_all add: wac_receipt_line_def line_value_def)
  then show ?thesis
    using m acc q v pos banker_div_i64[OF pos v]
    by (auto simp: apply_line_def apply_wac_def expect_method_def aggregate_receipt_def Let_def
        resolve_posting_accounts_def read_aggregate_eq checked_add_def try_i64_def line_value_def
        split: prod.splits)
qed

lemma wac_receipts_run:
  assumes "snapshot_wf s" "method_of s p = Some Wac" "posting_accounts_of s p = Some accts"
    "list_all (wac_receipt_line p) ls" "is_i64 (agg_qty s p + sum_list (map req_qty ls))"
    "is_i64 (agg_value_sum s p + sum_list (map line_value ls))"
  shows "\<exists>s' r'. run_lines apply_line t ls s r = (Inr (), s', r') \<and>
    agg_view s' p = (agg_qty s p + sum_list (map req_qty ls),
      (if ls = [] then agg_unit_cost s p
       else banker_round (agg_value_sum s p + sum_list (map line_value ls))
              (agg_qty s p + sum_list (map req_qty ls))),
      agg_value_sum s p + sum_list (map line_value ls))"
  using assms
proof (induction ls arbitrary: s r)
  case (Cons l ls)
  have l: "wac_receipt_line p l" and rest: "list_all (wac_receipt_line p) ls" using Cons.prems by auto
  have nonneg: "0 \<le> req_qty l" "0 \<le> line_value l" "0 \<le> sum_list (map req_qty ls)"
      "0 \<le> sum_list (map line_value ls)"
    using l rest by (auto simp: wac_receipt_line_def line_value_def list_all_iff intro!: sum_list_nonneg_mem)
  note old = agg_i64[OF Cons.prems(1,2)]
  have q: "is_i64 (agg_qty s p + req_qty l)"
    using is_i64_between[OF old(2) Cons.prems(5)] nonneg by simp
  have v: "is_i64 (agg_value_sum s p + line_value l)"
    using is_i64_between[OF old(4) Cons.prems(6)] nonneg by simp
  let ?s1 = "put_aggregate s p (agg_qty s p + req_qty l)
      (banker_round (agg_value_sum s p + line_value l) (agg_qty s p + req_qty l))
      (agg_value_sum s p + line_value l)"
  obtain r1 where st: "apply_line s l r t = (Inr (), ?s1, r1)"
    using wac_receipt_step[OF Cons.prems(1-3) l q v] by blast
  have wf1: "snapshot_wf ?s1"
    using dispatch.step_wf[OF st Cons.prems(1)] l by (simp add: wac_receipt_line_def)
  have "is_i64 (agg_qty ?s1 p + sum_list (map req_qty ls))"
    "is_i64 (agg_value_sum ?s1 p + sum_list (map line_value ls))"
    using Cons.prems(5,6) by (simp_all add: add.assoc)
  from Cons.IH[OF wf1 _ _ rest this, of r1] Cons.prems(2,3) show ?case
    using st by (auto simp: add.assoc)
qed (simp add: agg_view_def)

section \<open>Properties\<close>

text \<open>A configuration for the witnesses: pool 1 is weighted-average with 10 at 100, pool 2 standard
  cost 50 with nothing on hand, pool 3 specific with the unit received by line 7.\<close>

definition demo_accounts :: PostingAccounts where
  "demo_accounts = \<lparr>receipt_pair = (10, 20), transfer_pair = (10, 21), build_pair = (10, 22),
     scrap_pair = (10, 23), adjustment_pair = (10, 24), revaluation_pair = (10, 25),
     variance_acct = Some 30\<rparr>"

definition demo_snapshot :: Snapshot where
  "demo_snapshot = \<lparr>
     pools = [1 \<mapsto> [\<lparr>row_layer_id = 0, row_qty = 10, row_unit_cost = 100, row_value_sum = 1000\<rparr>],
              3 \<mapsto> [\<lparr>row_layer_id = 0, row_qty = 2, row_unit_cost = 5, row_value_sum = 10\<rparr>,
                    \<lparr>row_layer_id = 7, row_qty = 2, row_unit_cost = 5, row_value_sum = 10\<rparr>]],
     method_of = [1 \<mapsto> Wac, 2 \<mapsto> Std, 3 \<mapsto> Specific],
     sku_location_of = [1 \<mapsto> (1, 1), 2 \<mapsto> (2, 1), 3 \<mapsto> (3, 1)],
     standard_cost_of = [2 \<mapsto> 50],
     posting_accounts_of = [1 \<mapsto> demo_accounts, 2 \<mapsto> demo_accounts, 3 \<mapsto> demo_accounts]\<rparr>"

definition demo_line :: "i64 \<Rightarrow> i64 \<Rightarrow> i64 \<Rightarrow> TrxLineRequest" where
  "demo_line p q c = \<lparr>req_pool_id = p, req_line_type = PoReceiptLine, req_source_id = None,
     req_qty = q, req_unit_cost = c\<rparr>"

definition demo_lines :: "TrxLineRequest list" where
  "demo_lines = [demo_line 1 5 103, demo_line 2 4 55, demo_line 1 (- 3) 0, demo_line 3 (- 2) 0]"

lemmas demo_defs = demo_accounts_def demo_snapshot_def demo_line_def demo_lines_def

lemma demo_wf: "snapshot_wf demo_snapshot"
  by (simp add: snapshot_wf_def demo_defs pool_wf_def row_i64_def layers_of_def i64_defs
      banker_round_def)

lemma demo_lines_i64: "list_all line_i64 demo_lines"
  by (simp add: demo_defs line_i64_def i64_defs)

lemma demo_ok: "\<exists>res snap'. plan_apply demo_snapshot demo_lines 0 = (Inr res, snap')"
proof -
  have "is_ok (fst (plan_apply demo_snapshot demo_lines 0))" by code_simp
  then show ?thesis by (auto simp: is_ok_iff prod_eq_iff)
qed

text \<open>
  C6. Planning conserves quantity and keeps the state well formed: when \<open>plan_apply\<close> succeeds, each
  pool's on-hand quantity has moved by exactly the sum of the quantities of its lines, whatever mix
  of weighted-average, standard and specific pools the lines touch, no configured pool is negative,
  and the snapshot invariant (the average is the rounded mean of the exact book value, standard value
  is quantity at cost, one layer per specific pool) holds again.
\<close>
theorem plan_apply_conserves:
  assumes "snapshot_wf snap" "list_all line_i64 lines" "plan_apply snap lines t = (Inr res, snap')"
  shows "snapshot_wf snap' \<and>
    (\<forall>p. agg_qty snap' p = agg_qty snap p + pool_sum p lines) \<and>
    (\<forall>p m. method_of snap p = Some m \<longrightarrow> 0 \<le> agg_qty snap' p)"
proof -
  note run = assms(3)[unfolded plan_apply_ok]
  have wf: "snapshot_wf snap'" using run assms(1,2) by (rule dispatch.run_wf)
  moreover have "method_of snap' = method_of snap"
    using dispatch.run_config[OF run] by (simp add: same_config_def)
  ultimately show ?thesis using dispatch.run_qty[OF run assms(1,2)] agg_i64(1)[OF wf] by auto
qed

theorem plan_apply_conserves_witness:
  "\<exists>res snap'. plan_apply demo_snapshot demo_lines 0 = (Inr res, snap') \<and>
    agg_qty snap' 1 = 12 \<and> agg_qty snap' 2 = 4 \<and> agg_qty snap' 3 = 0"
proof -
  obtain res snap' where eq: "plan_apply demo_snapshot demo_lines 0 = (Inr res, snap')"
    using demo_ok by blast
  have "agg_qty demo_snapshot 1 = 10" "agg_qty demo_snapshot 2 = 0" "agg_qty demo_snapshot 3 = 2"
    "pool_sum 1 demo_lines = 2" "pool_sum 2 demo_lines = 4" "pool_sum 3 demo_lines = - 2"
    by code_simp+
  then show ?thesis using plan_apply_conserves[OF demo_wf demo_lines_i64 eq] eq by auto
qed

text \<open>
  The output of a successful plan is complete and well indexed: the lines to insert are exactly
  the non-zero request lines, in order, with their pool, quantity, type and source, and the postings
  refer to every one of them and to nothing else, so resolving a posting's line index against the
  inserted lines never goes out of range and no line is left without a journal entry.
\<close>
theorem plan_apply_output:
  assumes "plan_apply snap lines t = (Inr res, snap')"
  shows "map out_key (trx_lines res) = map req_key (filter (\<lambda>l. req_qty l \<noteq> 0) lines) \<and>
    set (map post_trx_line_idx (posting_lines res)) = {0 ..< length (trx_lines res)}"
  using dispatch.run_out[OF assms[unfolded plan_apply_ok]]
    dispatch.run_posts[OF assms[unfolded plan_apply_ok]] by simp

theorem plan_apply_output_witness:
  "\<exists>res snap'. plan_apply demo_snapshot demo_lines 0 = (Inr res, snap') \<and>
    length (trx_lines res) = 4 \<and> 3 \<in> set (map post_trx_line_idx (posting_lines res))"
proof -
  obtain res snap' where eq: "plan_apply demo_snapshot demo_lines 0 = (Inr res, snap')"
    using demo_ok by blast
  have out: "map out_key (trx_lines res) = map req_key (filter (\<lambda>l. req_qty l \<noteq> 0) demo_lines)"
    and idx: "set (map post_trx_line_idx (posting_lines res)) = {0 ..< length (trx_lines res)}"
    using plan_apply_output[OF eq] by auto
  have "length (trx_lines res) = 4" using arg_cong[OF out, of length] by (simp add: demo_defs)
  then show ?thesis using eq idx by auto
qed

lemma keep_last_view: "fold agg_effect (keep_last ms) f = fold agg_effect ms f"
proof -
  have over: "p \<in> set (upserted ms) \<Longrightarrow>
      fold agg_effect ms (g(p := x)) = fold agg_effect ms g" for p x ms and g :: "i64 \<Rightarrow> i64 \<times> i64 \<times> i64"
  proof (induction ms arbitrary: g)
    case (Cons m ms)
    show ?case
    proof (cases "\<exists>q c v. m = UpsertAggregate p q c v")
      case True
      then obtain q c v where "m = UpsertAggregate p q c v" by blast
      then show ?thesis by (simp only: fold_simps agg_effect.simps fun_upd_upd)
    next
      case False
      then have mem: "p \<in> set (upserted ms)" using Cons.prems by (cases m) auto
      have "agg_effect m (g(p := x)) = (agg_effect m g)(p := x)"
        using False by (cases m) (auto intro: fun_upd_twist)
      then show ?thesis using Cons.IH[OF mem] by (simp only: fold_simps)
    qed
  qed simp
  show ?thesis by (induction ms arbitrary: f rule: keep_last.induct) (simp_all add: over)
qed

text \<open>
  What a plan tells the database to write is what the planner computed in memory: replaying the
  aggregate upserts of a successful plan over the aggregate rows it started from gives exactly the
  aggregate rows of its final snapshot, and so does replaying only the coalesced ones.
\<close>
theorem plan_apply_mutations:
  assumes "plan_apply snap lines t = (Inr res, snap')"
  shows "fold agg_effect (pool_state_mutations res) (agg_view snap) = agg_view snap' \<and>
    fold agg_effect (pool_state_mutations (coalesce_aggregates res)) (agg_view snap) = agg_view snap'"
  using dispatch.run_view[OF assms[unfolded plan_apply_ok]]
  by (auto simp: coalesce_mutations keep_last_view)

theorem plan_apply_mutations_witness:
  "\<exists>res snap'. plan_apply demo_snapshot demo_lines 0 = (Inr res, snap') \<and>
    agg_view snap' 2 =
      fold agg_effect (pool_state_mutations (coalesce_aggregates res)) (agg_view demo_snapshot) 2"
proof -
  obtain res snap' where eq: "plan_apply demo_snapshot demo_lines 0 = (Inr res, snap')"
    using demo_ok by blast
  then show ?thesis using plan_apply_mutations[OF eq] by auto
qed

text \<open>
  C21. Planning never panics: whatever the snapshot and the lines, \<open>plan_apply\<close> returns a plan or
  one of the enumerated errors. Every division it makes has a positive divisor and a quotient that
  fits.
\<close>
theorem plan_apply_no_panic: "fst (plan_apply snap lines t) \<noteq> Inl (Panic msg)"
proof
  assume "fst (plan_apply snap lines t) = Inl (Panic msg)"
  then obtain s' r' where "run_lines apply_line t lines snap empty_plan = (Inl (Panic msg), s', r')"
    by (auto simp: plan_apply_def split: prod.splits sum.splits)
  then show False using dispatch.run_no_panic by blast
qed

text \<open>
  C22. A weighted-average pool that only takes receipts ends with the exact average, whatever the
  order of the receipts: if the totals fit the integer width, every permutation of the receipt lines
  is planned successfully, and the pool then holds the total quantity, the exact total value and the
  total value divided by the total quantity, rounded once.
\<close>
theorem wac_receipts_order_independent:
  assumes "snapshot_wf snap" "method_of snap p = Some Wac" "posting_accounts_of snap p \<noteq> None"
    "lines \<noteq> []" "list_all (wac_receipt_line p) lines" "mset lines' = mset lines"
    "is_i64 (agg_qty snap p + sum_list (map req_qty lines))"
    "is_i64 (agg_value_sum snap p + sum_list (map line_value lines))"
  shows "\<exists>res snap'. plan_apply snap lines' t = (Inr res, snap') \<and>
    agg_view snap' p = (agg_qty snap p + sum_list (map req_qty lines),
      banker_round (agg_value_sum snap p + sum_list (map line_value lines))
        (agg_qty snap p + sum_list (map req_qty lines)),
      agg_value_sum snap p + sum_list (map line_value lines))"
proof -
  obtain accts where acc: "posting_accounts_of snap p = Some accts" using assms(3) by blast
  have sums: "sum_list (map req_qty lines') = sum_list (map req_qty lines)"
    "sum_list (map line_value lines') = sum_list (map line_value lines)"
    using assms(6) by (auto intro: sum_list_map_perm)
  have "list_all (wac_receipt_line p) lines'" "lines' \<noteq> []"
    using assms(4,5) mset_eq_setD[OF assms(6)] assms(6) by (auto simp: list_all_iff)
  then show ?thesis
    using wac_receipts_run[OF assms(1,2) acc, of lines' t empty_plan] assms(7,8) sums
    by (auto simp: plan_apply_ok)
qed

theorem wac_receipts_order_independent_witness:
  "\<exists>res snap'. plan_apply demo_snapshot [demo_line 1 1 7, demo_line 1 5 103] 0 = (Inr res, snap') \<and>
    agg_view snap' 1 = (16, 95, 1522)"
proof -
  have lines: "list_all (wac_receipt_line 1) [demo_line 1 5 103, demo_line 1 1 7]"
    by (simp add: demo_defs wac_receipt_line_def line_value_def line_i64_def i64_defs)
  have start: "agg_qty demo_snapshot 1 = 10" "agg_value_sum demo_snapshot 1 = 1000" by code_simp+
  have cfg: "method_of demo_snapshot 1 = Some Wac" "posting_accounts_of demo_snapshot 1 \<noteq> None"
    by (simp_all add: demo_snapshot_def)
  have sums: "sum_list (map req_qty [demo_line 1 5 103, demo_line 1 1 7]) = 6"
    "sum_list (map line_value [demo_line 1 5 103, demo_line 1 1 7]) = 522"
    by (simp_all add: demo_line_def line_value_def)
  have "banker_round 1522 16 = 95" by code_simp
  then show ?thesis
    using wac_receipts_order_independent[OF demo_wf cfg _ lines,
        of "[demo_line 1 1 7, demo_line 1 5 103]" 0]
    unfolding start sums by (simp add: i64_defs)
qed

section \<open>Book value and postings of one line\<close>

definition net_debit :: "i64 \<Rightarrow> PostingLineRequest list \<Rightarrow> int" where
  "net_debit a ps =
    sum_list (map (\<lambda>d. (if post_debit_account d = a then post_amount d else 0) -
      (if post_credit_account d = a then post_amount d else 0)) ps)"

lemma std_variance_leg_net:
  assumes "std_variance_leg l accts c n t = Inr legs" "variance_acct accts = Some w"
    "snd (pair_for accts (req_line_type l)) = contra" "contra \<noteq> w"
  shows "net_debit w legs = req_qty l * (req_unit_cost l - c)"
    "net_debit contra legs = - (req_qty l * (req_unit_cost l - c))"
    "i \<noteq> w \<Longrightarrow> i \<noteq> contra \<Longrightarrow> net_debit i legs = 0"
  using assms by (auto simp: std_variance_leg_def net_debit_def Let_def split: if_splits option.splits)

text \<open>
  A standard-cost receipt posts balanced legs: with the inventory, contra and variance accounts
  distinct, the postings of the line debit inventory with the quantity at standard, debit the
  variance account with the quantity times the price difference (a credit when the purchase was
  cheaper than standard), and credit the contra account with exactly what was paid.
\<close>
theorem std_receipt_legs:
  assumes "apply_std s l r t = (Inr u, s', r')" "0 < req_qty l"
    "standard_cost_of s (req_pool_id l) = Some c"
    "posting_accounts_of s (req_pool_id l) = Some accts"
    "pair_for accts (req_line_type l) = (inv_acct, contra)" "variance_acct accts = Some w"
    "distinct [inv_acct, contra, w]"
  shows "\<exists>ps. posting_lines r' = posting_lines r @ ps \<and>
    net_debit inv_acct ps = req_qty l * c \<and>
    net_debit w ps = req_qty l * (req_unit_cost l - c) \<and>
    net_debit contra ps = - (req_qty l * req_unit_cost l)"
  using assms(1)
proof (cases rule: apply_std_cases)
  case (receipt c')
  with assms(3) have [simp]: "c' = c" by simp
  obtain legs where legs: "std_variance_leg l accts c (length (trx_lines r)) t = Inr legs"
    and posts: "posting_lines r' = posting_lines r @
       main_leg InventoryReceipt (length (trx_lines r)) (req_qty l * c) inv_acct contra t # legs"
    using std_receipt_okE[OF receipt(4)] assms(4,5) by (metis fst_conv option.inject snd_conv \<open>c' = c\<close>)
  have "net_debit inv_acct legs = 0" "net_debit w legs = req_qty l * (req_unit_cost l - c)"
    "net_debit contra legs = - (req_qty l * (req_unit_cost l - c))"
    using std_variance_leg_net[OF legs assms(6), of contra] assms(5,7) by auto
  then show ?thesis
    using posts assms(7)
    by (auto simp: net_debit_def main_leg_def algebra_simps)
qed (use assms(2) in simp_all)

theorem std_receipt_legs_witness:
  "\<exists>s' r'. apply_std demo_snapshot (demo_line 2 4 55) empty_plan 0 = (Inr (), s', r') \<and>
    net_debit 10 (posting_lines r') = 200 \<and> net_debit 30 (posting_lines r') = 20 \<and>
    net_debit 20 (posting_lines r') = - 220"
proof -
  have "is_ok (fst (apply_std demo_snapshot (demo_line 2 4 55) empty_plan 0))" by code_simp
  then obtain s' r' where eq: "apply_std demo_snapshot (demo_line 2 4 55) empty_plan 0 = (Inr (), s', r')"
    by (auto simp: is_ok_iff prod_eq_iff)
  show ?thesis
    using std_receipt_legs[OF eq, of 50 demo_accounts 10 20 30] eq by (auto simp: demo_defs)
qed

lemma wac_mean:
  assumes "snapshot_wf s" "method_of s p = Some Wac"
  shows "agg_qty s p = 0 \<or> 2 * \<bar>agg_value_sum s p - agg_unit_cost s p * agg_qty s p\<bar> \<le> agg_qty s p"
  by (rule agg_cases[OF assms])
    (use banker_round_nearest[of "agg_qty s p" "agg_value_sum s p"]
     in \<open>auto simp: nearest_even_def split: if_splits\<close>)

text \<open>
  A weighted-average depletion is posted at the running average, and the book value follows the
  posting: it drops by exactly the posted amount while stock remains. When the depletion empties the
  pool the book value is cleared, and what is cleared beyond the posted amount is only the rounding
  of the average, at most half a minor unit per unit of stock.
\<close>
theorem wac_depletion_book_value:
  assumes "apply_wac s l r t = (Inr u, s', r')" "req_qty l < 0" "snapshot_wf s"
  shows "\<exists>d. posting_lines r' = posting_lines r @ [d] \<and>
    post_amount d = - req_qty l * agg_unit_cost s (req_pool_id l) \<and>
    (if agg_qty s' (req_pool_id l) = 0
     then agg_value_sum s' (req_pool_id l) = 0 \<and>
       2 * \<bar>agg_value_sum s (req_pool_id l) - post_amount d\<bar> \<le> agg_qty s (req_pool_id l)
     else agg_value_sum s' (req_pool_id l) = agg_value_sum s (req_pool_id l) - post_amount d)"
  using assms(1)
proof (cases rule: apply_wac_cases)
  case deplete
  let ?p = "req_pool_id l"
  have residue: "2 * \<bar>agg_value_sum s ?p - (- req_qty l * agg_unit_cost s ?p)\<bar> \<le> agg_qty s ?p"
    if "agg_qty s ?p + req_qty l = 0"
  proof -
    have "- req_qty l = agg_qty s ?p" using that by simp
    then show ?thesis
      using wac_mean[OF assms(3) deplete(2)] assms(2) by (simp add: mult.commute)
  qed
  show ?thesis
    by (rule aggregate_deplete_okE[OF deplete(3,1)]) (use residue in simp)
qed (use assms(2) in simp_all)

theorem wac_depletion_book_value_witness:
  "\<exists>s' r'. apply_wac demo_snapshot (demo_line 1 (- 3) 0) empty_plan 0 = (Inr (), s', r') \<and>
    agg_value_sum s' 1 = 700"
proof -
  have "is_ok (fst (apply_wac demo_snapshot (demo_line 1 (- 3) 0) empty_plan 0)) \<and>
      agg_qty (fst (snd (apply_wac demo_snapshot (demo_line 1 (- 3) 0) empty_plan 0))) 1 = 7"
    by code_simp
  then obtain s' r' where eq: "apply_wac demo_snapshot (demo_line 1 (- 3) 0) empty_plan 0 = (Inr (), s', r')"
    and "agg_qty s' 1 = 7"
    by (cases "apply_wac demo_snapshot (demo_line 1 (- 3) 0) empty_plan 0") (auto simp: is_ok_iff)
  moreover have "agg_unit_cost demo_snapshot 1 = 100" "agg_value_sum demo_snapshot 1 = 1000"
    by code_simp+
  ultimately show ?thesis
    using wac_depletion_book_value[OF eq _ demo_wf] by (auto simp: demo_line_def)
qed

section \<open>The quantity gate\<close>

text \<open>
  The synchronous quantity gate is exact: for a depletion line of a weighted-average or
  standard-cost pool with its configuration present, the planner reports insufficient inventory if
  and only if the quantity asked for exceeds the quantity on hand, it names the two quantities, and
  it then has changed neither the snapshot nor the plan.
\<close>
theorem depletion_gate:
  assumes "method_of s p = Some Wac \<or> (method_of s p = Some Std \<and> standard_cost_of s p = Some c)"
    "posting_accounts_of s p = Some accts" "req_pool_id l = p" "req_qty l < 0" "is_i64 (- req_qty l)"
  shows "(fst (apply_line s l r t) = Inl (Err (InsufficientInventory p (- req_qty l) (agg_qty s p))) \<longleftrightarrow>
      agg_qty s p < - req_qty l) \<and>
    (agg_qty s p < - req_qty l \<longrightarrow> snd (apply_line s l r t) = (s, r))"
proof -
  obtain d k where pair: "pair_for accts (req_line_type l) = (d, k)" by fastforce
  have "checked_abs (req_qty l) = Some (- req_qty l)" using assms(4,5) by simp
  note defs = apply_line_def apply_wac_def apply_std_def aggregate_deplete_def std_deplete_def
    expect_method_def resolve_posting_accounts_def resolve_standard_cost_def read_aggregate_eq
    overflow_def Let_def pair this
  have "fst (apply_line s l r t) = Inl (Err (InsufficientInventory p (- req_qty l) (agg_qty s p))) \<longleftrightarrow>
      agg_qty s p < - req_qty l"
    using assms by (elim disjE) (auto simp: defs split: option.splits)
  moreover have "snd (apply_line s l r t) = (s, r)" if "agg_qty s p < - req_qty l"
    using assms that by (elim disjE) (auto simp: defs)
  ultimately show ?thesis by blast
qed

theorem depletion_gate_witness:
  "fst (apply_line demo_snapshot (demo_line 1 (- 11) 0) empty_plan 0) =
    Inl (Err (InsufficientInventory 1 11 10))"
proof -
  have "agg_qty demo_snapshot 1 = 10" by code_simp
  then show ?thesis
    using depletion_gate[of demo_snapshot 1 0 demo_accounts "demo_line 1 (- 11) 0" empty_plan 0]
    by (simp add: demo_defs i64_defs)
qed

section \<open>Partial depletion of a specific pool\<close>

lemma min_layer_none: "layers_of rows = [] \<Longrightarrow> min_layer rows = None"
  by (simp add: min_layer_def layers_of_def)

lemma layers_put_row [simp]: "layers_of (put_row q c v rows) = layers_of rows"
  by (simp add: layers_of_def)

text \<open>
  A partial depletion strands a specific pool. The planner accepts a depletion of less than the
  unit's quantity, deletes the whole layer and keeps the rest of the quantity on the aggregate row.
  From then on the pool can neither be depleted (no layer is found, so the available quantity is
  reported as 0) nor received into (the aggregate says it is occupied).
\<close>
theorem specific_partial_depletion_strands:
  assumes "snapshot_wf s" "method_of s p = Some Specific" "posting_accounts_of s p = Some accts"
    "req_pool_id l = p" "req_qty l < 0" "0 < agg_qty s p + req_qty l"
    "apply_specific s l r t = (Inr u, s', r')"
    "req_pool_id l' = p" "is_i64 (- req_qty l')"
  shows "0 < agg_qty s' p \<and>
    (if req_qty l' < 0
     then apply_specific s' l' r2 t2 = (Inl (Err (InsufficientInventory p (- req_qty l') 0)), s', r2)
     else req_qty l' > 0 \<longrightarrow>
       apply_specific s' l' r2 t2 = (Inl (Err (SpecificPoolOccupied p (agg_qty s' p))), s', r2))"
proof -
  have ok: "specific_deplete s l r t = (Inr u, s', r')"
    using assms(7) by (cases rule: apply_specific_cases) (use assms(5) in auto)
  obtain v where view: "agg_view s' = (agg_view s)(p := (agg_qty s p + req_qty l, agg_unit_cost s p, v))"
    using specific_deplete_effect(2)[OF ok assms(5,1)] assms(2,4) by auto
  have q: "agg_qty s' p = agg_qty s p + req_qty l" using agg_view_updD[OF view] by simp
  have cfg: "same_config s s'" using assms(7) by (rule specific.step_config)
  obtain rows layer q' v' where d: "pools s p = Some rows" "min_layer rows = Some layer"
    "s' = put_aggregate (retain_rows s p (row_layer_id layer)) p q' (agg_unit_cost s p) v'"
    using specific_deplete_okE[OF ok assms(5)] assms(4) by metis
  note ret = retain_rows_wf[OF assms(1,2) d(1)] specific_layer[OF assms(1,2) d(1,2)]
  have "Option.bind (pools s' p) min_layer = None"
    using ret d(3) by (simp add: put_aggregate_def Let_def min_layer_none)
  then show ?thesis
    using q cfg assms
    by (auto simp: apply_specific_def specific_deplete_def specific_receipt_def expect_method_def
        resolve_posting_accounts_def read_aggregate_eq same_config_def checked_abs_def try_i64_def
        Let_def split: prod.splits)
qed

theorem specific_partial_depletion_strands_witness:
  "\<exists>s' r'. apply_specific demo_snapshot (demo_line 3 (- 1) 0) empty_plan 0 = (Inr (), s', r') \<and>
    apply_specific s' (demo_line 3 (- 1) 0) empty_plan 0 =
      (Inl (Err (InsufficientInventory 3 1 0)), s', empty_plan)"
proof -
  have "is_ok (fst (apply_specific demo_snapshot (demo_line 3 (- 1) 0) empty_plan 0))" by code_simp
  then obtain s' r' where
    eq: "apply_specific demo_snapshot (demo_line 3 (- 1) 0) empty_plan 0 = (Inr (), s', r')"
    by (cases "apply_specific demo_snapshot (demo_line 3 (- 1) 0) empty_plan 0") (auto simp: is_ok_iff)
  have "agg_qty demo_snapshot 3 = 2" by code_simp
  then show ?thesis
    using specific_partial_depletion_strands[OF demo_wf, of 3 demo_accounts "demo_line 3 (- 1) 0"
        empty_plan 0 "()" s' r' "demo_line 3 (- 1) 0" empty_plan 0] eq
    by (simp add: demo_defs i64_defs)
qed

end
