(* ===== verification/BulkWrite.thy ===== *)
theory BulkWrite
  imports Cte Method
begin

text \<open>
  The write side of the ledger-core path, \<open>ledger-spi-common/src/bulk_write.rs\<close>: the lines of
  a plan are inserted in order, its \<open>pool_state\<close> mutations are applied in three batches, and its
  postings follow, resolved against the inserted line ids. The upsert batch is one
  \<open>INSERT .. ON CONFLICT DO UPDATE\<close>, which the server refuses if it would touch a row twice.
\<close>

section \<open>Definitions\<close>

fun tx_map :: "('a \<Rightarrow> 'b tx) \<Rightarrow> 'a list \<Rightarrow> 'b list tx" where
  "tx_map f [] = tx_return []"
| "tx_map f (x # xs) = tx_bind (f x) (\<lambda>y. tx_bind (tx_map f xs) (\<lambda>ys. tx_return (y # ys)))"

definition insert_trx_lines :: "i64 \<Rightarrow> timestamp \<Rightarrow> TrxLineOutput list \<Rightarrow> i64 list tx" where
  "insert_trx_lines trx_id posted_at outputs =
    (if outputs = [] then tx_return []
     else tx_bind (tx_map (\<lambda>l. insert_line (line_row_of trx_id posted_at l)) outputs) (\<lambda>ids.
       tx_return (sort ids)))"

definition index_ids :: "i64 list \<Rightarrow> nat \<Rightarrow> i64 tx" where
  "index_ids ids i = (if i < length ids then tx_return (ids ! i) else tx_fail (Rust_panic ''index out of bounds''))"

text \<open>The three batches a mutation list is split into.\<close>

fun upsert_rows :: "PoolStateMutation list \<Rightarrow> state_row list" where
  "upsert_rows [] = []"
| "upsert_rows (UpsertAggregate p q c v # ms) =
    \<lparr>st_pool_id = p, st_layer_id = 0, st_qty = q, st_unit_cost = c, st_value_sum = v\<rparr> # upsert_rows ms"
| "upsert_rows (_ # ms) = upsert_rows ms"

fun layer_rows :: "i64 list \<Rightarrow> PoolStateMutation list \<Rightarrow> state_row list tx" where
  "layer_rows ids [] = tx_return []"
| "layer_rows ids (InsertLayer p i q c v # ms) =
    tx_bind (index_ids ids i) (\<lambda>l. tx_bind (layer_rows ids ms) (\<lambda>rs. tx_return
      (\<lparr>st_pool_id = p, st_layer_id = l, st_qty = q, st_unit_cost = c, st_value_sum = v\<rparr> # rs)))"
| "layer_rows ids (_ # ms) = layer_rows ids ms"

fun delete_keys :: "PoolStateMutation list \<Rightarrow> (i64 \<times> i64) list" where
  "delete_keys [] = []"
| "delete_keys (DeleteLayer p l # ms) = (p, l) # delete_keys ms"
| "delete_keys (_ # ms) = delete_keys ms"

definition upsert_aggregates :: "state_row list \<Rightarrow> unit tx" where
  "upsert_aggregates rows s =
    (if distinct (map st_key rows) then Inr ((), fold put_state rows s) else Inl Cardinality_violation)"

definition insert_layer :: "state_row \<Rightarrow> unit tx" where
  "insert_layer r s =
    (if state_of s (st_pool_id r) (st_layer_id r) \<noteq> None then Inl (Unique_violation ''pool_state_pkey'')
     else Inr ((), s\<lparr>db_pool_state := db_pool_state s @ [r]\<rparr>))"

definition delete_layers :: "(i64 \<times> i64) list \<Rightarrow> unit tx" where
  "delete_layers ks s =
    Inr ((), s\<lparr>db_pool_state := filter (\<lambda>r. st_key r \<notin> set ks) (db_pool_state s)\<rparr>)"

definition apply_pool_state_mutations :: "PoolStateMutation list \<Rightarrow> i64 list \<Rightarrow> unit tx" where
  "apply_pool_state_mutations mutations trx_line_ids =
    tx_bind (layer_rows trx_line_ids mutations) (\<lambda>ins.
    tx_bind (upsert_aggregates (upsert_rows mutations)) (\<lambda>_.
    tx_bind (tx_iter insert_layer ins) (\<lambda>_.
    delete_layers (delete_keys mutations))))"

definition insert_posting_for :: "i64 \<times> PostingLineRequest \<Rightarrow> unit tx" where
  "insert_posting_for x =
    (case x of (l, d) \<Rightarrow> tx_bind (insert_posting (posting_row_of l d)) (\<lambda>_. tx_return ()))"

definition insert_posting_lines :: "PostingLineRequest list \<Rightarrow> i64 list \<Rightarrow> unit tx" where
  "insert_posting_lines requests trx_line_ids =
    tx_bind (tx_map (\<lambda>d. index_ids trx_line_ids (post_trx_line_idx d)) requests) (\<lambda>tl_id.
    tx_iter insert_posting_for (zip tl_id requests))"

definition apply_plan_result :: "i64 \<Rightarrow> timestamp \<Rightarrow> PlanResult \<Rightarrow> unit tx" where
  "apply_plan_result trx_id posted_at plan =
    tx_bind (insert_trx_lines trx_id posted_at (trx_lines plan)) (\<lambda>trx_line_ids.
    tx_bind (apply_pool_state_mutations (pool_state_mutations plan) trx_line_ids) (\<lambda>_.
    insert_posting_lines (posting_lines plan) trx_line_ids))"

section \<open>Lines\<close>

lemma tx_map_insert_lines:
  "tx_map (\<lambda>l. insert_line (g l)) ls s = Inr (ids, s') \<Longrightarrow>
    ids = map (\<lambda>i. db_next_line s + int i) [0 ..< length ls] \<and>
    s' = s\<lparr>db_trx_line := db_trx_line s @ map2 (\<lambda>l i. (g l)\<lparr>tl_id := i\<rparr>) ls ids,
      db_next_line := db_next_line s + int (length ls)\<rparr>"
proof (induction ls arbitrary: s ids)
  case (Cons l ls)
  obtain i s1 ids' where i: "insert_line (g l) s = Inr (i, s1)"
    and rest: "tx_map (\<lambda>l. insert_line (g l)) ls s1 = Inr (ids', s')" and ids: "ids = i # ids'"
    using Cons.prems by (auto simp: tx_bind_Inr)
  note a = insert_line_ok(1,2)[OF i] note b = Cons.IH[OF rest]
  have "ids = map (\<lambda>j. db_next_line s + int j) (0 # map Suc [0 ..< length ls])"
    using a b ids by (simp add: algebra_simps)
  then show ?case using a b ids by (simp add: upt_conv_Cons map_Suc_upt del: upt_Suc)
qed simp

lemma insert_trx_lines_ok:
  assumes "insert_trx_lines trx_id t ls s = Inr (ids, s')"
  shows "ids = map (\<lambda>i. db_next_line s + int i) [0 ..< length ls]"
    "s' = s\<lparr>db_trx_line := db_trx_line s @
        map2 (\<lambda>l i. (line_row_of trx_id t l)\<lparr>tl_id := i\<rparr>) ls ids,
      db_next_line := db_next_line s + int (length ls)\<rparr>"
proof -
  have "sorted (map (\<lambda>i. db_next_line s + int i) [0 ..< n])" for n
    by (auto simp: sorted_iff_nth_mono)
  then show "ids = map (\<lambda>i. db_next_line s + int i) [0 ..< length ls]"
    "s' = s\<lparr>db_trx_line := db_trx_line s @
        map2 (\<lambda>l i. (line_row_of trx_id t l)\<lparr>tl_id := i\<rparr>) ls ids,
      db_next_line := db_next_line s + int (length ls)\<rparr>"
    using assms tx_map_insert_lines[of "line_row_of trx_id t" ls s]
    by (auto simp: insert_trx_lines_def tx_bind_Inr sorted_sort_id split: if_splits)
qed

section \<open>Mutations\<close>

lemma find_key_append:
  "find_key key (xs @ ys) k = (case find_key key xs k of Some r \<Rightarrow> Some r | None \<Rightarrow> find_key key ys k)"
  unfolding find_key_def by (induction xs) auto

lemma find_key_filter:
  "k \<notin> ks \<Longrightarrow> find_key key (filter (\<lambda>r. key r \<notin> ks) rows) k = find_key key rows k"
  unfolding find_key_def by (induction rows) auto

lemma index_ids_Inr [simp]:
  "index_ids ids i s = Inr (x, s') \<longleftrightarrow> i < length ids \<and> x = ids ! i \<and> s' = s"
  by (auto simp: index_ids_def)

lemma layer_rows_ok:
  "layer_rows ids ms s = Inr (rs, s') \<Longrightarrow> s' = s \<and> st_layer_id ` set rs \<subseteq> set ids"
proof (induction ids ms arbitrary: rs rule: layer_rows.induct)
  case (2 ids p i q c v ms)
  then show ?case by (fastforce simp: tx_bind_Inr)
qed auto

lemma layer_rows_total:
  "list_all (idx_in (length ids)) ms \<Longrightarrow> \<exists>rs. layer_rows ids ms s = Inr (rs, s)"
  by (induction ids ms rule: layer_rows.induct) (auto simp: index_ids_def)

lemma map_upsert_rows: "map st_key (upsert_rows ms) = map (\<lambda>p. (p, 0)) (upserted ms)"
  by (induction ms rule: upsert_rows.induct) (auto simp: st_key_def)

lemma delete_keys_nz: "list_all (idx_in n) ms \<Longrightarrow> (p, 0) \<notin> set (delete_keys ms)"
  by (induction ms rule: delete_keys.induct) auto

lemma db_view_put_state:
  "db_view (put_state r s) =
    (if st_layer_id r = 0
     then (db_view s)(st_pool_id r := (st_qty r, st_unit_cost r, st_value_sum r)) else db_view s)"
  by (auto simp: db_view_def st_key_def fun_eq_iff)

lemma db_view_upserts: "db_view (fold put_state (upsert_rows ms) s) = fold agg_effect ms (db_view s)"
  by (induction ms arbitrary: s rule: upsert_rows.induct) (simp_all add: db_view_put_state)

lemma insert_layers_ok:
  assumes "tx_iter insert_layer rs s = Inr (u, s')" "0 \<notin> st_layer_id ` set rs"
  shows "db_view s' = db_view s \<and> s' = s\<lparr>db_pool_state := db_pool_state s @ rs\<rparr>"
  using assms
proof (induction rs arbitrary: s)
  case (Cons r rs)
  then obtain s1 where "insert_layer r s = Inr ((), s1)" "tx_iter insert_layer rs s1 = Inr (u, s')"
    by (auto simp: tx_bind_Inr)
  moreover from this have s1: "s1 = s\<lparr>db_pool_state := db_pool_state s @ [r]\<rparr>"
    by (auto simp: insert_layer_def split: if_splits)
  then have "db_view s1 = db_view s"
    using Cons.prems by (auto simp: db_view_def state_of_def find_key_append st_key_def fun_eq_iff
        dest!: find_key_Some split: option.splits)
  ultimately show ?case
    using Cons.IH[of s1] Cons.prems(2) s1 by auto
qed auto

lemma delete_layers_view: "delete_layers ks s = Inr (u, s') \<Longrightarrow> \<forall>p. (p, 0) \<notin> set ks \<Longrightarrow> db_view s' = db_view s"
  by (auto simp: delete_layers_def db_view_def state_of_def find_key_filter fun_eq_iff)

text \<open>A successful batch of mutations leaves the aggregate rows that replaying the upserts in order
  gives, and touches only \<open>pool_state\<close>.\<close>

lemma apply_pool_state_mutations_ok:
  assumes ok: "apply_pool_state_mutations ms ids s = Inr (u, s')"
    and ms: "list_all (idx_in n) ms" and ids: "0 \<notin> set ids"
  shows "db_view s' = fold agg_effect ms (db_view s)" "distinct (upserted ms)"
    "\<exists>rows. s' = s\<lparr>db_pool_state := rows\<rparr>"
proof -
  obtain rs s1 s2 where rs: "layer_rows ids ms s = Inr (rs, s)"
    and up: "upsert_aggregates (upsert_rows ms) s = Inr ((), s1)"
    and ins: "tx_iter insert_layer rs s1 = Inr ((), s2)"
    and del: "delete_layers (delete_keys ms) s2 = Inr (u, s')"
    using ok by (auto simp: apply_pool_state_mutations_def tx_bind_Inr dest: layer_rows_ok)
  have "0 \<notin> st_layer_id ` set rs" using layer_rows_ok[OF rs] ids by auto
  note ins = insert_layers_ok[OF ins this]
  have s1: "s1 = fold put_state (upsert_rows ms) s" "distinct (map st_key (upsert_rows ms))"
    using up by (auto simp: upsert_aggregates_def split: if_splits)
  show "distinct (upserted ms)" using s1(2) by (simp add: map_upsert_rows distinct_map)
  show "db_view s' = fold agg_effect ms (db_view s)"
    using delete_layers_view[OF del] delete_keys_nz[OF ms] conjunct1[OF ins] s1(1)
    by (simp add: db_view_upserts)
  have "fold put_state xs s = s\<lparr>db_pool_state := fold (put_key st_key) xs (db_pool_state s)\<rparr>" for xs
    by (induction xs arbitrary: s) (simp_all add: put_state_def)
  then show "\<exists>rows. s' = s\<lparr>db_pool_state := rows\<rparr>"
    using s1(1) ins del by (auto simp: delete_layers_def)
qed

section \<open>A whole plan\<close>

lemma tx_map_index:
  "tx_map (\<lambda>d. index_ids ids (f d)) ds s = Inr (xs, s') \<Longrightarrow>
    xs = map (\<lambda>d. ids ! f d) ds \<and> s' = s \<and> list_all (\<lambda>d. f d < length ids) ds"
  by (induction ds arbitrary: xs) (auto simp: tx_bind_Inr)

lemma insert_posting_for_eq:
  "insert_posting_for (l, d) s = Inr ((), s\<lparr>db_posting := db_posting s @
    [(posting_row_of l d)\<lparr>po_id := db_next_posting s\<rparr>], db_next_posting := db_next_posting s + 1\<rparr>)"
  by (simp add: insert_posting_for_def insert_posting_def)

lemma insert_posting_lines_ok:
  assumes "insert_posting_lines ds ids s = Inr (u, s')"
  shows "\<exists>ps n. s' = s\<lparr>db_posting := db_posting s @ ps, db_next_posting := n\<rparr> \<and>
    map (\<lambda>r. r\<lparr>po_id := 0\<rparr>) ps = map (\<lambda>d. posting_row_of (ids ! post_trx_line_idx d) d) ds \<and>
    list_all (\<lambda>d. post_trx_line_idx d < length ids) ds"
proof -
  have iter: "tx_iter insert_posting_for xs s = Inr (u, s') \<Longrightarrow>
      \<exists>ps n. s' = s\<lparr>db_posting := db_posting s @ ps, db_next_posting := n\<rparr> \<and>
        map (\<lambda>r. r\<lparr>po_id := 0\<rparr>) ps = map (\<lambda>(l, d). posting_row_of l d) xs" for xs s
  proof (induction xs arbitrary: s)
    case Nil
    then show ?case by (auto intro!: exI[of _ "db_next_posting s"])
  next
    case (Cons x xs)
    obtain l d where x: "x = (l, d)" by fastforce
    let ?r = "(posting_row_of l d)\<lparr>po_id := db_next_posting s\<rparr>"
    let ?s1 = "s\<lparr>db_posting := db_posting s @ [?r], db_next_posting := db_next_posting s + 1\<rparr>"
    have "tx_iter insert_posting_for xs ?s1 = Inr (u, s')"
      using Cons.prems by (simp add: x tx_bind_Inr insert_posting_for_eq)
    then obtain ps n where "s' = ?s1\<lparr>db_posting := db_posting ?s1 @ ps, db_next_posting := n\<rparr>"
      "map (\<lambda>r. r\<lparr>po_id := 0\<rparr>) ps = map (\<lambda>(l, d). posting_row_of l d) xs"
      using Cons.IH by blast
    then show ?case
      by (intro exI[of _ "?r # ps"] exI[of _ n]) (simp add: x posting_row_of_def)
  qed
  obtain xs where xs: "xs = map (\<lambda>d. ids ! post_trx_line_idx d) ds" "tx_iter insert_posting_for (zip xs ds) s = Inr (u, s')"
      "list_all (\<lambda>d. post_trx_line_idx d < length ids) ds"
    using assms by (auto simp: insert_posting_lines_def tx_bind_Inr dest!: tx_map_index)
  have "map (\<lambda>(l, d). posting_row_of l d) (zip xs ds) =
      map (\<lambda>d. posting_row_of (ids ! post_trx_line_idx d) d) ds"
    unfolding xs(1) by (induction ds) auto
  then show ?thesis using iter[OF xs(2)] xs(3) by simp
qed

lemma apply_plan_result_ok:
  assumes ok: "apply_plan_result trx_id t plan s = Inr (u, s')"
    and ms: "list_all (idx_in n) (pool_state_mutations plan)" and pos: "0 < db_next_line s"
  shows "db_view s' = fold agg_effect (pool_state_mutations plan) (db_view s)"
    "distinct (upserted (pool_state_mutations plan))" "plan_written trx_id t plan s s'"
    "\<exists>ls rows ps k m. s' = s\<lparr>db_trx_line := db_trx_line s @ ls, db_pool_state := rows,
      db_posting := db_posting s @ ps, db_next_line := k, db_next_posting := m\<rparr> \<and> db_next_line s \<le> k"
proof -
  obtain ids s1 s2 where lines: "insert_trx_lines trx_id t (trx_lines plan) s = Inr (ids, s1)"
    and mut: "apply_pool_state_mutations (pool_state_mutations plan) ids s1 = Inr ((), s2)"
    and post: "insert_posting_lines (posting_lines plan) ids s2 = Inr (u, s')"
    using ok by (auto simp: apply_plan_result_def tx_bind_Inr)
  note lines = insert_trx_lines_ok[OF lines]
  have "0 \<notin> set ids" using pos by (auto simp: lines(1))
  note mut = apply_pool_state_mutations_ok[OF mut ms this]
  obtain rows where s2: "s2 = s1\<lparr>db_pool_state := rows\<rparr>" using mut(3) by blast
  obtain ps m where s': "s' = s2\<lparr>db_posting := db_posting s2 @ ps, db_next_posting := m\<rparr>"
    "map (\<lambda>r. r\<lparr>po_id := 0\<rparr>) ps = map (\<lambda>d. posting_row_of (ids ! post_trx_line_idx d) d) (posting_lines plan)"
    "list_all (\<lambda>d. post_trx_line_idx d < length ids) (posting_lines plan)"
    using insert_posting_lines_ok[OF post] by blast
  have view: "db_view s1 = db_view s" "db_view s' = db_view s2"
    by (simp_all add: lines(2) s'(1) db_view_def state_of_def fun_eq_iff)
  show "db_view s' = fold agg_effect (pool_state_mutations plan) (db_view s)"
    using view mut(1) by simp
  show "distinct (upserted (pool_state_mutations plan))" by (rule mut(2))
  show "\<exists>ls rows ps k m. s' = s\<lparr>db_trx_line := db_trx_line s @ ls, db_pool_state := rows,
      db_posting := db_posting s @ ps, db_next_line := k, db_next_posting := m\<rparr> \<and> db_next_line s \<le> k"
    by (intro exI[of _ "map2 (\<lambda>l i. (line_row_of trx_id t l)\<lparr>tl_id := i\<rparr>) (trx_lines plan) ids"]
        exI[of _ rows] exI[of _ ps] exI[of _ "db_next_line s + int (length (trx_lines plan))"] exI[of _ m])
      (simp add: s'(1) s2 lines(2))
  show "plan_written trx_id t plan s s'"
  proof -
    have "map (\<lambda>r. r\<lparr>tl_id := 0\<rparr>) (map2 (\<lambda>l i. (line_row_of trx_id t l)\<lparr>tl_id := i\<rparr>) ls is) =
        map (line_row_of trx_id t) ls" if "length is = length ls" for ls "is"
      using that by (induction ls "is" rule: list_induct2') (auto simp: line_row_of_def)
    from this[of ids] have "map (\<lambda>r. r\<lparr>tl_id := 0\<rparr>) (drop (length (db_trx_line s)) (db_trx_line s')) =
        map (line_row_of trx_id t) (trx_lines plan)"
      by (simp add: s'(1) s2 lines)
    moreover have "map (\<lambda>r. r\<lparr>po_id := 0\<rparr>) ps =
        map (\<lambda>d. posting_row_of (db_next_line s + int (post_trx_line_idx d)) d) (posting_lines plan)"
      using s'(2,3) by (auto simp: lines(1) list_all_iff)
    ultimately show ?thesis by (simp add: plan_written_def s'(1) s2 lines(2))
  qed
qed

end
