(* ===== verification/Hydration.thy ===== *)
theory Hydration
  imports Cte
begin

text \<open>
  Reading a snapshot for the ledger-core path, \<open>ledger-spi-common/src/hydration.rs\<close>, and the
  pool-row locks taken before it, \<open>pool_row_lock.rs\<close>. A snapshot holds, for the requested pools,
  the routing row, the aggregate row, the layers of specific pools in layer order, the standard cost
  of standard-cost pools and the posting accounts.
\<close>

section \<open>Definitions\<close>

definition snapshot_row :: "state_row \<Rightarrow> PoolStateRow" where
  "snapshot_row r = \<lparr>row_layer_id = st_layer_id r, row_qty = st_qty r,
     row_unit_cost = st_unit_cost r, row_value_sum = st_value_sum r\<rparr>"

definition aggregate_rows :: "db \<Rightarrow> i64 \<Rightarrow> PoolStateRow list" where
  "aggregate_rows s p =
    map snapshot_row (filter (\<lambda>r. st_pool_id r = p \<and> st_layer_id r = 0) (db_pool_state s))"

definition specific_rows :: "db \<Rightarrow> i64 \<Rightarrow> PoolStateRow list" where
  "specific_rows s p = map snapshot_row
    (sort_key st_layer_id (filter (\<lambda>r. st_pool_id r = p \<and> 0 < st_layer_id r) (db_pool_state s)))"

definition empty_snapshot :: Snapshot where
  "empty_snapshot = \<lparr>pools = Map.empty, method_of = Map.empty, sku_location_of = Map.empty,
     standard_cost_of = Map.empty, posting_accounts_of = Map.empty\<rparr>"

definition hydrate_snapshot :: "i64 list \<Rightarrow> db \<Rightarrow> Snapshot" where
  "hydrate_snapshot pool_ids s =
    (if pool_ids = [] then empty_snapshot
     else
       (let ids = sort (remdups pool_ids);
            routed = (\<lambda>p. if p \<in> set ids then pool_of s p else None);
            meth = (\<lambda>p. map_option pl_method (routed p));
            loc = (\<lambda>p. map_option (\<lambda>r. (pl_sku_id r, pl_location_id r)) (routed p));
            rows = (\<lambda>p. if p \<in> set ids
                     then aggregate_rows s p @ (if meth p = Some Specific then specific_rows s p else [])
                     else [])
        in \<lparr>pools = (\<lambda>p. if rows p = [] then None else Some (rows p)),
            method_of = meth,
            sku_location_of = loc,
            standard_cost_of =
              (\<lambda>p. if meth p = Some Std then Option.bind (loc p) (db_standard_cost s) else None),
            posting_accounts_of = (\<lambda>p. Option.bind (loc p) (db_accounts s))\<rparr>))"

text \<open>The locks taken, in the order they are taken: the existing \<open>pool\<close> rows, ascending.\<close>

definition lock_pool_rows :: "i64 list \<Rightarrow> db \<Rightarrow> i64 list" where
  "lock_pool_rows pool_ids s =
    (if pool_ids = [] then []
     else filter (\<lambda>p. pool_of s p \<noteq> None) (sort (remdups pool_ids)))"

section \<open>What a snapshot holds\<close>

lemma find_aggregate_rows:
  "find (\<lambda>r. row_layer_id r = 0) (aggregate_rows s p @ xs) =
    (case state_of s p 0 of Some r \<Rightarrow> Some (snapshot_row r)
     | None \<Rightarrow> find (\<lambda>r. row_layer_id r = 0) xs)"
proof -
  have "find (\<lambda>r. row_layer_id r = 0) (map snapshot_row
      (filter (\<lambda>r. st_pool_id r = p \<and> st_layer_id r = 0) rows) @ xs) =
    (case find_key st_key rows (p, 0) of Some r \<Rightarrow> Some (snapshot_row r)
     | None \<Rightarrow> find (\<lambda>r. row_layer_id r = 0) xs)" for rows
    unfolding find_key_def by (induction rows) (auto simp: snapshot_row_def st_key_def)
  then show ?thesis by (simp add: aggregate_rows_def state_of_def)
qed

lemma find_specific_rows: "find (\<lambda>r. row_layer_id r = 0) (specific_rows s p) = None"
  by (auto simp: find_None_iff specific_rows_def snapshot_row_def)

lemma hydrate_view:
  "agg_view (hydrate_snapshot ids s) p = (if p \<in> set ids then db_view s p else (0, 0, 0))"
proof -
  let ?ls = "if map_option pl_method (pool_of s p) = Some Specific then specific_rows s p else []"
  have "find (\<lambda>r. row_layer_id r = 0) ?ls = None" by (simp add: find_specific_rows)
  then have "aggregate (hydrate_snapshot ids s) p =
      (if p \<in> set ids then map_option snapshot_row (state_of s p 0) else None)"
    using find_aggregate_rows[of s p ?ls]
    by (auto simp: aggregate_def hydrate_snapshot_def empty_snapshot_def Let_def split: option.splits)
  then show ?thesis
    by (auto simp: agg_view_def agg_qty_def agg_unit_cost_def agg_value_sum_def read_aggregate_def
        db_view_def snapshot_row_def split: option.splits)
qed

lemma hydrate_config:
  assumes "p \<in> set ids"
  shows "method_of (hydrate_snapshot ids s) p = map_option pl_method (pool_of s p)"
    "posting_accounts_of (hydrate_snapshot ids s) p =
      Option.bind (pool_of s p) (\<lambda>r. db_accounts s (pl_sku_id r, pl_location_id r))"
  using assms by (cases "pool_of s p"; auto simp: hydrate_snapshot_def Let_def)+

lemma sorted_lock_pool_rows: "sorted (lock_pool_rows ids s) \<and> distinct (lock_pool_rows ids s)"
  by (simp add: lock_pool_rows_def sorted_filter[where f = id, simplified])

end
