(* ===== verification/Submit.thy ===== *)
theory Submit
  imports BulkWrite Hydration "HOL-Library.Product_Lexorder"
begin

text \<open>
  The submission path of \<open>ledger-direct/src/submit.rs\<close> with the error mapping of
  \<open>ledger_error_map.rs\<close>: decode the lines, check admission, resolve the configuration of every
  touched pool, insert the transaction row, plan and write the lines of standard-cost and
  specific pools, then run one statement per line of the other pools in pool order. An error
  anywhere leaves no trace, since the database of a failed transaction is the one it started from.

  Parsing RFC 3339 text and JSON is done by third-party crates: the parsers are parameters of
  \<open>ledger_submit_trx\<close>. Configuration rows are read as the values their columns hold.
\<close>

section \<open>Data\<close>

record LineJson =
  lj_pool_id :: i64
  lj_line_type :: string
  lj_source_id :: "i64 option"
  lj_qty :: i64
  lj_unit_cost :: i64

record PoolCfg =
  cfg_method :: PoolMethod
  cfg_standard_basis :: bool
  cfg_sku_id :: i64
  cfg_location_id :: i64
  cfg_accounts :: "PostingAccounts option"
  cfg_standard_cost :: "i64 option"

section \<open>Errors\<close>

fun raise_ledger_error :: "LedgerError \<Rightarrow> pg_error" where
  "raise_ledger_error (InsufficientInventory _ _ _) = Raised ''23000'' ''insufficient inventory''"
| "raise_ledger_error (MethodMismatch _ _ _) = Raised ''22000'' ''method mismatch''"
| "raise_ledger_error (UnknownPool _) = Raised ''42704'' ''snapshot missing pool_id''"
| "raise_ledger_error (MissingStandardCost _ _) = Raised ''22000'' ''missing standard cost''"
| "raise_ledger_error (MissingPostingAccounts _ _) = Raised ''22000'' ''missing posting accounts''"
| "raise_ledger_error (MissingVarianceAccount _) = Raised ''22000'' ''missing variance account''"
| "raise_ledger_error (SpecificPoolOccupied _ _) = Raised ''23000'' ''specific pool occupied''"
| "raise_ledger_error (Overflow _ _) = Raised ''22003'' ''overflow''"

fun raise_fault :: "fault \<Rightarrow> pg_error" where
  "raise_fault (Err e) = raise_ledger_error e"
| "raise_fault (Panic msg) = Rust_panic msg"

section \<open>Steps of a submission\<close>

fun decode_lines :: "nat \<Rightarrow> LineJson list \<Rightarrow> pg_error + (nat \<times> TrxLineRequest) list" where
  "decode_lines idx [] = Inr []"
| "decode_lines idx (l # ls) =
    (if lj_qty l = 0 then decode_lines (Suc idx) ls
     else
       (case decode_line_type (lj_line_type l) of
          None \<Rightarrow> Inl (Raised ''22023'' ''ledger_submit_trx: unknown line_type'')
        | Some lt \<Rightarrow>
            and_then (decode_lines (Suc idx) ls) (\<lambda>rest.
              Inr ((idx, \<lparr>req_pool_id = lj_pool_id l, req_line_type = lt,
                 req_source_id = lj_source_id l, req_qty = lj_qty l,
                 req_unit_cost = lj_unit_cost l\<rparr>) # rest))))"

definition btree_set :: "i64 list \<Rightarrow> i64 list" where
  "btree_set xs = sort (remdups xs)"

definition check_backpressure :: "i64 list \<Rightarrow> unit tx" where
  "check_backpressure touched s =
    (case sort_key fst (filter (\<lambda>(p, _). p \<in> set touched) (db_backpressure s)) of
       [] \<Rightarrow> Inr ((), s)
     | _ # _ \<Rightarrow> Inl (Raised ''53400'' ''ledger_submit_trx: pool is backpressure-throttled''))"

definition resolve_cfgs :: "i64 list \<Rightarrow> db \<Rightarrow> i64 \<rightharpoonup> PoolCfg" where
  "resolve_cfgs pool_ids s = (\<lambda>p.
    if p \<in> set pool_ids
    then map_option (\<lambda>r. \<lparr>cfg_method = pl_method r, cfg_standard_basis = (pl_basis r = Standard),
           cfg_sku_id = pl_sku_id r, cfg_location_id = pl_location_id r,
           cfg_accounts = db_accounts s (pl_sku_id r, pl_location_id r),
           cfg_standard_cost = db_standard_cost s (pl_sku_id r, pl_location_id r)\<rparr>) (pool_of s p)
    else None)"

definition check_cfg :: "(i64 \<rightharpoonup> PoolCfg) \<Rightarrow> i64 \<Rightarrow> unit tx" where
  "check_cfg cfgs pid =
    (case cfgs pid of
       None \<Rightarrow> tx_fail (raise_ledger_error (UnknownPool pid))
     | Some cfg \<Rightarrow>
         if cfg_accounts cfg = None
         then tx_fail (raise_ledger_error (MissingPostingAccounts (cfg_sku_id cfg) (cfg_location_id cfg)))
         else tx_return ())"

definition is_core :: "(i64 \<rightharpoonup> PoolCfg) \<Rightarrow> i64 \<Rightarrow> bool" where
  "is_core cfgs pid =
    (case cfgs pid of None \<Rightarrow> False | Some c \<Rightarrow> cfg_method c = Std \<or> cfg_method c = Specific)"

definition abs_qty :: "TrxLineRequest \<Rightarrow> i64 tx" where
  "abs_qty line =
    (case checked_abs (req_qty line) of
       Some a \<Rightarrow> tx_return a
     | None \<Rightarrow> tx_fail (Raised ''22003'' ''ledger_submit_trx: qty.abs() overflow''))"

definition expect_row :: "i64 option tx \<Rightarrow> unit tx" where
  "expect_row res =
    tx_bind res (\<lambda>x. case x of
        Some _ \<Rightarrow> tx_return ()
      | None \<Rightarrow> tx_fail (Raised ''XX000'' ''ledger_submit_trx: returned no trx_line id''))"

definition dispatch_cte_line :: "TrxLineRequest \<Rightarrow> PoolCfg \<Rightarrow> i64 \<Rightarrow> timestamp \<Rightarrow> unit tx" where
  "dispatch_cte_line line cfg trx_id posted_at =
    (let lt = line_type_as_sql (req_line_type line); p = req_pool_id line; src = req_source_id line in
     case cfg_accounts cfg of
       None \<Rightarrow> tx_fail (Rust_panic ''validated in apply_submission'')
     | Some accounts \<Rightarrow>
         (let (rcv_debit, rcv_credit) = pair_for accounts (req_line_type line) in
          case cfg_method cfg of
            Wac \<Rightarrow>
              if req_qty line > 0
              then expect_row (wac_receipt p (req_qty line) (req_unit_cost line) trx_id lt src
                     posted_at rcv_debit rcv_credit)
              else tx_bind (abs_qty line) (\<lambda>q.
                   tx_bind (wac_deplete p q trx_id lt src posted_at rcv_credit rcv_debit) (\<lambda>x.
                     case x of
                       Some _ \<Rightarrow> tx_return ()
                     | None \<Rightarrow> tx_fail (Raised ''23000'' ''insufficient inventory'')))
          | Std \<Rightarrow> tx_fail (Rust_panic ''core methods filtered out'')
          | Specific \<Rightarrow> tx_fail (Rust_panic ''core methods filtered out'')
          | _ \<Rightarrow>
              if req_qty line > 0
              then expect_row (fl_receipt p (req_qty line) (req_unit_cost line) trx_id lt src posted_at)
              else if cfg_standard_basis cfg \<and> cfg_standard_cost cfg = None
              then tx_fail (raise_ledger_error
                     (MissingStandardCost (cfg_sku_id cfg) (cfg_location_id cfg)))
              else tx_bind (abs_qty line) (\<lambda>q.
                   expect_row (fl_deplete p q
                     (if cfg_standard_basis cfg then cfg_standard_cost cfg else None)
                     trx_id lt src posted_at))))"

section \<open>The pipeline\<close>

definition core_lines :: "(i64 \<rightharpoonup> PoolCfg) \<Rightarrow> (nat \<times> TrxLineRequest) list \<Rightarrow> TrxLineRequest list" where
  "core_lines cfgs lines = map snd (filter (\<lambda>(_, l). is_core cfgs (req_pool_id l)) lines)"

definition cte_lines ::
  "(i64 \<rightharpoonup> PoolCfg) \<Rightarrow> (nat \<times> TrxLineRequest) list \<Rightarrow> (nat \<times> TrxLineRequest) list" where
  "cte_lines cfgs lines =
    sort_key (\<lambda>(idx, l). (req_pool_id l, idx)) (filter (\<lambda>(_, l). \<not> is_core cfgs (req_pool_id l)) lines)"

definition core_phase :: "i64 \<Rightarrow> timestamp \<Rightarrow> TrxLineRequest list \<Rightarrow> unit tx" where
  "core_phase trx_id posted_at lines =
    (if lines = [] then tx_return ()
     else (\<lambda>s. case plan_apply (hydrate_snapshot (btree_set (map req_pool_id lines)) s) lines posted_at of
         (Inl err, _) \<Rightarrow> Inl (raise_fault err)
       | (Inr plan, _) \<Rightarrow> apply_plan_result trx_id posted_at plan s))"

definition cte_step :: "(i64 \<rightharpoonup> PoolCfg) \<Rightarrow> i64 \<Rightarrow> timestamp \<Rightarrow> nat \<times> TrxLineRequest \<Rightarrow> unit tx" where
  "cte_step cfgs trx_id posted_at x =
    (case cfgs (req_pool_id (snd x)) of
       None \<Rightarrow> tx_fail (Rust_panic ''validated above'')
     | Some cfg \<Rightarrow> dispatch_cte_line (snd x) cfg trx_id posted_at)"

definition apply_submission ::
  "string \<Rightarrow> i64 \<Rightarrow> timestamp \<Rightarrow> LineJson list \<Rightarrow> bool \<Rightarrow> i64 tx" where
  "apply_submission trx_type source_id posted_at line_jsons enforce_backpressure =
    tx_bind (tx_lift (decode_lines 0 line_jsons)) (\<lambda>lines.
    let touched = btree_set (map (req_pool_id \<circ> snd) lines) in
    tx_bind (if enforce_backpressure then check_backpressure touched else tx_return ()) (\<lambda>_.
    tx_bind (\<lambda>s. Inr (resolve_cfgs touched s, s)) (\<lambda>cfgs.
    tx_bind (tx_iter (check_cfg cfgs) touched) (\<lambda>_.
    tx_bind (insert_trx trx_type source_id posted_at) (\<lambda>trx_id.
    tx_bind (core_phase trx_id posted_at (core_lines cfgs lines)) (\<lambda>_.
    tx_bind (tx_iter (cte_step cfgs trx_id posted_at) (cte_lines cfgs lines)) (\<lambda>_.
    tx_return trx_id)))))))"

definition ledger_submit_trx ::
  "(string \<Rightarrow> timestamp option) \<Rightarrow> ('json \<Rightarrow> LineJson list option) \<Rightarrow>
   string \<Rightarrow> i64 \<Rightarrow> string \<Rightarrow> 'json \<Rightarrow> i64 tx" where
  "ledger_submit_trx parse_from_rfc3339 from_value trx_type source_id posted_at lines =
    (case parse_from_rfc3339 posted_at of
       None \<Rightarrow> tx_fail (Raised ''22007'' ''ledger_submit_trx: posted_at not RFC3339'')
     | Some t \<Rightarrow>
         (case from_value lines of
            None \<Rightarrow> tx_fail (Raised ''22023'' ''ledger_submit_trx: lines JSONB decode failed'')
          | Some line_jsons \<Rightarrow> apply_submission trx_type source_id t line_jsons True))"

section \<open>What a step records\<close>

type_synonym row_key = "i64 \<times> i64 \<times> string \<times> i64 option"

definition row_key :: "trx_line_row \<Rightarrow> row_key" where
  "row_key r = (tl_pool_id r, tl_qty r, tl_line_type r, tl_source_id r)"

definition req_row_key :: "TrxLineRequest \<Rightarrow> row_key" where
  "req_row_key l = (req_pool_id l, req_qty l, line_type_as_sql (req_line_type l), req_source_id l)"

definition key_qty :: "i64 \<Rightarrow> row_key list \<Rightarrow> int" where
  "key_qty p ks = sum_list (map (\<lambda>(p', q, _). if p' = p then q else 0) ks)"

lemma key_qty_simps [simp]:
  "key_qty p [] = 0" "key_qty p (ks @ ks') = key_qty p ks + key_qty p ks'"
  "key_qty p ((p', q, x) # ks) = (if p' = p then q else 0) + key_qty p ks"
  by (simp_all add: key_qty_def)

text \<open>Lines with the given keys were appended for the transaction, and the configuration and the
  transaction rows are untouched; a pool's aggregate quantity moved by exactly the lines.\<close>

definition same_reference :: "db \<Rightarrow> db \<Rightarrow> bool" where
  "same_reference s s' \<longleftrightarrow> db_pool s' = db_pool s \<and> db_accounts s' = db_accounts s \<and>
    db_standard_cost s' = db_standard_cost s \<and> db_trx s' = db_trx s \<and> db_settlement s' = db_settlement s"

definition recorded :: "i64 \<Rightarrow> timestamp \<Rightarrow> row_key list \<Rightarrow> db \<Rightarrow> db \<Rightarrow> bool" where
  "recorded trx_id t ks s s' \<longleftrightarrow>
    (\<exists>rs. db_trx_line s' = db_trx_line s @ rs \<and> map row_key rs = ks \<and>
      list_all (\<lambda>r. tl_trx_id r = trx_id \<and> tl_posted_at r = t \<and>
        tl_line_type r \<noteq> cost_adjustment_line) rs) \<and>
    db_next_line s \<le> db_next_line s' \<and> same_reference s s'"

definition moved :: "row_key list \<Rightarrow> db \<Rightarrow> db \<Rightarrow> i64 \<Rightarrow> bool" where
  "moved ks s s' p \<longleftrightarrow> fst (agg_of s' p) = fst (agg_of s p) + key_qty p ks"

lemma recorded_refl: "recorded trx_id t [] s s"
  by (simp add: recorded_def same_reference_def)

lemma recorded_trans:
  assumes "recorded trx_id t ks s s1" "recorded trx_id t ks' s1 s2"
  shows "recorded trx_id t (ks @ ks') s s2"
proof -
  from assms obtain rs rs' where "db_trx_line s1 = db_trx_line s @ rs" "map row_key rs = ks"
    "db_trx_line s2 = db_trx_line s1 @ rs'" "map row_key rs' = ks'"
    "list_all (\<lambda>r. tl_trx_id r = trx_id \<and> tl_posted_at r = t \<and> tl_line_type r \<noteq> cost_adjustment_line) rs"
    "list_all (\<lambda>r. tl_trx_id r = trx_id \<and> tl_posted_at r = t \<and> tl_line_type r \<noteq> cost_adjustment_line) rs'"
    by (auto simp: recorded_def)
  then have "\<exists>rs. db_trx_line s2 = db_trx_line s @ rs \<and> map row_key rs = ks @ ks' \<and>
      list_all (\<lambda>r. tl_trx_id r = trx_id \<and> tl_posted_at r = t \<and>
        tl_line_type r \<noteq> cost_adjustment_line) rs"
    by (intro exI[of _ "rs @ rs'"]) simp
  then show ?thesis using assms by (auto simp: recorded_def same_reference_def)
qed

lemma recorded_events:
  assumes "recorded trx_id t ks s s'"
  shows "events_qty (pool_events s' p) = events_qty (pool_events s p) + key_qty p ks"
proof -
  obtain rs where rs: "db_trx_line s' = db_trx_line s @ rs" "map row_key rs = ks"
    "list_all (\<lambda>r. tl_trx_id r = trx_id \<and> tl_posted_at r = t \<and> tl_line_type r \<noteq> cost_adjustment_line) rs"
    using assms by (auto simp: recorded_def)
  have "list_all (\<lambda>r. tl_line_type r \<noteq> cost_adjustment_line) rs \<Longrightarrow>
      sum_list (map (\<lambda>(_, q, _). q) (map (\<lambda>r. (tl_id r, tl_qty r, tl_unit_cost r))
        (filter (\<lambda>r. tl_pool_id r = p \<and> tl_line_type r \<noteq> cost_adjustment_line) rs))) =
      key_qty p (map row_key rs)" for rs
    by (induction rs) (auto simp: row_key_def)
  moreover have "list_all (\<lambda>r. tl_line_type r \<noteq> cost_adjustment_line) rs"
    using rs(3) by (auto simp: list_all_iff)
  ultimately show ?thesis using rs(1,2) by (simp add: pool_events_def events_qty_def)
qed

section \<open>The commutative phase\<close>

lemma checked_abs_neg: "checked_abs q = Some a \<Longrightarrow> q < 0 \<Longrightarrow> a = - q"
  by (auto simp: checked_abs_def try_i64_def split: if_splits)

lemma dispatch_cte_line_effect:
  assumes "dispatch_cte_line line cfg trx_id t s = Inr (u, s')" "req_qty line \<noteq> 0"
  shows "\<exists>c. line_effect trx_id (req_pool_id line) (line_type_as_sql (req_line_type line))
    (req_source_id line) (req_qty line) c t s s'"
proof (cases "req_qty line > 0")
  case True
  then show ?thesis
    using assms
    by (fastforce simp: dispatch_cte_line_def expect_row_def tx_bind_Inr Let_def
        split: option.splits PoolMethod.splits prod.splits dest: wac_receipt_effect fl_receipt_effect)
next
  case False
  then have neg: "req_qty line < 0" using assms(2) by simp
  then show ?thesis
    using assms(1) wac_deplete_effect fl_deplete_effect
    by (fastforce simp: dispatch_cte_line_def expect_row_def abs_qty_def tx_bind_Inr Let_def
        split: option.splits PoolMethod.splits prod.splits if_splits dest: checked_abs_neg)
qed

lemma line_effect_recorded:
  assumes "line_effect trx_id p (line_type_as_sql lt) src q c t s s'"
  shows "recorded trx_id t [(p, q, line_type_as_sql lt, src)] s s'"
    "moved [(p, q, line_type_as_sql lt, src)] s s' p'"
proof -
  have "fst (agg_of s' p') = fst (agg_of s p') + (if p = p' then q else 0)"
    using assms line_effect_agg[OF assms, of p'] by (cases "p' = p") (auto simp: line_effect_def)
  then show "moved [(p, q, line_type_as_sql lt, src)] s s' p'" by (simp add: moved_def)
  have "\<exists>rs. db_trx_line s' = db_trx_line s @ rs \<and> map row_key rs = [(p, q, line_type_as_sql lt, src)] \<and>
      list_all (\<lambda>r. tl_trx_id r = trx_id \<and> tl_posted_at r = t \<and>
        tl_line_type r \<noteq> cost_adjustment_line) rs"
    using assms by (auto simp: line_effect_def new_line_def row_key_def)
  then show "recorded trx_id t [(p, q, line_type_as_sql lt, src)] s s'"
    using assms by (auto simp: recorded_def line_effect_def same_reference_def)
qed

lemma cte_phase:
  assumes "tx_iter (cte_step cfgs trx_id t) ls s = Inr (u, s')" "list_all (\<lambda>x. req_qty (snd x) \<noteq> 0) ls"
  shows "recorded trx_id t (map (req_row_key \<circ> snd) ls) s s' \<and>
    (\<forall>p. moved (map (req_row_key \<circ> snd) ls) s s' p \<and> (reconciled s p \<longrightarrow> reconciled s' p))"
  using assms
proof (induction ls arbitrary: s)
  case (Cons x ls)
  then obtain s1 where x: "cte_step cfgs trx_id t x s = Inr ((), s1)"
    and rest: "tx_iter (cte_step cfgs trx_id t) ls s1 = Inr (u, s')"
    by (auto simp: tx_bind_Inr)
  obtain c where eff: "line_effect trx_id (req_pool_id (snd x)) (line_type_as_sql (req_line_type (snd x)))
      (req_source_id (snd x)) (req_qty (snd x)) c t s s1"
    using x Cons.prems(2) dispatch_cte_line_effect
    by (fastforce simp: cte_step_def split: option.splits)
  have one: "recorded trx_id t [req_row_key (snd x)] s s1" "\<And>p. moved [req_row_key (snd x)] s s1 p"
    using line_effect_recorded[OF eff] by (simp_all add: req_row_key_def)
  have tail: "moved (map (req_row_key \<circ> snd) ls) s1 s' p" for p
    using Cons.IH[OF rest] Cons.prems(2) by (simp add: o_def)
  have "moved (map (req_row_key \<circ> snd) (x # ls)) s s' p" for p
    using one(2)[of p] tail[of p] by (simp add: moved_def key_qty_def)
  then show ?case
    using recorded_trans[OF one(1)] Cons.IH[OF rest] Cons.prems(2) line_effect_reconciled[OF eff] by (auto simp: o_def)
qed (simp add: recorded_refl moved_def)

section \<open>The ledger-core phase\<close>

lemma fold_agg_effect_cong: "f p = g p \<Longrightarrow> fold agg_effect ms f p = fold agg_effect ms g p"
proof (induction ms arbitrary: f g)
  case (Cons m ms)
  have "agg_effect m f p = agg_effect m g p" using Cons.prems by (cases m) auto
  from Cons.IH[of "agg_effect m f" "agg_effect m g", OF this] show ?case by simp
qed simp

lemma fold_agg_effect_other: "p \<notin> set (upserted ms) \<Longrightarrow> fold agg_effect ms f p = f p"
proof (induction ms arbitrary: f)
  case (Cons m ms)
  then show ?case using Cons.IH[of "agg_effect m f"] by (cases m) auto
qed simp

lemma agg_of_view: "agg_of s p = (case db_view s p of (q, _, v) \<Rightarrow> (q, v))"
  by (simp add: agg_of_def db_view_def split: option.splits)

lemma set_btree_set [simp]: "set (btree_set xs) = set xs"
  by (simp add: btree_set_def)

lemma pool_sum_key_qty: "pool_sum p ls = key_qty p (map req_row_key ls)"
  by (induction ls) (auto simp: pool_sum_def req_row_key_def)

lemma core_phase_ok:
  assumes ok: "core_phase trx_id t lines s = Inr (u, s')" and ne: "lines \<noteq> []"
    and pos: "0 < db_next_line s"
  obtains plan snap' ls rows ps k m where
    "plan_apply (hydrate_snapshot (btree_set (map req_pool_id lines)) s) lines t = (Inr plan, snap')"
    "plan_written trx_id t plan s s'"
    "\<And>p. p \<in> req_pool_id ` set lines \<Longrightarrow> agrees snap' s' p"
    "\<And>p. p \<notin> req_pool_id ` set lines \<Longrightarrow> db_view s' p = db_view s p"
    "distinct (map req_pool_id (filter (\<lambda>l. req_qty l \<noteq> 0) lines))"
    "s' = s\<lparr>db_trx_line := db_trx_line s @ ls, db_pool_state := rows,
      db_posting := db_posting s @ ps, db_next_line := k, db_next_posting := m\<rparr>" "db_next_line s \<le> k"
proof -
  let ?ids = "btree_set (map req_pool_id lines)" let ?snap = "hydrate_snapshot ?ids s"
  obtain plan snap' where plan: "plan_apply ?snap lines t = (Inr plan, snap')"
    and write_ok: "apply_plan_result trx_id t plan s = Inr (u, s')"
    using ok ne by (auto simp: core_phase_def split: prod.splits sum.splits)
  note run = plan[unfolded plan_apply_ok]
  have ms: "upserted (pool_state_mutations plan) = map req_pool_id (filter (\<lambda>l. req_qty l \<noteq> 0) lines)"
    "list_all (idx_in (length (trx_lines plan))) (pool_state_mutations plan)"
    "fold agg_effect (pool_state_mutations plan) (agg_view ?snap) = agg_view snap'"
    using dispatch.run_view[OF run] by auto
  note written = apply_plan_result_ok[OF write_ok ms(2) pos]
  obtain ls rows ps k m where s': "s' = s\<lparr>db_trx_line := db_trx_line s @ ls, db_pool_state := rows,
      db_posting := db_posting s @ ps, db_next_line := k, db_next_posting := m\<rparr>" "db_next_line s \<le> k"
    using written(4) by blast
  show thesis
  proof (rule that[OF plan written(3) _ _ _ s'])
    fix p assume "p \<in> req_pool_id ` set lines"
    then have "agg_view ?snap p = db_view s p" by (simp add: hydrate_view)
    from fold_agg_effect_cong[where f = "agg_view ?snap" and g = "db_view s", OF this]
    show "agrees snap' s' p" unfolding agrees_def written(1) ms(3)[symmetric] .
  next
    fix p assume "p \<notin> req_pool_id ` set lines"
    then show "db_view s' p = db_view s p"
      unfolding written(1) by (intro fold_agg_effect_other) (auto simp: ms(1))
  next
    show "distinct (map req_pool_id (filter (\<lambda>l. req_qty l \<noteq> 0) lines))" using written(2) ms(1) by simp
  qed
qed

lemma plan_written_keys:
  assumes "plan_written trx_id t plan s s'" "db_trx_line s' = db_trx_line s @ ls"
    "map out_key (trx_lines plan) = map req_key lines"
  shows "map row_key ls = map req_row_key lines"
    "list_all (\<lambda>r. tl_trx_id r = trx_id \<and> tl_posted_at r = t \<and> tl_line_type r \<noteq> cost_adjustment_line) ls"
proof -
  have ls: "map (\<lambda>r. r\<lparr>tl_id := 0\<rparr>) ls = map (line_row_of trx_id t) (trx_lines plan)"
    using assms(1,2) by (simp add: plan_written_def)
  have key: "row_key r = row_key (r\<lparr>tl_id := 0\<rparr>)" for r by (simp add: row_key_def)
  let ?g = "\<lambda>(p, q, lt, src). (p, q, line_type_as_sql lt, src)"
  have "map row_key ls = map row_key (map (\<lambda>r. r\<lparr>tl_id := 0\<rparr>) ls)" using key by simp
  also have "\<dots> = map ?g (map out_key (trx_lines plan))"
    unfolding ls by (simp add: row_key_def line_row_of_def out_key_def)
  also have "\<dots> = map req_row_key lines"
    unfolding assms(3) by (simp add: req_key_def req_row_key_def)
  finally show "map row_key ls = map req_row_key lines" .
  have "list_all (\<lambda>r. tl_trx_id r = trx_id \<and> tl_posted_at r = t \<and> tl_line_type r \<noteq> cost_adjustment_line)
      (map (\<lambda>r. r\<lparr>tl_id := 0\<rparr>) ls)"
    unfolding ls by (simp add: list_all_iff line_row_of_def)
  then show "list_all (\<lambda>r. tl_trx_id r = trx_id \<and> tl_posted_at r = t \<and>
      tl_line_type r \<noteq> cost_adjustment_line) ls"
    by (simp add: list_all_iff)
qed

lemma core_phase_recorded:
  assumes ok: "core_phase trx_id t lines s = Inr (u, s')"
    and nz: "list_all (\<lambda>l. req_qty l \<noteq> 0) lines" and pos: "0 < db_next_line s"
  shows "recorded trx_id t (map req_row_key lines) s s'"
    "p \<notin> req_pool_id ` set lines \<Longrightarrow> reconciled s p \<Longrightarrow> reconciled s' p"
    "p \<notin> req_pool_id ` set lines \<or>
      (snapshot_wf (hydrate_snapshot (btree_set (map req_pool_id lines)) s) \<and> list_all line_i64 lines) \<Longrightarrow>
      moved (map req_row_key lines) s s' p"
proof -
  let ?ids = "btree_set (map req_pool_id lines)" let ?snap = "hydrate_snapshot ?ids s"
  have all: "recorded trx_id t (map req_row_key lines) s s' \<and>
    (p \<notin> req_pool_id ` set lines \<longrightarrow> reconciled s p \<longrightarrow> reconciled s' p) \<and>
    (p \<notin> req_pool_id ` set lines \<or> (snapshot_wf ?snap \<and> list_all line_i64 lines) \<longrightarrow>
      moved (map req_row_key lines) s s' p)"
  proof (cases "lines = []")
    case True
    then show ?thesis using ok by (simp add: core_phase_def recorded_refl moved_def)
  next
    case ne: False
    obtain plan snap' ls rows ps k m where plan: "plan_apply ?snap lines t = (Inr plan, snap')"
      and written: "plan_written trx_id t plan s s'"
      and on: "\<And>p. p \<in> req_pool_id ` set lines \<Longrightarrow> agrees snap' s' p"
      and off: "\<And>p. p \<notin> req_pool_id ` set lines \<Longrightarrow> db_view s' p = db_view s p"
      and "distinct (map req_pool_id (filter (\<lambda>l. req_qty l \<noteq> 0) lines))"
      and s': "s' = s\<lparr>db_trx_line := db_trx_line s @ ls, db_pool_state := rows,
        db_posting := db_posting s @ ps, db_next_line := k, db_next_posting := m\<rparr>" "db_next_line s \<le> k"
      by (rule core_phase_ok[OF ok ne pos]) (rule that)
    note run = plan[unfolded plan_apply_ok]
    have "filter (\<lambda>l. req_qty l \<noteq> 0) lines = lines" using nz by (simp add: list_all_iff)
    then have keys: "map row_key ls = map req_row_key lines"
      "list_all (\<lambda>r. tl_trx_id r = trx_id \<and> tl_posted_at r = t \<and> tl_line_type r \<noteq> cost_adjustment_line) ls"
      using plan_written_keys[OF written, of ls lines] dispatch.run_out[OF run] s'(1) by auto
    then have "recorded trx_id t (map req_row_key lines) s s'"
      using s' by (auto simp: recorded_def same_reference_def)
    moreover have "moved (map req_row_key lines) s s' p"
      if "p \<in> req_pool_id ` set lines" "snapshot_wf ?snap" "list_all line_i64 lines"
    proof -
      have "agg_qty snap' p = agg_qty ?snap p + key_qty p (map req_row_key lines)"
        using dispatch.run_qty[OF run that(2,3)] by (simp add: pool_sum_key_qty)
      moreover have "agg_view ?snap p = db_view s p" using that(1) by (simp add: hydrate_view)
      ultimately show ?thesis
        using on[OF that(1)] by (auto simp: moved_def agrees_def agg_of_view agg_view_def split: prod.splits)
    qed
    moreover have "moved (map req_row_key lines) s s' p" if p: "p \<notin> req_pool_id ` set lines"
    proof -
      have "key_qty p (map req_row_key lines) = 0"
        using p by (induction lines) (auto simp: req_row_key_def)
      then show ?thesis using off[OF p] by (simp add: moved_def agg_of_view)
    qed
    moreover have "reconciled s' p" if p: "p \<notin> req_pool_id ` set lines" and rec: "reconciled s p"
    proof -
      have "tl_pool_id ` set ls = req_pool_id ` set lines"
        using arg_cong[OF keys(1), of "\<lambda>xs. fst ` set xs"]
        by (simp add: image_image row_key_def req_row_key_def)
      then have "pool_events s' p = pool_events s p"
        using p by (auto simp: pool_events_def s'(1) filter_empty_conv)
      then show ?thesis using rec off[OF p] by (simp add: reconciled_def agg_of_view)
    qed
    ultimately show ?thesis by blast
  qed
  then show "recorded trx_id t (map req_row_key lines) s s'"
    "p \<notin> req_pool_id ` set lines \<Longrightarrow> reconciled s p \<Longrightarrow> reconciled s' p"
    "p \<notin> req_pool_id ` set lines \<or> (snapshot_wf ?snap \<and> list_all line_i64 lines) \<Longrightarrow>
      moved (map req_row_key lines) s s' p"
    by blast+
qed

section \<open>A whole submission\<close>

definition json_key :: "LineJson \<Rightarrow> row_key" where
  "json_key l = (lj_pool_id l, lj_qty l, lj_line_type l, lj_source_id l)"

definition json_i64 :: "LineJson \<Rightarrow> bool" where
  "json_i64 l \<longleftrightarrow> is_i64 (lj_qty l) \<and> is_i64 (lj_unit_cost l)"

text \<open>The keys of the lines a submission is asked to record: those of non-zero quantity.\<close>

definition submitted :: "LineJson list \<Rightarrow> row_key list" where
  "submitted ls = map json_key (filter (\<lambda>l. lj_qty l \<noteq> 0) ls)"

text \<open>The state the submission path relies on: ids are positive, and every snapshot it can read is
  well formed.\<close>

definition submit_ready :: "db \<Rightarrow> bool" where
  "submit_ready s \<longleftrightarrow> 0 < db_next_line s \<and> (\<forall>ids. snapshot_wf (hydrate_snapshot ids s))"

lemma decode_lines_ok:
  assumes "decode_lines n js = Inr ls"
  shows "list_all (\<lambda>x. req_qty (snd x) \<noteq> 0) ls \<and> map (req_row_key \<circ> snd) ls = submitted js \<and>
    (list_all json_i64 js \<longrightarrow> list_all (\<lambda>x. line_i64 (snd x)) ls) \<and>
    sorted (map fst ls) \<and> list_all (\<lambda>x. n \<le> fst x) ls"
  using assms
proof (induction n js arbitrary: ls rule: decode_lines.induct)
  case (2 n l js)
  show ?case
  proof (cases "lj_qty l = 0")
    case True
    from 2(1)[OF this, of ls] 2(3) True show ?thesis by (auto simp: submitted_def list_all_iff)
  next
    case False
    then obtain lt rest where lt: "decode_line_type (lj_line_type l) = Some lt"
      and rest: "decode_lines (Suc n) js = Inr rest"
      and ls: "ls = (n, \<lparr>req_pool_id = lj_pool_id l, req_line_type = lt, req_source_id = lj_source_id l,
        req_qty = lj_qty l, req_unit_cost = lj_unit_cost l\<rparr>) # rest"
      using 2(3) by (auto simp: and_then_Inr split: option.splits)
    from 2(2)[OF False lt rest] False decode_line_typeD[OF lt] show ?thesis
      by (auto simp: ls submitted_def json_key_def req_row_key_def json_i64_def line_i64_def list_all_iff)
  qed
qed (simp add: submitted_def)

lemma insert_trx_ok:
  assumes "insert_trx ty src t s = Inr (i, s')"
  shows "i = db_next_trx s" "s' = s\<lparr>db_trx := db_trx s @ [\<lparr>tr_id = i, tr_trx_type = ty, tr_source_id = src,
      tr_posted_at = t\<rparr>], db_next_trx := db_next_trx s + 1\<rparr>"
    "\<not> list_ex (\<lambda>r. tr_trx_type r = ty \<and> tr_source_id r = src) (db_trx s)"
  using assms by (auto simp: insert_trx_def split: if_splits)

lemma check_backpressure_ok:
  "check_backpressure touched s = Inr (u, s') \<Longrightarrow>
    s' = s \<and> (\<forall>p \<in> set touched. p \<notin> fst ` set (db_backpressure s))"
proof -
  assume ok: "check_backpressure touched s = Inr (u, s')"
  then have "sort_key fst (filter (\<lambda>(p, _). p \<in> set touched) (db_backpressure s)) = []"
    by (auto simp: check_backpressure_def split: list.splits)
  from arg_cong[OF this, of length] have "filter (\<lambda>(p, _). p \<in> set touched) (db_backpressure s) = []"
    by simp
  then show ?thesis using ok by (auto simp: check_backpressure_def filter_empty_conv)
qed

lemma check_cfgs_ok: "tx_iter (check_cfg cfgs) ps s = Inr (u, s') \<Longrightarrow> s' = s"
  by (induction ps arbitrary: s) (auto simp: check_cfg_def tx_bind_Inr split: option.splits if_splits)

lemma apply_submission_ok:
  assumes "apply_submission ty src t js enforce s = Inr (trx_id, s')"
  obtains lines cfgs s1 s2 where "decode_lines 0 js = Inr lines"
    "cfgs = resolve_cfgs (btree_set (map (req_pool_id \<circ> snd) lines)) s"
    "insert_trx ty src t s = Inr (trx_id, s1)"
    "core_phase trx_id t (core_lines cfgs lines) s1 = Inr ((), s2)"
    "tx_iter (cte_step cfgs trx_id t) (cte_lines cfgs lines) s2 = Inr ((), s')"
    "enforce \<Longrightarrow> \<forall>p \<in> set (map (req_pool_id \<circ> snd) lines). p \<notin> fst ` set (db_backpressure s)"
  using assms
  by (fastforce simp: apply_submission_def tx_bind_Inr Let_def
      dest!: check_backpressure_ok check_cfgs_ok split: if_splits)

lemma filter_cte_lines:
  assumes "sorted (map fst lines)"
  shows "filter (\<lambda>x. req_pool_id (snd x) = p) (cte_lines cfgs lines) =
    filter (\<lambda>x. \<not> is_core cfgs p \<and> req_pool_id (snd x) = p) lines"
proof -
  let ?P = "\<lambda>x :: nat \<times> TrxLineRequest. req_pool_id (snd x) = p"
  let ?k = "\<lambda>(idx, l). (req_pool_id l, idx)"
  have "sorted (map ?k (filter ?P (filter Q lines)))" for Q
  proof -
    have eq: "map ?k (filter ?P xs) = map (Pair p) (map fst (filter ?P xs))" for xs
      by (induction xs) auto
    have pair: "sorted (map (Pair p) is)" if "sorted is" for "is" :: "nat list"
      using that by (induction "is") auto
    have "sorted (map fst (filter ?P (filter Q lines)))"
      using sorted_filter[of fst "filter Q lines" ?P] sorted_filter[of fst lines Q] assms by simp
    then show ?thesis unfolding eq by (rule pair)
  qed
  then have "filter ?P (cte_lines cfgs lines) = filter ?P (filter (\<lambda>(_, l). \<not> is_core cfgs (req_pool_id l)) lines)"
    unfolding cte_lines_def filter_sort by (rule sort_key_id_if_sorted)
  also have "\<dots> = filter (\<lambda>x. \<not> is_core cfgs p \<and> ?P x) lines"
    by (auto intro: filter_cong)
  finally show ?thesis .
qed

definition qty_reconciled :: "db \<Rightarrow> i64 \<Rightarrow> bool" where
  "qty_reconciled s p \<longleftrightarrow> fst (agg_of s p) = events_qty (pool_events s p)"

definition commutative_pool :: "db \<Rightarrow> i64 \<Rightarrow> bool" where
  "commutative_pool s p \<longleftrightarrow>
    (case pool_of s p of None \<Rightarrow> True | Some r \<Rightarrow> pl_method r \<noteq> Std \<and> pl_method r \<noteq> Specific)"

lemma trx_frame:
  assumes "s1 = s\<lparr>db_trx := x, db_next_trx := y\<rparr>"
  shows "hydrate_snapshot ids s1 = hydrate_snapshot ids s" "agg_of s1 = agg_of s"
    "pool_events s1 = pool_events s" "db_next_line s1 = db_next_line s" "db_trx_line s1 = db_trx_line s"
  by (simp_all add: assms hydrate_snapshot_def Let_def pool_of_def aggregate_rows_def specific_rows_def
      agg_of_def[abs_def] pool_events_def[abs_def] state_of_def fun_eq_iff cong: if_cong)

lemma submission_effect:
  assumes ok: "apply_submission ty src t js enforce s = Inr (trx_id, s')" and pos: "0 < db_next_line s"
  obtains ks s1 where
    "\<And>p. filter (\<lambda>k. fst k = p) ks = filter (\<lambda>k. fst k = p) (submitted js)"
    "recorded trx_id t ks s1 s'"
    "s1 = s\<lparr>db_trx := db_trx s @ [\<lparr>tr_id = trx_id, tr_trx_type = ty, tr_source_id = src,
       tr_posted_at = t\<rparr>], db_next_trx := db_next_trx s + 1\<rparr>"
    "\<And>p. commutative_pool s p \<Longrightarrow> reconciled s1 p \<Longrightarrow> reconciled s' p"
    "\<And>p. commutative_pool s p \<or> (submit_ready s \<and> list_all json_i64 js) \<Longrightarrow> moved ks s1 s' p"
proof -
  obtain lines cfgs s1 s2 where dec: "decode_lines 0 js = Inr lines"
    and cfgs: "cfgs = resolve_cfgs (btree_set (map (req_pool_id \<circ> snd) lines)) s"
    and trx: "insert_trx ty src t s = Inr (trx_id, s1)"
    and core: "core_phase trx_id t (core_lines cfgs lines) s1 = Inr ((), s2)"
    and cte: "tx_iter (cte_step cfgs trx_id t) (cte_lines cfgs lines) s2 = Inr ((), s')"
    using ok by (rule apply_submission_ok)
  note d = decode_lines_ok[OF dec] note trx = insert_trx_ok[OF trx] note frame = trx_frame[OF trx(2)]
  have core_nz: "list_all (\<lambda>l. req_qty l \<noteq> 0) (core_lines cfgs lines)"
    using d by (auto simp: core_lines_def list_all_iff)
  have core_i64: "list_all line_i64 (core_lines cfgs lines)" if "list_all json_i64 js"
    using d that by (auto simp: core_lines_def list_all_iff)
  have cte_nz: "list_all (\<lambda>x. req_qty (snd x) \<noteq> 0) (cte_lines cfgs lines)"
    using d by (auto simp: cte_lines_def list_all_iff)
  have off: "p \<notin> req_pool_id ` set (core_lines cfgs lines)" if "commutative_pool s p" for p
    using that by (auto simp: core_lines_def is_core_def cfgs resolve_cfgs_def commutative_pool_def
        split: option.splits if_splits)
  note c = core_phase_recorded[OF core core_nz, unfolded frame, OF pos]
  note e = cte_phase[OF cte cte_nz]
  let ?ks = "map req_row_key (core_lines cfgs lines) @ map (req_row_key \<circ> snd) (cte_lines cfgs lines)"
  show thesis
  proof (rule that[OF _ recorded_trans[OF c(1) conjunct1[OF e]] trx(2)])
    fix p
    have key: "filter (\<lambda>k. fst k = p) (map req_row_key ls) =
        map req_row_key (filter (\<lambda>l. req_pool_id l = p) ls)" for ls
      by (simp add: filter_map o_def req_row_key_def)
    have "filter (\<lambda>l. req_pool_id l = p) (core_lines cfgs lines) =
        map snd (filter (\<lambda>x. is_core cfgs p \<and> req_pool_id (snd x) = p) lines)"
      by (auto simp: core_lines_def filter_map o_def intro!: arg_cong[of _ _ "map snd"] filter_cong)
    moreover have "filter (\<lambda>l. req_pool_id l = p) (map snd (cte_lines cfgs lines)) =
        map snd (filter (\<lambda>x. \<not> is_core cfgs p \<and> req_pool_id (snd x) = p) lines)"
      using filter_cte_lines[of lines p cfgs] d by (simp add: filter_map o_def)
    ultimately have "filter (\<lambda>k. fst k = p) ?ks =
        map req_row_key (map snd (filter (\<lambda>x. req_pool_id (snd x) = p) lines))"
      using key[of "core_lines cfgs lines"] key[of "map snd (cte_lines cfgs lines)"]
      by (cases "is_core cfgs p") simp_all
    also have "\<dots> = filter (\<lambda>k. fst k = p) (map (req_row_key \<circ> snd) lines)"
      using key[of "map snd lines"] by (simp add: filter_map o_def)
    finally show "filter (\<lambda>k. fst k = p) ?ks = filter (\<lambda>k. fst k = p) (submitted js)" using d by simp
  next
    fix p assume p: "commutative_pool s p" and rec: "reconciled s1 p"
    then show "reconciled s' p" using c(2)[OF off[OF p]] e by blast
  next
    fix p assume "commutative_pool s p \<or> (submit_ready s \<and> list_all json_i64 js)"
    then have "moved (map req_row_key (core_lines cfgs lines)) s1 s2 p"
      using off core_i64 by (intro c(3)) (auto simp: submit_ready_def)
    moreover have "moved (map (req_row_key \<circ> snd) (cte_lines cfgs lines)) s2 s' p" using e by blast
    ultimately show "moved ?ks s1 s' p" by (simp add: moved_def)
  qed
qed

section \<open>Properties\<close>

text \<open>A database for the witnesses: pool 1 weighted-average with 10 at 100, pool 2 standard cost 50,
  pool 4 first-in first-out and empty; the server's division is exact.\<close>

definition demo_db :: db where
  "demo_db = \<lparr>db_pool =
       [\<lparr>pl_id = 1, pl_sku_id = 1, pl_location_id = 1, pl_method = Wac, pl_basis = RunningAvg\<rparr>,
        \<lparr>pl_id = 2, pl_sku_id = 2, pl_location_id = 1, pl_method = Std, pl_basis = RunningAvg\<rparr>,
        \<lparr>pl_id = 4, pl_sku_id = 4, pl_location_id = 1, pl_method = Fifo, pl_basis = RunningAvg\<rparr>],
     db_accounts = (\<lambda>_. Some demo_accounts), db_standard_cost = [(2, 1) \<mapsto> 50],
     db_trx = [], db_trx_line = [\<lparr>tl_id = 1, tl_trx_id = 1, tl_pool_id = 1,
       tl_line_type = ''po_receipt_line'', tl_source_id = None, tl_qty = 10, tl_unit_cost = 100,
       tl_source_trx_line_id = None, tl_posted_at = 0\<rparr>],
     db_posting = [],
     db_pool_state = [\<lparr>st_pool_id = 1, st_layer_id = 0, st_qty = 10, st_unit_cost = 100, st_value_sum = 1000\<rparr>],
     db_queue = [], db_settlement = [], db_cost_settlement = [], db_consumption = [], db_escalation = [],
     db_backlog = [], db_backpressure = [], db_bound_events = 200, db_low_water = 20, db_period = [],
     db_next_trx = 2, db_next_line = 2, db_next_posting = 1, db_next_adjustment = 1, db_now = 0,
     db_quot = (\<lambda>n d. n sdiv d)\<rparr>"

definition demo_json :: "i64 \<Rightarrow> i64 \<Rightarrow> i64 \<Rightarrow> LineJson" where
  "demo_json p q c = \<lparr>lj_pool_id = p, lj_line_type = ''po_receipt_line'', lj_source_id = None,
     lj_qty = q, lj_unit_cost = c\<rparr>"

definition demo_submission :: "LineJson list" where
  "demo_submission = [demo_json 4 3 10, demo_json 2 4 55, demo_json 1 5 103, demo_json 4 (- 1) 0]"

lemma demo_db_ready: "submit_ready demo_db"
  by (auto simp: submit_ready_def snapshot_wf_def hydrate_snapshot_def empty_snapshot_def Let_def
      demo_db_def pool_of_def find_key_def aggregate_rows_def specific_rows_def snapshot_row_def
      pool_wf_def row_i64_def layers_of_def i64_defs banker_round_def split: if_splits)

lemma demo_submission_i64: "list_all json_i64 demo_submission"
  by (simp add: demo_submission_def demo_json_def json_i64_def i64_defs)

lemma demo_submission_ok: "\<exists>i s'. apply_submission ''po_receipt'' 7 5 demo_submission True demo_db = Inr (i, s')"
proof -
  have "is_ok (apply_submission ''po_receipt'' 7 5 demo_submission True demo_db)" by code_simp
  then show ?thesis by (auto simp: is_ok_iff)
qed

text \<open>
  C18. A successful submission records exactly what it was given: one transaction row, and for every
  pool the submitted lines of non-zero quantity with their quantity, type and source, in submission
  order, all under the new transaction and its posting time, whichever of the two phases handled
  them. Nothing that was recorded before is touched.
\<close>
theorem submission_records:
  assumes "apply_submission ty src t js enforce s = Inr (trx_id, s')" "0 < db_next_line s"
  shows "db_trx s' = db_trx s @
      [\<lparr>tr_id = trx_id, tr_trx_type = ty, tr_source_id = src, tr_posted_at = t\<rparr>] \<and>
    (\<exists>rs. db_trx_line s' = db_trx_line s @ rs \<and>
      list_all (\<lambda>r. tl_trx_id r = trx_id \<and> tl_posted_at r = t) rs \<and>
      (\<forall>p. map row_key (filter (\<lambda>r. tl_pool_id r = p) rs) = filter (\<lambda>k. fst k = p) (submitted js)))"
proof (rule submission_effect[OF assms])
  fix ks s1
  assume ks: "\<And>p. filter (\<lambda>k. fst k = p) ks = filter (\<lambda>k. fst k = p) (submitted js)"
    and mv: "recorded trx_id t ks s1 s'"
    and s1: "s1 = s\<lparr>db_trx := db_trx s @ [\<lparr>tr_id = trx_id, tr_trx_type = ty, tr_source_id = src,
       tr_posted_at = t\<rparr>], db_next_trx := db_next_trx s + 1\<rparr>"
  obtain rs where rs: "db_trx_line s' = db_trx_line s1 @ rs" "map row_key rs = ks"
    "list_all (\<lambda>r. tl_trx_id r = trx_id \<and> tl_posted_at r = t \<and> tl_line_type r \<noteq> cost_adjustment_line) rs"
    using mv by (auto simp: recorded_def)
  have "map row_key (filter (\<lambda>r. tl_pool_id r = p) rs) = filter (\<lambda>k. fst k = p) (map row_key rs)" for p
    by (simp add: filter_map o_def row_key_def)
  then show ?thesis
    using rs ks mv trx_frame[OF s1] s1 by (auto simp: recorded_def same_reference_def list_all_iff)
qed

theorem submission_records_witness:
  "\<exists>i s' rs. apply_submission ''po_receipt'' 7 5 demo_submission True demo_db = Inr (i, s') \<and>
    db_trx_line s' = db_trx_line demo_db @ rs \<and> length (db_trx s') = 1 \<and>
    map row_key (filter (\<lambda>r. tl_pool_id r = 4) rs) =
      [(4, 3, ''po_receipt_line'', None), (4, - 1, ''po_receipt_line'', None)]"
proof -
  obtain i s' where eq: "apply_submission ''po_receipt'' 7 5 demo_submission True demo_db = Inr (i, s')"
    using demo_submission_ok by blast
  have "0 < db_next_line demo_db" "db_trx demo_db = []"
    "filter (\<lambda>k. fst k = 4) (submitted demo_submission) =
      [(4, 3, ''po_receipt_line'', None), (4, - 1, ''po_receipt_line'', None)]"
    by code_simp+
  then show ?thesis using submission_records[OF eq] eq by fastforce
qed

text \<open>
  C5. The hot path keeps the books reconciled. For the weighted-average, FIFO and LIFO pools, if the
  aggregate quantity is the sum of the recorded lines and the aggregate value their commit-order
  fold, flushed to zero whenever the quantity reaches zero, both still hold after any submission; and
  if the snapshots of the database are well formed, the quantity stays reconciled for every pool.
  These are the checks V1 and V2 of the verifier.
\<close>
theorem submission_reconciles:
  assumes "apply_submission ty src t js enforce s = Inr (trx_id, s')" "0 < db_next_line s"
  shows "(commutative_pool s p \<and> reconciled s p \<longrightarrow> reconciled s' p) \<and>
    (submit_ready s \<and> list_all json_i64 js \<and> qty_reconciled s p \<longrightarrow> qty_reconciled s' p)"
proof (rule submission_effect[OF assms])
  fix ks s1
  assume mv: "recorded trx_id t ks s1 s'"
    and s1: "s1 = s\<lparr>db_trx := db_trx s @ [\<lparr>tr_id = trx_id, tr_trx_type = ty, tr_source_id = src,
       tr_posted_at = t\<rparr>], db_next_trx := db_next_trx s + 1\<rparr>"
    and rec: "\<And>p. commutative_pool s p \<Longrightarrow> reconciled s1 p \<Longrightarrow> reconciled s' p"
    and qty: "\<And>p. commutative_pool s p \<or> (submit_ready s \<and> list_all json_i64 js) \<Longrightarrow> moved ks s1 s' p"
  note frame = trx_frame[OF s1]
  have "qty_reconciled s' p" if "submit_ready s \<and> list_all json_i64 js \<and> qty_reconciled s p"
    using that qty[of p] recorded_events[OF mv, of p] by (simp add: qty_reconciled_def moved_def frame)
  moreover have "reconciled s1 p = reconciled s p" by (simp add: reconciled_def frame)
  ultimately show ?thesis using rec by blast
qed

theorem submission_reconciles_witness:
  "\<exists>i s'. apply_submission ''po_receipt'' 7 5 demo_submission True demo_db = Inr (i, s') \<and>
    reconciled s' 1 \<and> reconciled s' 4 \<and> qty_reconciled s' 2"
proof -
  obtain i s' where eq: "apply_submission ''po_receipt'' 7 5 demo_submission True demo_db = Inr (i, s')"
    using demo_submission_ok by blast
  have "commutative_pool demo_db 1 \<and> reconciled demo_db 1" "commutative_pool demo_db 4 \<and> reconciled demo_db 4"
    "qty_reconciled demo_db 2" "0 < db_next_line demo_db"
    by code_simp+
  then show ?thesis
    using submission_reconciles[OF eq] demo_db_ready demo_submission_i64 eq by blast
qed



text \<open>
  Admission control on the direct path is exact: a submission whose lines decode is rejected with
  SQLSTATE 53400 if it has a line of non-zero quantity on a throttled pool, before anything is
  resolved or written, and one that succeeds touched no throttled pool.
\<close>
theorem submission_admission:
  assumes "decode_lines 0 js = Inr lines"
  shows "if \<exists>p \<in> fst ` set (submitted js). p \<in> fst ` set (db_backpressure s)
    then apply_submission ty src t js True s =
      Inl (Raised ''53400'' ''ledger_submit_trx: pool is backpressure-throttled'')
    else apply_submission ty src t js True s = apply_submission ty src t js False s"
proof -
  let ?touched = "btree_set (map (req_pool_id \<circ> snd) lines)"
  have eq: "submitted js = map (req_row_key \<circ> snd) lines" using decode_lines_ok[OF assms] by simp
  have "fst ` set (submitted js) = set ?touched"
    unfolding eq by (simp add: req_row_key_def image_image o_def)
  moreover have "(\<exists>p \<in> A. p \<in> fst ` set xs) \<longleftrightarrow> filter (\<lambda>(p, _). p \<in> A) xs \<noteq> []"
    for A and xs :: "(i64 \<times> i64) list"
    by (induction xs) auto
  ultimately have hit: "(\<exists>p \<in> fst ` set (submitted js). p \<in> fst ` set (db_backpressure s)) \<longleftrightarrow>
      filter (\<lambda>(p, _). p \<in> set ?touched) (db_backpressure s) \<noteq> []"
    by metis
  have len: "sort_key fst xs = [] \<longleftrightarrow> xs = []" for xs :: "(i64 \<times> i64) list"
    using length_sort[of fst xs] by (metis length_0_conv)
  have "check_backpressure ?touched s =
      (if filter (\<lambda>(p, _). p \<in> set ?touched) (db_backpressure s) \<noteq> []
       then Inl (Raised ''53400'' ''ledger_submit_trx: pool is backpressure-throttled'') else Inr ((), s))"
    using len[of "filter (\<lambda>(p, _). p \<in> set ?touched) (db_backpressure s)"]
    by (auto simp: check_backpressure_def split: list.splits)
  then show ?thesis unfolding hit
    by (simp add: apply_submission_def assms Let_def tx_bind_def)
qed

theorem submission_admission_witness:
  "apply_submission ''po_receipt'' 7 5 demo_submission True (demo_db\<lparr>db_backpressure := [(4, 200)]\<rparr>) =
    Inl (Raised ''53400'' ''ledger_submit_trx: pool is backpressure-throttled'')"
proof -
  have "is_ok (decode_lines 0 demo_submission)" by code_simp
  then obtain lines where "decode_lines 0 demo_submission = Inr lines" by (auto simp: is_ok_iff)
  moreover have "4 \<in> fst ` set (submitted demo_submission)" by code_simp
  ultimately show ?thesis
    using submission_admission[of demo_submission lines "demo_db\<lparr>db_backpressure := [(4, 200)]\<rparr>"
        "''po_receipt''" 7 5]
    by (auto split: if_splits)
qed

section \<open>The ledger-core phase against its plan\<close>


definition demo_std_lines :: "TrxLineRequest list" where
  "demo_std_lines = [demo_line 2 4 55]"


text \<open>
  A submission cannot carry two lines of non-zero quantity for one standard-cost or specific pool.
  Each plans fine, but the plan then holds two upserts of the pool's aggregate row, which are never
  coalesced before the single \<open>INSERT .. ON CONFLICT DO UPDATE\<close> they are written with, and the server
  refuses to update a row twice in one command: the ledger-core phase fails.
\<close>
theorem core_phase_rejects_repeated_pool:
  assumes "\<not> distinct (map req_pool_id (filter (\<lambda>l. req_qty l \<noteq> 0) lines))" "0 < db_next_line s"
  shows "\<not> is_ok (core_phase trx_id t lines s)"
proof
  assume "is_ok (core_phase trx_id t lines s)"
  then obtain u s' where "core_phase trx_id t lines s = Inr (u, s')" by (auto simp: is_ok_iff)
  then show False
    by (rule core_phase_ok[of trx_id t lines s u s']) (use assms in auto)
qed

theorem core_phase_rejects_repeated_pool_witness:
  "is_ok (fst (plan_apply (hydrate_snapshot [2] demo_db) [demo_line 2 4 50, demo_line 2 1 50] 5)) \<and>
    \<not> is_ok (core_phase 9 5 [demo_line 2 4 50, demo_line 2 1 50] demo_db)"
proof
  show "is_ok (fst (plan_apply (hydrate_snapshot [2] demo_db) [demo_line 2 4 50, demo_line 2 1 50] 5))"
    by code_simp
  show "\<not> is_ok (core_phase 9 5 [demo_line 2 4 50, demo_line 2 1 50] demo_db)"
    by (rule core_phase_rejects_repeated_pool)
      (simp_all add: demo_db_def demo_line_def)
qed

section \<open>The weighted-average statements against the core\<close>

lemma apply_wac_signs:
  assumes "method_of snap (req_pool_id l) = Some Wac" "req_qty l \<noteq> 0"
  shows "apply_wac snap l res t =
    (if 0 < req_qty l then aggregate_receipt snap l res t
     else aggregate_deplete snap l res t (agg_unit_cost snap (req_pool_id l)))"
  using assms by (simp add: apply_wac_def expect_method_def read_aggregate_eq Let_def)

lemma is_ok_expect_row: "is_ok (expect_row c s) \<Longrightarrow> is_ok (c s)"
  by (auto simp: expect_row_def is_ok_iff tx_bind_Inr)



text \<open>
  The running average of a weighted-average pool can go negative and then blocks the pool. From
  receipts of 2 at 0 and 3 at 1, whose average rounds up to 1, a depletion of 4 is recorded at that
  average and leaves one unit worth minus 1; depleting that unit is refused by the constraint that a
  recorded unit cost is not negative, although the unit is on hand.
\<close>
theorem wac_negative_average_blocks:
  "let empty_pool = demo_db\<lparr>db_pool_state := [], db_trx_line := []\<rparr>;
       submit = (\<lambda>src q c. apply_submission ''po_receipt'' src 5 [demo_json 1 q c] True);
       received = tx_bind (submit 1 2 0) (\<lambda>_. submit 2 3 1);
       depleted = tx_bind received (\<lambda>_. submit 3 (- 4) 0)
   in (case depleted empty_pool of
         Inl _ \<Rightarrow> False
       | Inr (_, s) \<Rightarrow> db_view s 1 = (1, - 1, - 1) \<and>
           (case submit 4 (- 1) 0 s of
              Inl e \<Rightarrow> e = Check_violation ''trx_line_unit_cost_nonneg'' | Inr _ \<Rightarrow> False))"
  by code_simp

section \<open>Lock order\<close>

text \<open>The locks a submission takes and holds to its end, in order: the pool rows of the ledger-core
  phase (tier 0), then the aggregate rows its statements update (tier 1).\<close>

definition submission_locks ::
  "(i64 \<rightharpoonup> PoolCfg) \<Rightarrow> (nat \<times> TrxLineRequest) list \<Rightarrow> db \<Rightarrow> (nat \<times> i64) list" where
  "submission_locks cfgs lines s =
    map (Pair 0) (lock_pool_rows (btree_set (map req_pool_id (core_lines cfgs lines))) s) @
    map (\<lambda>x. (1, req_pool_id (snd x))) (cte_lines cfgs lines)"

text \<open>A transaction is its lock sequence and the number of locks it has; it waits on another one if
  the next lock it needs, which it does not have, is held by the other.\<close>

definition waits_on :: "'l list \<times> nat \<Rightarrow> 'l list \<times> nat \<Rightarrow> bool" where
  "waits_on x y \<longleftrightarrow>
    (case (x, y) of ((xs, i), (ys, j)) \<Rightarrow>
      i < length xs \<and> xs ! i \<notin> set (take i xs) \<and> xs ! i \<in> set (take j ys))"

lemma ordered_locks_no_cycle:
  fixes T :: "('l :: linorder list \<times> nat) set"
  assumes fin: "finite T" "T \<noteq> {}" and srt: "\<And>x. x \<in> T \<Longrightarrow> sorted (fst x)"
  shows "\<exists>x \<in> T. \<forall>y \<in> T. \<not> waits_on x y"
proof (rule ccontr)
  assume "\<not> ?thesis"
  then have w: "\<exists>y \<in> T. waits_on x y" if "x \<in> T" for x using that by blast
  let ?next = "\<lambda>(xs, i). xs ! i"
  obtain x where x: "x \<in> T" "\<And>y. y \<in> T \<Longrightarrow> ?next y \<le> ?next x"
    using fin obtains_MAX[of T ?next] Max_ge[of "?next ` T"] by (metis finite_imageI imageI)
  obtain y where y: "y \<in> T" "waits_on x y" using w x(1) by blast
  obtain z where z: "waits_on y z" using w y(1) by blast
  obtain xs i ys j where xy: "x = (xs, i)" "y = (ys, j)" by fastforce
  obtain m where m: "m < j" "j < length ys" "xs ! i = ys ! m" "ys ! j \<notin> set (take j ys)"
    using y(2) z by (auto simp: waits_on_def xy in_set_conv_nth split: prod.splits)
  have "ys ! m \<le> ys ! j" using srt[OF y(1)] m by (simp add: xy sorted_nth_mono)
  moreover have "ys ! m \<noteq> ys ! j" using m by (metis in_set_conv_nth length_take min.absorb4 nth_take)
  ultimately show False using x(2)[OF y(1)] m(3) by (simp add: xy)
qed

lemma sorted_submission_locks: "sorted (submission_locks cfgs lines s)"
proof -
  have "sorted (map (Pair (0 :: nat)) (lock_pool_rows ids s))" for ids
    using sorted_lock_pool_rows[of ids s] by (simp add: sorted_map sorted_wrt_map)
  moreover have "sorted (map (\<lambda>x. (1 :: nat, req_pool_id (snd x))) (cte_lines cfgs lines))"
  proof -
    have "sorted_wrt (\<lambda>x y. (req_pool_id (snd x), fst x) \<le> (req_pool_id (snd y), fst y)) (cte_lines cfgs lines)"
      using sorted_sort_key[of "\<lambda>(idx, l). (req_pool_id l, idx)"
          "filter (\<lambda>(_, l). \<not> is_core cfgs (req_pool_id l)) lines"]
      by (simp add: cte_lines_def sorted_map case_prod_unfold)
    then show ?thesis by (auto simp: sorted_map elim!: sorted_wrt_mono_rel[rotated])
  qed
  ultimately show ?thesis by (auto simp: submission_locks_def sorted_append)
qed



end
