(* ===== verification/Strict.thy ===== *)
theory Strict
  imports Numeric
begin

text \<open>
  The strict layer walk of the recalculation engine, \<open>ledger-core/src/strict.rs\<close>, with
  the FIFO and LIFO entry points of \<open>fifo.rs\<close> and \<open>lifo.rs\<close>, and the independent
  reference walk of the verifier, \<open>ledger-bench/src/verify.rs\<close>. Layers are lists with
  the oldest first, as in the \<open>VecDeque\<close> of the source. A panic of \<open>banker_div\<close> (a
  zero-quantity event) is the result \<^term>\<open>None\<close>. Layer quantities are positive, so the
  unchecked subtractions of the walk stay in range and are written without wrapping.
\<close>

section \<open>Data\<close>

record StrictLayer =
  lay_id :: i64
  lay_qty :: i64
  lay_unit_cost :: i64

record StrictEvent =
  ev_trx_line_id :: i64
  ev_qty :: i64
  ev_unit_cost :: i64

record LayerDraw =
  draw_layer :: i64
  draw_qty :: i64
  draw_unit_cost :: i64

record DepletionCosting =
  dep_trx_line_id :: i64
  dep_qty :: i64
  dep_observed :: i64
  dep_authoritative :: i64
  dep_uncovered :: i64
  dep_draws :: "LayerDraw list"

record StrictFoldOutput =
  fold_costings :: "DepletionCosting list"
  fold_layers :: "StrictLayer list"

section \<open>The walk\<close>

text \<open>The \<open>while\<close> loop of one depletion: the layer at the end the method consumes from gives what it
  can, and leaves the queue when it is empty.\<close>

function layer_walk ::
  "bool \<Rightarrow> StrictLayer list \<Rightarrow> i64 \<Rightarrow> i128 \<Rightarrow> LayerDraw list \<Rightarrow>
    StrictLayer list \<times> i64 \<times> i128 \<times> LayerDraw list" where
  "layer_walk newest_first layers remaining acc draws =
    (if remaining > 0 \<and> layers \<noteq> [] then
       (let layer = (if newest_first then last layers else hd layers);
            taken = min remaining (lay_qty layer);
            left = lay_qty layer - taken;
            rest = (if newest_first then butlast layers else tl layers);
            layers' =
              (if left = 0 then rest
               else if newest_first then rest @ [layer\<lparr>lay_qty := left\<rparr>]
               else layer\<lparr>lay_qty := left\<rparr> # rest)
        in layer_walk newest_first layers' (remaining - taken)
             (acc + taken * lay_unit_cost layer)
             (draws @ [\<lparr>draw_layer = lay_id layer, draw_qty = taken,
                        draw_unit_cost = lay_unit_cost layer\<rparr>]))
     else (layers, remaining, acc, draws))"
  by pat_completeness auto
termination
  by (relation "measure (\<lambda>(_, layers, remaining, _, _). length layers + (if remaining > 0 then 1 else 0))")
    (auto simp: min_def Let_def split: if_splits)

declare layer_walk.simps [simp del]

definition strict_event ::
  "bool \<Rightarrow> StrictEvent \<Rightarrow> StrictFoldOutput \<Rightarrow> StrictFoldOutput option" where
  "strict_event newest_first ev out =
    (if ev_qty ev > 0 then
       Some (out\<lparr>fold_layers := fold_layers out @
         [\<lparr>lay_id = ev_trx_line_id ev, lay_qty = ev_qty ev, lay_unit_cost = ev_unit_cost ev\<rparr>]\<rparr>)
     else
       (let qty = wrap_i64 \<bar>ev_qty ev\<bar>;
            (layers, uncovered_qty, drawn, draws) =
              layer_walk newest_first (fold_layers out) qty 0 [];
            total = drawn + uncovered_qty * ev_unit_cost ev
        in case banker_div total qty of
             None \<Rightarrow> None
           | Some authoritative \<Rightarrow>
               Some \<lparr>fold_costings = fold_costings out @
                       [\<lparr>dep_trx_line_id = ev_trx_line_id ev, dep_qty = qty,
                         dep_observed = ev_unit_cost ev, dep_authoritative = authoritative,
                         dep_uncovered = uncovered_qty, dep_draws = draws\<rparr>],
                     fold_layers = layers\<rparr>))"

fun strict_events ::
  "bool \<Rightarrow> StrictEvent list \<Rightarrow> StrictFoldOutput \<Rightarrow> StrictFoldOutput option" where
  "strict_events newest_first [] out = Some out"
| "strict_events newest_first (ev # evs) out =
    Option.bind (strict_event newest_first ev out) (strict_events newest_first evs)"

definition strict_fold ::
  "bool \<Rightarrow> StrictLayer list \<Rightarrow> StrictEvent list \<Rightarrow> StrictFoldOutput option" where
  "strict_fold newest_first opening events =
    strict_events newest_first events \<lparr>fold_costings = [], fold_layers = opening\<rparr>"

definition fifo_strict_fold :: "StrictLayer list \<Rightarrow> StrictEvent list \<Rightarrow> StrictFoldOutput option" where
  "fifo_strict_fold opening events = strict_fold False opening events"

definition lifo_strict_fold :: "StrictLayer list \<Rightarrow> StrictEvent list \<Rightarrow> StrictFoldOutput option" where
  "lifo_strict_fold opening events = strict_fold True opening events"

section \<open>The verifier's reference walk\<close>

type_synonym layer_triple = "i64 \<times> i64 \<times> i64"

definition remove_at :: "nat \<Rightarrow> 'a list \<Rightarrow> 'a list" where
  "remove_at i xs = take i xs @ drop (Suc i) xs"

function reference_drain ::
  "bool \<Rightarrow> layer_triple list \<Rightarrow> i64 \<Rightarrow> i128 \<Rightarrow> layer_triple list \<times> i64 \<times> i128" where
  "reference_drain newest_first layers remaining acc =
    (if remaining > 0 \<and> layers \<noteq> [] then
       (let idx = (if newest_first then length layers - 1 else 0);
            (lid, lqty, lcost) = layers ! idx;
            taken = min remaining lqty;
            layers1 = layers[idx := (lid, lqty - taken, lcost)];
            layers2 = (if lqty - taken = 0 then remove_at idx layers1 else layers1)
        in reference_drain newest_first layers2 (remaining - taken) (acc + taken * lcost))
     else (layers, remaining, acc))"
  by pat_completeness auto
termination
  by (relation "measure (\<lambda>(_, layers, remaining, _). length layers + (if remaining > 0 then 1 else 0))")
    (auto simp: min_def Let_def remove_at_def neq_Nil_conv split: if_splits prod.splits)

declare reference_drain.simps [simp del]

fun reference_walk ::
  "bool \<Rightarrow> (i64 \<times> i64 \<times> i64) list \<Rightarrow> layer_triple list \<Rightarrow> (i64 \<times> i64) list \<Rightarrow>
    ((i64 \<times> i64) list \<times> layer_triple list) option" where
  "reference_walk newest_first [] layers costings = Some (costings, layers)"
| "reference_walk newest_first ((eid, qty, cost) # events) layers costings =
    (if qty > 0 then reference_walk newest_first events (layers @ [(eid, qty, cost)]) costings
     else
       (let want = wrap_i64 (- qty);
            (layers', remaining, acc) = reference_drain newest_first layers want 0
        in case banker_div (acc + remaining * cost) want of
             None \<Rightarrow> None
           | Some c \<Rightarrow> reference_walk newest_first events layers' (costings @ [(eid, c)])))"

section \<open>Unit-by-unit specification\<close>

text \<open>The abstract view of the layers: one entry per unit of stock, oldest first, carrying the layer it
  came from and its cost; and the same view of the draws of a depletion, in the order they are made.\<close>

definition units :: "StrictLayer list \<Rightarrow> (i64 \<times> i64) list" where
  "units ls = concat (map (\<lambda>l. replicate (nat (lay_qty l)) (lay_id l, lay_unit_cost l)) ls)"

definition draw_units :: "LayerDraw list \<Rightarrow> (i64 \<times> i64) list" where
  "draw_units ds = concat (map (\<lambda>d. replicate (nat (draw_qty d)) (draw_layer d, draw_unit_cost d)) ds)"

definition draws_value :: "LayerDraw list \<Rightarrow> int" where
  "draws_value ds = sum_list (map (\<lambda>d. draw_qty d * draw_unit_cost d) ds)"

definition draws_qty :: "LayerDraw list \<Rightarrow> int" where
  "draws_qty ds = sum_list (map draw_qty ds)"

definition layers_value :: "StrictLayer list \<Rightarrow> int" where
  "layers_value ls = sum_list (map (\<lambda>l. lay_qty l * lay_unit_cost l) ls)"

definition layers_qty :: "StrictLayer list \<Rightarrow> int" where
  "layers_qty ls = sum_list (map lay_qty ls)"

definition layers_pos :: "StrictLayer list \<Rightarrow> bool" where
  "layers_pos ls \<longleftrightarrow> list_all (\<lambda>l. 0 < lay_qty l) ls"

lemmas sum_defs = draws_value_def draws_qty_def layers_value_def layers_qty_def

lemma units_simps [simp]:
  "units [] = []"
  "units (l # ls) = replicate (nat (lay_qty l)) (lay_id l, lay_unit_cost l) @ units ls"
  "units (xs @ ys) = units xs @ units ys"
  by (simp_all add: units_def)

lemma draw_units_simps [simp]:
  "draw_units [] = []"
  "draw_units (d # ds) = replicate (nat (draw_qty d)) (draw_layer d, draw_unit_cost d) @ draw_units ds"
  "draw_units (xs @ ys) = draw_units xs @ draw_units ys"
  by (simp_all add: draw_units_def)

lemma units_rev: "units (rev ls) = rev (units ls)"
  by (induction ls) simp_all

lemma length_units: "layers_pos ls \<Longrightarrow> int (length (units ls)) = layers_qty ls"
  by (induction ls) (auto simp: layers_pos_def layers_qty_def)

lemma layers_pos_rev [simp]: "layers_pos (rev ls) = layers_pos ls"
  by (simp add: layers_pos_def)

lemma layers_pos_simps [simp]:
  "layers_pos []" "layers_pos (l # ls) \<longleftrightarrow> 0 < lay_qty l \<and> layers_pos ls"
  "layers_pos (xs @ ys) \<longleftrightarrow> layers_pos xs \<and> layers_pos ys"
  by (simp_all add: layers_pos_def)

lemma sums_rev [simp]: "layers_value (rev ls) = layers_value ls" "layers_qty (rev ls) = layers_qty ls"
  by (simp_all add: layers_value_def layers_qty_def rev_map[symmetric])

section \<open>The walk in closed form\<close>

lemma walk_done:
  "remaining \<le> 0 \<or> layers = [] \<Longrightarrow>
    layer_walk nf layers remaining acc draws = (layers, remaining, acc, draws)"
  by (subst layer_walk.simps) auto

definition draw_of :: "StrictLayer \<Rightarrow> i64 \<Rightarrow> LayerDraw" where
  "draw_of l q = \<lparr>draw_layer = lay_id l, draw_qty = q, draw_unit_cost = lay_unit_cost l\<rparr>"

lemma walk_fifo_Cons:
  assumes "0 < remaining" "0 < lay_qty l"
  shows "layer_walk False (l # ls) remaining acc draws =
    (if remaining < lay_qty l
     then (l\<lparr>lay_qty := lay_qty l - remaining\<rparr> # ls, 0, acc + remaining * lay_unit_cost l,
           draws @ [draw_of l remaining])
     else layer_walk False ls (remaining - lay_qty l) (acc + lay_qty l * lay_unit_cost l)
           (draws @ [draw_of l (lay_qty l)]))"
  using assms
  by (subst layer_walk.simps) (auto simp: Let_def min_def draw_of_def walk_done)

lemma walk_lifo_rev:
  "layer_walk True ls remaining acc draws =
    (case layer_walk False (rev ls) remaining acc draws of (ls', r) \<Rightarrow> (rev ls', r))"
proof (induction "length ls + (if remaining > 0 then 1 else 0)" arbitrary: ls remaining acc draws
    rule: less_induct)
  case less
  show ?case
  proof (cases "remaining > 0 \<and> ls \<noteq> []")
    case True
    then obtain xs l where ls: "ls = xs @ [l]" by (metis rev_exhaust)
    define taken where "taken = min remaining (lay_qty l)"
    define xs' where "xs' = (if lay_qty l - taken = 0 then xs
      else xs @ [l\<lparr>lay_qty := lay_qty l - taken\<rparr>])"
    have dec: "length xs' + (if remaining - taken > 0 then 1 else 0) <
        length ls + (if remaining > 0 then 1 else 0)"
      using True by (auto simp: xs'_def taken_def ls min_def)
    have "layer_walk True ls remaining acc draws =
        layer_walk True xs' (remaining - taken) (acc + taken * lay_unit_cost l)
          (draws @ [draw_of l taken])"
      using True by (subst layer_walk.simps) (simp add: ls xs'_def taken_def draw_of_def Let_def)
    moreover have "layer_walk False (rev ls) remaining acc draws =
        layer_walk False (rev xs') (remaining - taken) (acc + taken * lay_unit_cost l)
          (draws @ [draw_of l taken])"
      using True by (subst layer_walk.simps) (simp add: ls xs'_def taken_def draw_of_def Let_def)
    ultimately show ?thesis using less[OF dec] by simp
  next
    case False
    then show ?thesis by (auto simp: walk_done)
  qed
qed

text \<open>What one walk does to positive layers, in the order of consumption.\<close>

lemma walk_fifo_spec:
  assumes "layers_pos ls" "0 \<le> remaining"
    "layer_walk False ls remaining acc draws = (ls', left, acc', draws')"
  shows "\<exists>es. draws' = draws @ es \<and> acc' = acc + draws_value es \<and>
    draws_qty es + left = remaining \<and> 0 \<le> left \<and> (left = 0 \<or> ls' = []) \<and>
    units ls' = drop (nat remaining) (units ls) \<and> draw_units es = take (nat remaining) (units ls) \<and>
    layers_pos ls' \<and> list_all (\<lambda>d. 0 < draw_qty d) es \<and>
    map draw_layer es = take (length es) (map lay_id ls) \<and>
    layers_value ls = layers_value ls' + draws_value es \<and>
    (\<exists>ys. map lay_id ls = ys @ map lay_id ls')"
  using assms
proof (induction ls arbitrary: remaining acc draws)
  case Nil
  then show ?case by (intro exI[of _ "[]"]) (auto simp: walk_done sum_defs)
next
  case (Cons l ls)
  show ?case
  proof (cases "0 < remaining")
    case False
    then show ?thesis using Cons.prems by (intro exI[of _ "[]"]) (auto simp: walk_done sum_defs)
  next
    case pos: True
    have l: "0 < lay_qty l" "layers_pos ls" using Cons.prems(1) by auto
    show ?thesis
    proof (cases "remaining < lay_qty l")
      case True
      then have "ls' = l\<lparr>lay_qty := lay_qty l - remaining\<rparr> # ls" "left = 0"
        "acc' = acc + remaining * lay_unit_cost l" "draws' = draws @ [draw_of l remaining]"
        using Cons.prems(3) pos l by (auto simp: walk_fifo_Cons)
      then show ?thesis
        using pos l True
        by (intro exI[of _ "[draw_of l remaining]"])
          (auto simp: sum_defs draw_of_def nat_diff_distrib algebra_simps)
    next
      case False
      let ?rest = "layer_walk False ls (remaining - lay_qty l) (acc + lay_qty l * lay_unit_cost l)
          (draws @ [draw_of l (lay_qty l)])"
      have eq: "?rest = (ls', left, acc', draws')"
        using Cons.prems(3) pos l False by (simp add: walk_fifo_Cons)
      have "0 \<le> remaining - lay_qty l" using False by simp
      from Cons.IH[OF l(2) this eq] obtain es where
        es: "draws' = (draws @ [draw_of l (lay_qty l)]) @ es"
          "acc' = acc + lay_qty l * lay_unit_cost l + draws_value es"
          "draws_qty es + left = remaining - lay_qty l" "0 \<le> left" "left = 0 \<or> ls' = []"
          "units ls' = drop (nat (remaining - lay_qty l)) (units ls)"
          "draw_units es = take (nat (remaining - lay_qty l)) (units ls)"
          "layers_pos ls'" "list_all (\<lambda>d. 0 < draw_qty d) es"
          "map draw_layer es = take (length es) (map lay_id ls)"
          "layers_value ls = layers_value ls' + draws_value es"
          "\<exists>ys. map lay_id ls = ys @ map lay_id ls'"
        by blast
      have n: "nat remaining = nat (lay_qty l) + nat (remaining - lay_qty l)" using l False by simp
      have "units ls' = drop (nat remaining) (units (l # ls))"
        "draw_units (draw_of l (lay_qty l) # es) = take (nat remaining) (units (l # ls))"
        using es(6,7) unfolding n by (simp_all add: draw_of_def)
      moreover obtain ys where "map lay_id ls = ys @ map lay_id ls'" using es(12) by blast
      ultimately show ?thesis
        using es l
        by (intro exI[of _ "draw_of l (lay_qty l) # es"])
          (auto simp: sum_defs draw_of_def intro: exI[of _ "lay_id l # ys"])
    qed
  qed
qed

text \<open>The order in which a method consumes: FIFO from the front, LIFO from the back.\<close>

definition in_order :: "bool \<Rightarrow> 'a list \<Rightarrow> 'a list" where
  "in_order nf xs = (if nf then rev xs else xs)"

lemma in_order_simps [simp]: "length (in_order nf xs) = length xs" "set (in_order nf xs) = set xs"
  "in_order nf (in_order nf xs) = xs" "distinct (in_order nf xs) = distinct xs"
  by (simp_all add: in_order_def)

lemma walk_spec:
  assumes "layers_pos ls" "0 \<le> remaining"
    "layer_walk nf ls remaining acc draws = (ls', left, acc', draws')"
  obtains es ys where "draws' = draws @ es" "acc' = acc + draws_value es"
    "draws_qty es + left = remaining" "0 \<le> left" "left = 0 \<or> ls' = []"
    "units ls' = in_order nf (drop (nat remaining) (in_order nf (units ls)))"
    "draw_units es = take (nat remaining) (in_order nf (units ls))"
    "layers_pos ls'" "list_all (\<lambda>d. 0 < draw_qty d) es"
    "map draw_layer es = take (length es) (in_order nf (map lay_id ls))"
    "layers_value ls = layers_value ls' + draws_value es"
    "in_order nf (map lay_id ls) = ys @ in_order nf (map lay_id ls')"
proof (cases nf)
  case False
  then show ?thesis
    using walk_fifo_spec[OF assms(1,2), of acc draws ls' left acc' draws'] assms(3)
    by (auto simp: in_order_def intro: that)
next
  case True
  define zs where "zs = rev ls'"
  have "layer_walk False (rev ls) remaining acc draws = (zs, left, acc', draws')"
    using assms(3) True by (auto simp: walk_lifo_rev zs_def split: prod.splits)
  from walk_fifo_spec[OF _ assms(2) this] assms(1) obtain es ys where
    es: "draws' = draws @ es" "acc' = acc + draws_value es" "draws_qty es + left = remaining"
      "0 \<le> left" "left = 0 \<or> zs = []" "units zs = drop (nat remaining) (units (rev ls))"
      "draw_units es = take (nat remaining) (units (rev ls))" "layers_pos zs"
      "list_all (\<lambda>d. 0 < draw_qty d) es" "map draw_layer es = take (length es) (map lay_id (rev ls))"
      "layers_value (rev ls) = layers_value zs + draws_value es"
      "map lay_id (rev ls) = ys @ map lay_id zs"
    by auto
  have "units ls' = rev (drop (nat remaining) (units (rev ls)))"
    using es(6) units_rev[of zs] by (simp add: zs_def)
  then show ?thesis
    using True es by (intro that[of es ys]) (auto simp: in_order_def units_rev rev_map zs_def)
qed

section \<open>Facts about the fold\<close>

definition event_wf :: "StrictEvent \<Rightarrow> bool" where
  "event_wf ev \<longleftrightarrow> ev_qty ev \<noteq> 0 \<and> is_i64 \<bar>ev_qty ev\<bar> \<and> is_i64 (ev_unit_cost ev)"

definition layers_wf :: "StrictLayer list \<Rightarrow> bool" where
  "layers_wf ls \<longleftrightarrow> layers_pos ls \<and> list_all (\<lambda>l. is_i64 (lay_unit_cost l)) ls"

text \<open>A depletion's costing is sound when its draws are positive, they and the uncovered rest make up
  its quantity, and its cost is the rounded mean of the draws and the rest at the observed cost.\<close>

definition costing_sound :: "DepletionCosting \<Rightarrow> bool" where
  "costing_sound c \<longleftrightarrow>
    0 < dep_qty c \<and> 0 \<le> dep_uncovered c \<and> list_all (\<lambda>d. 0 < draw_qty d) (dep_draws c) \<and>
    draws_qty (dep_draws c) + dep_uncovered c = dep_qty c \<and>
    dep_authoritative c =
      banker_round (draws_value (dep_draws c) + dep_uncovered c * dep_observed c) (dep_qty c)"

lemma draws_value_bounds:
  assumes "list_all (\<lambda>d. 0 < draw_qty d \<and> lo \<le> draw_unit_cost d \<and> draw_unit_cost d \<le> hi) ds"
  shows "lo * draws_qty ds \<le> draws_value ds" "draws_value ds \<le> hi * draws_qty ds"
proof -
  have "lo * draws_qty ds \<le> draws_value ds \<and> draws_value ds \<le> hi * draws_qty ds"
    using assms
  proof (induction ds)
    case (Cons d ds)
    have "lo * draw_qty d \<le> draw_qty d * draw_unit_cost d"
      "draw_qty d * draw_unit_cost d \<le> hi * draw_qty d"
      using Cons.prems by (auto simp: mult.commute[of "draw_qty d"] intro!: mult_right_mono)
    with Cons show ?case by (simp add: sum_defs distrib_left add_mono)
  qed (simp add: sum_defs)
  then show "lo * draws_qty ds \<le> draws_value ds" "draws_value ds \<le> hi * draws_qty ds" by auto
qed

lemma draw_units_cost:
  "list_all (\<lambda>d. 0 < draw_qty d) ds \<Longrightarrow> d \<in> set ds \<Longrightarrow>
    (draw_layer d, draw_unit_cost d) \<in> set (draw_units ds)"
  by (auto simp: draw_units_def list_all_iff set_replicate_conv_if intro!: bexI[of _ d])

lemma units_cost:
  "(i, c) \<in> set (units ls) \<Longrightarrow> \<exists>l\<in>set ls. lay_id l = i \<and> lay_unit_cost l = c"
  by (auto simp: units_def set_replicate_conv_if split: if_splits)

text \<open>One depletion event, with its walk opened.\<close>

lemma strict_event_depletion:
  assumes "layers_pos (fold_layers out)" "ev_qty ev < 0" "is_i64 (- ev_qty ev)"
    "is_i64 lo" "is_i64 hi"
    "list_all (\<lambda>l. lo \<le> lay_unit_cost l \<and> lay_unit_cost l \<le> hi) (fold_layers out)"
    "lo \<le> ev_unit_cost ev" "ev_unit_cost ev \<le> hi"
  obtains ls c ys where
    "strict_event nf ev out = Some \<lparr>fold_costings = fold_costings out @ [c], fold_layers = ls\<rparr>"
    "costing_sound c" "dep_trx_line_id c = ev_trx_line_id ev" "dep_qty c = - ev_qty ev"
    "dep_observed c = ev_unit_cost ev" "lo \<le> dep_authoritative c" "dep_authoritative c \<le> hi"
    "dep_uncovered c = 0 \<or> ls = []"
    "draw_units (dep_draws c) = take (nat (- ev_qty ev)) (in_order nf (units (fold_layers out)))"
    "units ls = in_order nf (drop (nat (- ev_qty ev)) (in_order nf (units (fold_layers out))))"
    "layers_pos ls" "layers_value (fold_layers out) = layers_value ls + draws_value (dep_draws c)"
    "map draw_layer (dep_draws c) =
      take (length (dep_draws c)) (in_order nf (map lay_id (fold_layers out)))"
    "in_order nf (map lay_id (fold_layers out)) = ys @ in_order nf (map lay_id ls)"
proof -
  let ?q = "- ev_qty ev"
  obtain ls left v ds where walk: "layer_walk nf (fold_layers out) ?q 0 [] = (ls, left, v, ds)"
    by (metis prod_cases4)
  obtain ys where w: "v = draws_value ds" "draws_qty ds + left = ?q" "0 \<le> left"
      "left = 0 \<or> ls = []"
      "units ls = in_order nf (drop (nat ?q) (in_order nf (units (fold_layers out))))"
      "draw_units ds = take (nat ?q) (in_order nf (units (fold_layers out)))"
      "layers_pos ls" "list_all (\<lambda>d. 0 < draw_qty d) ds"
      "map draw_layer ds = take (length ds) (in_order nf (map lay_id (fold_layers out)))"
      "layers_value (fold_layers out) = layers_value ls + draws_value ds"
      "in_order nf (map lay_id (fold_layers out)) = ys @ in_order nf (map lay_id ls)"
    by (rule walk_spec[OF assms(1) _ walk]) (use assms(2) in auto)
  have "lo \<le> draw_unit_cost d \<and> draw_unit_cost d \<le> hi" if "d \<in> set ds" for d
  proof -
    have "(draw_layer d, draw_unit_cost d) \<in> set (units (fold_layers out))"
      using draw_units_cost[OF w(8) that] w(6) in_set_takeD by fastforce
    then show ?thesis using assms(6) by (auto simp: list_all_iff dest!: units_cost)
  qed
  then have "lo * draws_qty ds \<le> v" "v \<le> hi * draws_qty ds"
    using draws_value_bounds[of lo hi ds] w(1,8) by (auto simp: list_all_iff)
  moreover have "left * lo \<le> left * ev_unit_cost ev" "left * ev_unit_cost ev \<le> left * hi"
    using w(3) assms(7,8) by (auto intro: mult_left_mono)
  ultimately have b: "lo * ?q \<le> v + left * ev_unit_cost ev" "v + left * ev_unit_cost ev \<le> hi * ?q"
    unfolding w(2)[symmetric] by (auto simp: algebra_simps)
  let ?a = "banker_round (v + left * ev_unit_cost ev) ?q"
  have "banker_div (v + left * ev_unit_cost ev) ?q = Some ?a"
    using banker_div_mean[OF _ assms(4,5) b] assms(2) by simp
  moreover have "lo \<le> ?a" "?a \<le> hi" using banker_round_ge[OF _ b(1)] banker_round_le[OF _ b(2)] assms(2)
    by auto
  ultimately show ?thesis
    using w walk assms(2,3) wrap_i64_id[OF assms(3)]
    by (intro that[of "\<lparr>dep_trx_line_id = ev_trx_line_id ev, dep_qty = ?q,
          dep_observed = ev_unit_cost ev, dep_authoritative = ?a, dep_uncovered = left, dep_draws = ds\<rparr>" ls ys])
      (auto simp: strict_event_def costing_sound_def Let_def)
qed

definition event_in :: "i64 \<Rightarrow> i64 \<Rightarrow> StrictEvent \<Rightarrow> bool" where
  "event_in lo hi ev \<longleftrightarrow>
    ev_qty ev \<noteq> 0 \<and> is_i64 \<bar>ev_qty ev\<bar> \<and> lo \<le> ev_unit_cost ev \<and> ev_unit_cost ev \<le> hi"

definition layers_in :: "i64 \<Rightarrow> i64 \<Rightarrow> StrictLayer list \<Rightarrow> bool" where
  "layers_in lo hi ls \<longleftrightarrow>
    layers_pos ls \<and> list_all (\<lambda>l. lo \<le> lay_unit_cost l \<and> lay_unit_cost l \<le> hi) ls"

definition receipts_value :: "StrictEvent list \<Rightarrow> int" where
  "receipts_value evs =
    sum_list (map (\<lambda>ev. if ev_qty ev > 0 then ev_qty ev * ev_unit_cost ev else 0) evs)"

definition costings_value :: "DepletionCosting list \<Rightarrow> int" where
  "costings_value cs = sum_list (map (\<lambda>c. draws_value (dep_draws c)) cs)"

definition costing_for :: "i64 \<Rightarrow> i64 \<Rightarrow> StrictEvent \<Rightarrow> DepletionCosting \<Rightarrow> bool" where
  "costing_for lo hi ev c \<longleftrightarrow>
    costing_sound c \<and> dep_trx_line_id c = ev_trx_line_id ev \<and> dep_qty c = - ev_qty ev \<and>
    dep_observed c = ev_unit_cost ev \<and> lo \<le> dep_authoritative c \<and> dep_authoritative c \<le> hi"

lemma layer_cost_in_units:
  assumes "layers_pos ls" "l \<in> set ls"
  shows "(lay_id l, lay_unit_cost l) \<in> set (units ls)"
  using assms by (auto simp: units_def layers_pos_def list_all_iff set_replicate_conv_if intro!: bexI[of _ l])

lemma layers_in_consumed:
  assumes "layers_in lo hi ls" "layers_pos ls'" "set (units ls') \<subseteq> set (units ls)"
  shows "layers_in lo hi ls'"
proof -
  have "lo \<le> lay_unit_cost l \<and> lay_unit_cost l \<le> hi" if "l \<in> set ls'" for l
  proof -
    have "(lay_id l, lay_unit_cost l) \<in> set (units ls)"
      using layer_cost_in_units[OF assms(2) that] assms(3) by auto
    then show ?thesis using assms(1) by (auto simp: layers_in_def list_all_iff dest!: units_cost)
  qed
  then show ?thesis using assms(2) by (auto simp: layers_in_def list_all_iff)
qed

text \<open>One event, receipt or depletion.\<close>

lemma strict_event_step:
  assumes "layers_in lo hi (fold_layers out)" "event_in lo hi ev" "is_i64 lo" "is_i64 hi"
  obtains cs ls where
    "strict_event nf ev out = Some \<lparr>fold_costings = fold_costings out @ cs, fold_layers = ls\<rparr>"
    "layers_in lo hi ls" "list_all2 (costing_for lo hi) (filter (\<lambda>e. ev_qty e < 0) [ev]) cs"
    "layers_value (fold_layers out) + receipts_value [ev] = layers_value ls + costings_value cs"
proof (cases "ev_qty ev > 0")
  case True
  then show ?thesis
    using assms
    by (intro that[of "[]" "fold_layers out @
        [\<lparr>lay_id = ev_trx_line_id ev, lay_qty = ev_qty ev, lay_unit_cost = ev_unit_cost ev\<rparr>]"])
      (auto simp: strict_event_def layers_in_def event_in_def receipts_value_def costings_value_def sum_defs)
next
  case False
  then have neg: "ev_qty ev < 0" "is_i64 (- ev_qty ev)" using assms(2) by (auto simp: event_in_def)
  have pos: "layers_pos (fold_layers out)"
    and bounds: "list_all (\<lambda>l. lo \<le> lay_unit_cost l \<and> lay_unit_cost l \<le> hi) (fold_layers out)"
    using assms(1) by (auto simp: layers_in_def)
  have ev: "lo \<le> ev_unit_cost ev" "ev_unit_cost ev \<le> hi" using assms(2) by (auto simp: event_in_def)
  obtain ls c where d:
    "strict_event nf ev out = Some \<lparr>fold_costings = fold_costings out @ [c], fold_layers = ls\<rparr>"
    "costing_for lo hi ev c" "layers_pos ls"
    "units ls = in_order nf (drop (nat (- ev_qty ev)) (in_order nf (units (fold_layers out))))"
    "layers_value (fold_layers out) = layers_value ls + draws_value (dep_draws c)"
    by (rule strict_event_depletion[OF pos neg assms(3,4) bounds ev]) (auto simp: costing_for_def)
  have "set (units ls) \<subseteq> set (units (fold_layers out))"
    using d(4) set_drop_subset[of "nat (- ev_qty ev)" "in_order nf (units (fold_layers out))"] by auto
  then show ?thesis
    using d neg layers_in_consumed[OF assms(1) d(3)]
    by (intro that[of "[c]" ls]) (auto simp: receipts_value_def costings_value_def)
qed

lemma strict_events_run:
  assumes "layers_in lo hi (fold_layers out)" "list_all (event_in lo hi) evs" "is_i64 lo" "is_i64 hi"
  obtains cs ls where
    "strict_events nf evs out = Some \<lparr>fold_costings = fold_costings out @ cs, fold_layers = ls\<rparr>"
    "layers_in lo hi ls" "list_all2 (costing_for lo hi) (filter (\<lambda>e. ev_qty e < 0) evs) cs"
    "layers_value (fold_layers out) + receipts_value evs = layers_value ls + costings_value cs"
  using assms
proof (induction evs arbitrary: out thesis)
  case Nil
  show ?case
    by (rule Nil.prems(1)[of "[]" "fold_layers out"])
      (use Nil.prems(2) in \<open>auto simp: receipts_value_def costings_value_def\<close>)
next
  case (Cons ev evs)
  obtain cs ls where st:
    "strict_event nf ev out = Some \<lparr>fold_costings = fold_costings out @ cs, fold_layers = ls\<rparr>"
    "layers_in lo hi ls" "list_all2 (costing_for lo hi) (filter (\<lambda>e. ev_qty e < 0) [ev]) cs"
    "layers_value (fold_layers out) + receipts_value [ev] = layers_value ls + costings_value cs"
    by (rule strict_event_step[OF Cons.prems(2) _ Cons.prems(4,5)]) (use Cons.prems(3) in auto)
  let ?out = "\<lparr>fold_costings = fold_costings out @ cs, fold_layers = ls\<rparr>"
  obtain cs' ls' where rest:
    "strict_events nf evs ?out = Some \<lparr>fold_costings = fold_costings ?out @ cs', fold_layers = ls'\<rparr>"
    "layers_in lo hi ls'" "list_all2 (costing_for lo hi) (filter (\<lambda>e. ev_qty e < 0) evs) cs'"
    "layers_value (fold_layers ?out) + receipts_value evs = layers_value ls' + costings_value cs'"
    by (rule Cons.IH[of ?out]) (use Cons.prems st in auto)
  have "list_all2 (costing_for lo hi) (filter (\<lambda>e. ev_qty e < 0) (ev # evs)) (cs @ cs')"
    using list_all2_appendI[OF st(3) rest(3)] by (simp split: if_splits)
  then show ?case
    using st rest
    by (intro Cons.prems(1)[of "cs @ cs'" ls']) (auto simp: receipts_value_def costings_value_def)
qed

lemma strict_events_append:
  "strict_events nf (xs @ ys) out = Option.bind (strict_events nf xs out) (strict_events nf ys)"
  by (induction xs arbitrary: out) (auto split: bind_splits)

lemma strict_event_costings:
  "strict_event nf ev \<lparr>fold_costings = cs, fold_layers = ls\<rparr> =
    map_option (\<lambda>o'. o'\<lparr>fold_costings := cs @ fold_costings o'\<rparr>)
      (strict_event nf ev \<lparr>fold_costings = [], fold_layers = ls\<rparr>)"
  by (auto simp: strict_event_def Let_def split: option.splits prod.splits)

lemma strict_events_costings:
  "strict_events nf evs \<lparr>fold_costings = cs, fold_layers = ls\<rparr> =
    map_option (\<lambda>o'. o'\<lparr>fold_costings := cs @ fold_costings o'\<rparr>)
      (strict_events nf evs \<lparr>fold_costings = [], fold_layers = ls\<rparr>)"
proof (induction evs arbitrary: cs ls)
  case (Cons ev evs)
  show ?case
  proof (cases "strict_event nf ev \<lparr>fold_costings = [], fold_layers = ls\<rparr>")
    case None
    then show ?thesis using strict_event_costings[of nf ev cs ls] by simp
  next
    case (Some o1)
    obtain cs1 ls1 where o1: "o1 = \<lparr>fold_costings = cs1, fold_layers = ls1\<rparr>" by (cases o1) auto
    have "strict_event nf ev \<lparr>fold_costings = cs, fold_layers = ls\<rparr> =
        Some \<lparr>fold_costings = cs @ cs1, fold_layers = ls1\<rparr>"
      using strict_event_costings[of nf ev cs ls] Some o1 by simp
    then show ?thesis
      using Some o1 Cons.IH[of "cs @ cs1" ls1] Cons.IH[of cs1 ls1]
      by (simp add: option.map_comp o_def)
  qed
qed simp

section \<open>The reference walk\<close>

definition lay_triple :: "StrictLayer \<Rightarrow> layer_triple" where
  "lay_triple l = (lay_id l, lay_qty l, lay_unit_cost l)"

definition ev_triple :: "StrictEvent \<Rightarrow> i64 \<times> i64 \<times> i64" where
  "ev_triple ev = (ev_trx_line_id ev, ev_qty ev, ev_unit_cost ev)"

definition dep_pair :: "DepletionCosting \<Rightarrow> i64 \<times> i64" where
  "dep_pair c = (dep_trx_line_id c, dep_authoritative c)"

lemma reference_drain_walk:
  "reference_drain nf (map lay_triple ls) remaining acc =
    (case layer_walk nf ls remaining acc draws of (ls', left, acc', _) \<Rightarrow> (map lay_triple ls', left, acc'))"
proof (induction nf ls remaining acc draws rule: layer_walk.induct)
  case (1 nf ls remaining acc draws)
  show ?case
  proof (cases "remaining > 0 \<and> ls \<noteq> []")
    case True
    define l where "l = (if nf then last ls else hd ls)"
    define taken where "taken = min remaining (lay_qty l)"
    define rest where "rest = (if nf then butlast ls else tl ls)"
    define ls1 where "ls1 = (if lay_qty l - taken = 0 then rest
      else if nf then rest @ [l\<lparr>lay_qty := lay_qty l - taken\<rparr>] else l\<lparr>lay_qty := lay_qty l - taken\<rparr> # rest)"
    define d where "d = draws @ [\<lparr>draw_layer = lay_id l, draw_qty = taken, draw_unit_cost = lay_unit_cost l\<rparr>]"
    have ls: "ls = (if nf then rest @ [l] else l # rest)" using True by (simp add: l_def rest_def)
    have walk: "layer_walk nf ls remaining acc draws =
        layer_walk nf ls1 (remaining - taken) (acc + taken * lay_unit_cost l) d"
      using True by (subst layer_walk.simps)
        (simp add: Let_def l_def[symmetric] rest_def[symmetric] taken_def[symmetric] ls1_def d_def)
    have "reference_drain nf (map lay_triple ls) remaining acc =
        reference_drain nf (map lay_triple ls1) (remaining - taken) (acc + taken * lay_unit_cost l)"
    proof (cases nf)
      case nf: True
      then have "ls = rest @ [l]" using ls by simp
      then show ?thesis
        using True nf by (subst reference_drain.simps)
          (simp add: ls1_def Let_def lay_triple_def taken_def[symmetric] remove_at_def nth_append
            list_update_append)
    next
      case nf: False
      then have "ls = l # rest" using ls by simp
      then show ?thesis
        using True nf by (subst reference_drain.simps)
          (simp add: ls1_def Let_def lay_triple_def taken_def[symmetric] remove_at_def)
    qed
    moreover have "reference_drain nf (map lay_triple ls1) (remaining - taken) (acc + taken * lay_unit_cost l) =
        (case layer_walk nf ls1 (remaining - taken) (acc + taken * lay_unit_cost l) d of
           (ls', left, acc', _) \<Rightarrow> (map lay_triple ls', left, acc'))"
      unfolding d_def by (rule 1[OF True l_def taken_def refl rest_def ls1_def])
    ultimately show ?thesis using walk by simp
  next
    case False
    then show ?thesis by (subst reference_drain.simps) (auto simp: walk_done)
  qed
qed

lemma reference_walk_strict:
  "reference_walk nf (map ev_triple evs) (map lay_triple ls) cs =
    map_option (\<lambda>out. (cs @ map dep_pair (fold_costings out), map lay_triple (fold_layers out)))
      (strict_events nf evs \<lparr>fold_costings = [], fold_layers = ls\<rparr>)"
proof (induction evs arbitrary: ls cs)
  case (Cons ev evs)
  show ?case
  proof (cases "ev_qty ev > 0")
    case True
    then show ?thesis
      using Cons.IH[of "ls @ [\<lparr>lay_id = ev_trx_line_id ev, lay_qty = ev_qty ev,
          lay_unit_cost = ev_unit_cost ev\<rparr>]" cs]
      by (simp add: ev_triple_def strict_event_def lay_triple_def)
  next
    case False
    obtain ls' left v ds where walk: "layer_walk nf ls (wrap_i64 (- ev_qty ev)) 0 [] = (ls', left, v, ds)"
      by (metis prod_cases4)
    have drain: "reference_drain nf (map lay_triple ls) (wrap_i64 (- ev_qty ev)) 0 =
        (map lay_triple ls', left, v)"
      using reference_drain_walk[of nf ls _ 0 "[]"] walk by simp
    have abs: "\<bar>ev_qty ev\<bar> = - ev_qty ev" using False by simp
    show ?thesis
    proof (cases "banker_div (v + left * ev_unit_cost ev) (wrap_i64 (- ev_qty ev))")
      case None
      then show ?thesis
        using False by (simp add: ev_triple_def strict_event_def abs walk drain Let_def)
    next
      case (Some a)
      let ?c = "\<lparr>dep_trx_line_id = ev_trx_line_id ev, dep_qty = wrap_i64 (- ev_qty ev),
          dep_observed = ev_unit_cost ev, dep_authoritative = a, dep_uncovered = left, dep_draws = ds\<rparr>"
      show ?thesis
        using False Some Cons.IH[of ls' "cs @ [(ev_trx_line_id ev, a)]"]
          strict_events_costings[of nf evs "[?c]" ls']
        by (simp add: ev_triple_def strict_event_def abs walk drain Let_def dep_pair_def
            option.map_comp o_def)
    qed
  qed
qed simp

section \<open>Properties\<close>

lemma draws_value_units:
  "list_all (\<lambda>d. 0 < draw_qty d) ds \<Longrightarrow> draws_value ds = sum_list (map snd (draw_units ds))"
  by (induction ds) (auto simp: draws_value_def sum_list_replicate)

lemma draws_qty_units:
  "list_all (\<lambda>d. 0 < draw_qty d) ds \<Longrightarrow> draws_qty ds = int (length (draw_units ds))"
  by (induction ds) (auto simp: draws_qty_def)

text \<open>
  C10. The layer walk implements unit-by-unit consumption. Seen as a list of single units, oldest
  first, FIFO takes the requested number of units from the front and LIFO from the back; the walk's
  draws are exactly these units in that order, the layers it leaves are exactly the others, the
  quantity no layer covered is what the units fall short of, and the value it accumulates is the
  sum of the costs of the units it took.
\<close>
theorem layer_walk_refines_units:
  assumes "layers_pos ls" "0 \<le> q" "layer_walk nf ls q 0 [] = (ls', left, v, ds)"
  shows "draw_units ds = take (nat q) (in_order nf (units ls)) \<and>
    units ls' = in_order nf (drop (nat q) (in_order nf (units ls))) \<and>
    left = max 0 (q - int (length (units ls))) \<and>
    v = sum_list (map snd (draw_units ds))"
proof (rule walk_spec[OF assms], goal_cases)
  case (1 es ys)
  have "int (length (draw_units ds)) + left = q" using 1 draws_qty_units[of es] by simp
  then have "left = max 0 (q - int (length (units ls)))" using 1 assms(2) by auto
  then show ?case using 1 draws_value_units[of es] by simp
qed

definition demo_layers :: "StrictLayer list" where
  "demo_layers = [\<lparr>lay_id = 1, lay_qty = 3, lay_unit_cost = 100\<rparr>, \<lparr>lay_id = 2, lay_qty = 2, lay_unit_cost = 200\<rparr>]"

definition demo_events :: "StrictEvent list" where
  "demo_events = [\<lparr>ev_trx_line_id = 3, ev_qty = - 4, ev_unit_cost = 120\<rparr>,
     \<lparr>ev_trx_line_id = 4, ev_qty = 5, ev_unit_cost = 90\<rparr>,
     \<lparr>ev_trx_line_id = 5, ev_qty = - 8, ev_unit_cost = 110\<rparr>]"

theorem layer_walk_refines_units_witness:
  "\<exists>ls' left v ds. layer_walk True demo_layers 4 0 [] = (ls', left, v, ds) \<and>
    draw_units ds = [(2, 200), (2, 200), (1, 100), (1, 100)] \<and> units ls' = [(1, 100)] \<and> v = 600"
proof -
  obtain ls' left v ds where eq: "layer_walk True demo_layers 4 0 [] = (ls', left, v, ds)"
    by (metis prod_cases4)
  have "units demo_layers = [(1, 100), (1, 100), (1, 100), (2, 200), (2, 200)]"
    by (simp add: demo_layers_def numeral_eq_Suc)
  then show ?thesis
    using layer_walk_refines_units[OF _ _ eq] eq by (simp add: demo_layers_def in_order_def)
qed


text \<open>
  C13. The fold is total and sound on every well-formed stream: with positive layers and non-zero
  events whose costs lie in an interval of \<open>i64\<close> values, it never panics, each depletion event gets
  exactly one costing, in stream order, whose draws and uncovered rest make up its quantity and whose
  cost is the rounded mean of what it consumed, that cost lies in the interval too, and the layers
  left are positive with costs in the interval.
\<close>
theorem strict_fold_sound:
  assumes "layers_in lo hi opening" "list_all (event_in lo hi) events" "is_i64 lo" "is_i64 hi"
  shows "\<exists>out. strict_fold nf opening events = Some out \<and> layers_in lo hi (fold_layers out) \<and>
    list_all2 (costing_for lo hi) (filter (\<lambda>e. ev_qty e < 0) events) (fold_costings out)"
  unfolding strict_fold_def
  by (rule strict_events_run[of lo hi "\<lparr>fold_costings = [], fold_layers = opening\<rparr>" events nf])
    (use assms in auto)

theorem strict_fold_sound_witness:
  "\<exists>out. strict_fold False demo_layers demo_events = Some out \<and> length (fold_costings out) = 2"
proof -
  have "layers_in 90 200 demo_layers" "list_all (event_in 90 200) demo_events"
    by (simp_all add: demo_layers_def demo_events_def layers_in_def event_in_def i64_defs)
  then obtain out where "strict_fold False demo_layers demo_events = Some out"
    "list_all2 (costing_for 90 200) (filter (\<lambda>e. ev_qty e < 0) demo_events) (fold_costings out)"
    using strict_fold_sound[of 90 200 demo_layers demo_events False] by (auto simp: i64_defs)
  then show ?thesis by (auto simp: demo_events_def dest: list_all2_lengthD)
qed

text \<open>
  The fold conserves value: the value of the opening layers plus the value of the receipts in
  the stream equals the value of the layers left plus the value of everything the depletions drew.
\<close>
theorem strict_fold_conserves:
  assumes "layers_in lo hi opening" "list_all (event_in lo hi) events" "is_i64 lo" "is_i64 hi"
    "strict_fold nf opening events = Some out"
  shows "layers_value opening + receipts_value events =
    layers_value (fold_layers out) + costings_value (fold_costings out)"
proof (rule strict_events_run[of lo hi "\<lparr>fold_costings = [], fold_layers = opening\<rparr>" events nf])
  fix cs ls
  assume "strict_events nf events \<lparr>fold_costings = [], fold_layers = opening\<rparr> =
      Some \<lparr>fold_costings = fold_costings \<lparr>fold_costings = [], fold_layers = opening\<rparr> @ cs, fold_layers = ls\<rparr>"
    "layers_value (fold_layers \<lparr>fold_costings = [], fold_layers = opening\<rparr>) + receipts_value events =
      layers_value ls + costings_value cs"
  then show ?thesis using assms(5) by (auto simp: strict_fold_def)
qed (use assms in auto)

theorem strict_fold_conserves_witness:
  "\<exists>out. strict_fold True demo_layers demo_events = Some out \<and>
    700 + receipts_value demo_events = layers_value (fold_layers out) + costings_value (fold_costings out)"
proof -
  have ok: "layers_in 90 200 demo_layers" "list_all (event_in 90 200) demo_events" "is_i64 90" "is_i64 200"
    by (simp_all add: demo_layers_def demo_events_def layers_in_def event_in_def i64_defs)
  have "strict_fold True demo_layers demo_events \<noteq> None" by code_simp
  then obtain out where out: "strict_fold True demo_layers demo_events = Some out" by blast
  have "layers_value demo_layers = 700" by (simp add: demo_layers_def layers_value_def)
  then show ?thesis using strict_fold_conserves[OF ok out] out by simp
qed

text \<open>
  C12. The engine's fold and the verifier's independent reference walk agree on every stream of
  events, from an empty pool: the same depletions get the same authoritative costs, the same layers
  stay open, and one panics exactly when the other does.
\<close>
theorem reference_walk_agrees:
  "reference_walk nf (map ev_triple events) [] [] =
    map_option (\<lambda>out. (map dep_pair (fold_costings out), map lay_triple (fold_layers out)))
      (strict_fold nf [] events)"
  using reference_walk_strict[of nf events "[]" "[]"] by (simp add: strict_fold_def)

end
