(* ===== verification/Recalc.thy ===== *)
theory Recalc
  imports Submit Strict
begin

text \<open>
  The recalculation engine of FIFO and LIFO pools, \<open>ledger-direct/src/recalc.rs\<close>: claim a dirty
  pool, replay its physical events through the strict layer walk, from the persisted checkpoint or
  from the opening, write a generation of settlements and adjustments for the depletions whose cost
  is new or changed, rewrite the open layers, advance the settlement frontier and decide whether
  the pool stays queued.

  A pass runs while other transactions commit. Its own reads before the settle statement are of
  one state; \<open>mid\<close> is what the others commit before that statement runs. With \<open>mid\<close> the
  identity the pass is undisturbed. A queue row locked by another worker is skipped by the claim:
  the predicate \<open>locked\<close> says which are.
\<close>

section \<open>Data\<close>

record Claim =
  cl_pool_id :: i64
  cl_method :: PoolMethod
  cl_generation :: i64
  cl_settled :: "position option"
  cl_floor :: "position option"

record Scanned =
  sc_id :: i64
  sc_qty :: i64
  sc_unit_cost :: i64
  sc_line_type :: string
  sc_posted_at :: timestamp

record Pending =
  pd_costing :: DepletionCosting
  pd_line_type :: string
  pd_prior :: i64
  pd_delta :: i128

record Escalation =
  esc_pool_id :: i64
  esc_closed_period :: "i64 option"
  esc_depletion :: i64
  esc_had_settlement :: bool
  esc_frozen :: i64
  esc_recomputed :: i64
  esc_qty :: i64
  esc_diverging :: i64
  esc_total_value :: i128

record PassOutcome =
  pass_full_replay :: bool
  pass_events :: nat
  pass_settlements :: nat
  pass_adjustments :: nat
  pass_generation :: i64
  pass_floor_pending :: bool
  pass_requeued :: bool
  pass_escalated :: "Escalation option"

record DrainStats =
  dr_passes :: i64
  dr_settlements :: i64
  dr_adjustments :: i64
  dr_generation :: i64
  dr_escalated :: "Escalation option"

datatype DrainOutcome = NonStrict PoolMethod | Drained DrainStats

definition MAX_DRAIN_PASSES :: nat where
  "MAX_DRAIN_PASSES = 10000"

definition strict_method :: "PoolMethod \<Rightarrow> bool" where
  "strict_method m \<longleftrightarrow> m = Fifo \<or> m = Lifo"

section \<open>Reading a pool\<close>

definition line_pos :: "trx_line_row \<Rightarrow> position" where
  "line_pos r = (tl_posted_at r, tl_id r)"

definition physical :: "i64 \<Rightarrow> trx_line_row \<Rightarrow> bool" where
  "physical p r \<longleftrightarrow> tl_pool_id r = p \<and> tl_line_type r \<noteq> cost_adjustment_line"

definition after :: "position option \<Rightarrow> trx_line_row \<Rightarrow> bool" where
  "after frontier r = (case frontier of None \<Rightarrow> True | Some f \<Rightarrow> f < line_pos r)"

definition scan_of :: "trx_line_row \<Rightarrow> Scanned" where
  "scan_of r = \<lparr>sc_id = tl_id r, sc_qty = tl_qty r, sc_unit_cost = tl_unit_cost r,
     sc_line_type = tl_line_type r, sc_posted_at = tl_posted_at r\<rparr>"

definition scan_events :: "i64 \<Rightarrow> position option \<Rightarrow> db \<Rightarrow> Scanned list" where
  "scan_events p frontier s =
    map scan_of (sort_key line_pos (filter (\<lambda>r. physical p r \<and> after frontier r) (db_trx_line s)))"

definition open_layer_of :: "i64 \<Rightarrow> state_row \<Rightarrow> bool" where
  "open_layer_of p r \<longleftrightarrow> st_pool_id r = p \<and> 0 < st_layer_id r"

definition hydrate_layers :: "i64 \<Rightarrow> db \<Rightarrow> StrictLayer list" where
  "hydrate_layers p s =
    map (\<lambda>(r, t). \<lparr>lay_id = st_layer_id r, lay_qty = st_qty r, lay_unit_cost = st_unit_cost r\<rparr>)
      (sort_key (\<lambda>(r, t). line_pos t)
        (concat (map (\<lambda>r. map (Pair r) (filter (\<lambda>t. tl_id t = st_layer_id r) (db_trx_line s)))
          (filter (open_layer_of p) (db_pool_state s)))))"

text \<open>The current authoritative cost of a depletion: its settlement of the highest generation.\<close>

definition current_settlement :: "db \<Rightarrow> i64 \<Rightarrow> cost_settlement_row option" where
  "current_settlement s d =
    (case sort_key (\<lambda>r. - cs_generation r) (filter (\<lambda>r. cs_depletion r = d) (db_cost_settlement s)) of
       [] \<Rightarrow> None | r # _ \<Rightarrow> Some r)"

definition load_priors :: "DepletionCosting list \<Rightarrow> db \<Rightarrow> (i64 \<times> i64) list" where
  "load_priors costings s =
    concat (map (\<lambda>d. case current_settlement s d of None \<Rightarrow> [] | Some r \<Rightarrow> [(d, cs_authoritative r)])
      (btree_set (map dep_trx_line_id costings)))"

section \<open>The write set of a pass\<close>

definition pending_of ::
  "Scanned list \<Rightarrow> (i64 \<times> i64) list \<Rightarrow> DepletionCosting \<Rightarrow> pg_error + Pending list" where
  "pending_of scanned priors c =
    (let prior = (case map_of priors (dep_trx_line_id c) of Some p \<Rightarrow> p | None \<Rightarrow> dep_observed c);
         is_new = (map_of priors (dep_trx_line_id c) = None)
     in if is_new \<or> dep_authoritative c \<noteq> prior
        then (case find (\<lambda>x. sc_id x = dep_trx_line_id c) scanned of
                None \<Rightarrow> Inl (Raised ''XX000'' ''ledger_recalc_step: costed depletion missing from scan'')
              | Some x \<Rightarrow> Inr [\<lparr>pd_costing = c, pd_line_type = sc_line_type x, pd_prior = prior,
                  pd_delta = wrap_i64 (dep_authoritative c - prior) * dep_qty c\<rparr>])
        else Inr [])"

fun pendings ::
  "Scanned list \<Rightarrow> (i64 \<times> i64) list \<Rightarrow> DepletionCosting list \<Rightarrow> pg_error + Pending list" where
  "pendings scanned priors [] = Inr []"
| "pendings scanned priors (c # cs) =
    and_then (pending_of scanned priors c) (\<lambda>ps.
    and_then (pendings scanned priors cs) (\<lambda>rest. Inr (ps @ rest)))"

definition covering_closed_period :: "db \<Rightarrow> timestamp \<Rightarrow> i64 option" where
  "covering_closed_period s t =
    map_option pe_id (find (\<lambda>pr. pe_state pr = PeriodClosed \<and> period_contains pr t) (db_period s))"

definition frozen_lines :: "db \<Rightarrow> i64 list \<Rightarrow> (i64 \<times> i64 option) list" where
  "frozen_lines s ids =
    (case closed_frontier s of
       None \<Rightarrow> []
     | Some v_end \<Rightarrow>
         map (\<lambda>r. (tl_id r, covering_closed_period s (tl_posted_at r)))
           (sort_key line_pos (filter (\<lambda>r. tl_id r \<in> set ids \<and> tl_posted_at r < day_start (v_end + 1))
             (db_trx_line s))))"

definition detect_closed_period_divergence :: "i64 \<Rightarrow> Pending list \<Rightarrow> db \<Rightarrow> Escalation option" where
  "detect_closed_period_divergence p pending s =
    (let affected = concat (map (\<lambda>(i, period).
           case find (\<lambda>x. dep_trx_line_id (pd_costing x) = i) pending of
             None \<Rightarrow> [] | Some x \<Rightarrow> [(x, period)])
           (frozen_lines s (map (dep_trx_line_id \<circ> pd_costing) pending)))
     in case affected of
          [] \<Rightarrow> None
        | first # _ \<Rightarrow>
            (let (x, period) = (case find (\<lambda>(x, _). pd_delta x \<noteq> 0) affected of
                   Some y \<Rightarrow> y | None \<Rightarrow> first)
             in Some \<lparr>esc_pool_id = p, esc_closed_period = period,
                  esc_depletion = dep_trx_line_id (pd_costing x),
                  esc_had_settlement =
                    (pd_delta x \<noteq> 0 \<or> pd_prior x \<noteq> dep_observed (pd_costing x)),
                  esc_frozen = pd_prior x, esc_recomputed = dep_authoritative (pd_costing x),
                  esc_qty = dep_qty (pd_costing x),
                  esc_diverging = int (length (filter (\<lambda>(x, _). pd_delta x \<noteq> 0) affected)),
                  esc_total_value = sum_list (map (\<lambda>(x, _). pd_delta x) affected)\<rparr>))"

definition halted_period :: "i64 \<Rightarrow> db \<Rightarrow> i64 option option" where
  "halted_period p s =
    map_option es_closed_period (find (\<lambda>e. es_pool_id e = p \<and> \<not> es_resolved e) (db_escalation s))"

definition escalated_pools :: "db \<Rightarrow> (i64 \<times> i64 option) list" where
  "escalated_pools s =
    map (\<lambda>e. (es_pool_id e, es_closed_period e))
      (sort_key es_pool_id (filter (\<lambda>e. \<not> es_resolved e) (db_escalation s)))"

definition record_escalation :: "Escalation \<Rightarrow> unit tx" where
  "record_escalation e s =
    Inr ((), if halted_period (esc_pool_id e) s \<noteq> None then s
      else s\<lparr>db_escalation := db_escalation s @
        [\<lparr>es_pool_id = esc_pool_id e, es_closed_period = esc_closed_period e,
          es_depletion = esc_depletion e, es_had_settlement = esc_had_settlement e,
          es_frozen = esc_frozen e, es_recomputed = esc_recomputed e, es_qty = esc_qty e,
          es_diverging = esc_diverging e,
          es_total_value = (case try_i64 (esc_total_value e) of Some v \<Rightarrow> v | None \<Rightarrow> i64_max),
          es_resolved = False\<rparr>]\<rparr>)"

section \<open>Writing a generation\<close>

definition consumption_row_of :: "i64 \<Rightarrow> i64 \<times> LayerDraw \<Rightarrow> consumption_row" where
  "consumption_row_of generation x =
    \<lparr>cc_depletion = fst x, cc_layer = draw_layer (snd x), cc_generation = generation,
      cc_qty = draw_qty (snd x), cc_unit_cost = draw_unit_cost (snd x)\<rparr>"

definition insert_consumption :: "i64 \<Rightarrow> i64 \<times> LayerDraw \<Rightarrow> unit tx" where
  "insert_consumption generation x s =
    (let r = consumption_row_of generation x in
     if cc_qty r \<le> 0 then Inl (Check_violation ''cost_layer_consumption_qty_check'')
     else if cc_unit_cost r < 0 then Inl (Check_violation ''cost_layer_consumption_unit_cost_check'')
     else if list_ex (\<lambda>r'. cc_depletion r' = cc_depletion r \<and> cc_layer r' = cc_layer r \<and>
               cc_generation r' = generation) (db_consumption s)
     then Inl (Unique_violation ''cost_layer_consumption_pkey'')
     else if \<not> list_ex (\<lambda>t. tl_id t = cc_depletion r) (db_trx_line s) \<or>
             \<not> list_ex (\<lambda>t. tl_id t = cc_layer r) (db_trx_line s)
     then Inl (Foreign_key_violation ''cost_layer_consumption_fkey'')
     else Inr ((), s\<lparr>db_consumption := db_consumption s @ [r]\<rparr>))"

definition settlement_for :: "i64 \<Rightarrow> Pending \<Rightarrow> i64 option \<Rightarrow> cost_settlement_row" where
  "settlement_for generation x posting =
    \<lparr>cs_depletion = dep_trx_line_id (pd_costing x), cs_generation = generation,
      cs_authoritative = dep_authoritative (pd_costing x), cs_prior = pd_prior x,
      cs_posting = posting\<rparr>"

definition insert_settlement :: "i64 \<Rightarrow> Pending \<Rightarrow> i64 option \<Rightarrow> unit tx" where
  "insert_settlement generation x posting s =
    (let d = dep_trx_line_id (pd_costing x) in
     case find (\<lambda>t. tl_id t = d) (db_trx_line s) of
       None \<Rightarrow> Inl (Foreign_key_violation ''cost_settlement_depletion_trx_line_id_fkey'')
     | Some t \<Rightarrow>
         (case period_guard s (tl_posted_at t) of
            Inl e \<Rightarrow> Inl e
          | Inr _ \<Rightarrow>
              if list_ex (\<lambda>r. cs_depletion r = d \<and> cs_generation r = generation) (db_cost_settlement s)
              then Inl (Unique_violation ''cost_settlement_pkey'')
              else Inr ((), s\<lparr>db_cost_settlement := db_cost_settlement s @
                     [settlement_for generation x posting]\<rparr>)))"

definition resolve_accounts :: "i64 \<Rightarrow> PostingAccounts tx" where
  "resolve_accounts p s =
    (case pool_of s p of
       None \<Rightarrow> Inl (raise_ledger_error (UnknownPool p))
     | Some r \<Rightarrow>
         (case db_accounts s (pl_sku_id r, pl_location_id r) of
            None \<Rightarrow> Inl (raise_ledger_error (MissingPostingAccounts (pl_sku_id r) (pl_location_id r)))
          | Some accounts \<Rightarrow> Inr (accounts, s)))"

definition recalc_pair_for :: "PostingAccounts \<Rightarrow> string \<Rightarrow> (i64 \<times> i64) tx" where
  "recalc_pair_for accounts lt =
    (case decode_line_type lt of
       Some l \<Rightarrow> tx_return (pair_for accounts l)
     | None \<Rightarrow> tx_fail (Raised ''XX000'' ''ledger_recalc_step: no account pair for line_type''))"

definition insert_adjustment_trx :: "i64 tx" where
  "insert_adjustment_trx s =
    insert_trx ''cost_adjustment'' (db_next_adjustment s) (db_now s)
      (s\<lparr>db_next_adjustment := db_next_adjustment s + 1\<rparr>)"

definition adjustment_line :: "i64 \<Rightarrow> i64 \<Rightarrow> Pending \<Rightarrow> timestamp \<Rightarrow> trx_line_row" where
  "adjustment_line p trx_id x now =
    \<lparr>tl_id = 0, tl_trx_id = trx_id, tl_pool_id = p, tl_line_type = cost_adjustment_line,
      tl_source_id = None, tl_qty = - dep_qty (pd_costing x),
      tl_unit_cost = dep_authoritative (pd_costing x),
      tl_source_trx_line_id = Some (dep_trx_line_id (pd_costing x)), tl_posted_at = now\<rparr>"

definition adjustment_posting :: "i64 \<times> i64 \<Rightarrow> i64 \<Rightarrow> i64 \<Rightarrow> Pending \<Rightarrow> timestamp \<Rightarrow> posting_row" where
  "adjustment_posting pair line amount x now =
    \<lparr>po_id = 0, po_trx_line_id = line, po_event_type = ''cost_adjustment'', po_amount = amount,
      po_debit_account = (if pd_delta x > 0 then snd pair else fst pair),
      po_credit_account = (if pd_delta x > 0 then fst pair else snd pair), po_posted_at = now\<rparr>"

definition write_adjustment ::
  "i64 \<Rightarrow> i64 \<Rightarrow> PostingAccounts \<Rightarrow> i64 \<Rightarrow> Pending \<Rightarrow> unit tx" where
  "write_adjustment p generation accounts trx_id x s =
    (case try_i64 \<bar>pd_delta x\<bar> of
       None \<Rightarrow> Inl (Raised ''22003'' ''ledger_recalc_step: adjustment amount overflows bigint'')
     | Some amount \<Rightarrow>
         tx_bind (recalc_pair_for accounts (pd_line_type x)) (\<lambda>pair.
         tx_bind (insert_line (adjustment_line p trx_id x (db_now s))) (\<lambda>line.
         tx_bind (insert_posting (adjustment_posting pair line amount x (db_now s))) (\<lambda>posting.
         insert_settlement generation x (Some posting)))) s)"

definition settle_unchanged :: "i64 \<Rightarrow> Pending \<Rightarrow> unit tx" where
  "settle_unchanged generation x = insert_settlement generation x None"

definition write_generation :: "i64 \<Rightarrow> i64 \<Rightarrow> Pending list \<Rightarrow> nat tx" where
  "write_generation p generation pending =
    (let draws = concat (map (\<lambda>x. map (Pair (dep_trx_line_id (pd_costing x))) (dep_draws (pd_costing x))) pending);
         adjusted = filter (\<lambda>x. pd_delta x \<noteq> 0) pending;
         zero = filter (\<lambda>x. pd_delta x = 0) pending
     in
     tx_bind (if adjusted = [] then tx_return None
              else tx_bind (resolve_accounts p) (\<lambda>a. tx_return (Some a))) (\<lambda>accounts.
     tx_bind (tx_iter (insert_consumption generation) draws) (\<lambda>_.
     tx_bind (case accounts of
                None \<Rightarrow> tx_return ()
              | Some a \<Rightarrow>
                  tx_bind insert_adjustment_trx (\<lambda>trx_id.
                  tx_iter (write_adjustment p generation a trx_id) adjusted)) (\<lambda>_.
     tx_bind (tx_iter (settle_unchanged generation) zero) (\<lambda>_.
     tx_return (length adjusted))))))"

section \<open>Checkpoint, aggregate and frontier\<close>

definition layer_row :: "i64 \<Rightarrow> StrictLayer \<Rightarrow> pg_error + state_row" where
  "layer_row p l =
    and_then (to_bigint (lay_qty l * lay_unit_cost l)) (\<lambda>v.
      Inr \<lparr>st_pool_id = p, st_layer_id = lay_id l, st_qty = lay_qty l, st_unit_cost = lay_unit_cost l,
        st_value_sum = v\<rparr>)"

definition insert_open_layer :: "i64 \<Rightarrow> StrictLayer \<Rightarrow> unit tx" where
  "insert_open_layer p l = tx_bind (tx_lift (layer_row p l)) insert_layer"

definition delete_open_layers :: "i64 \<Rightarrow> unit tx" where
  "delete_open_layers p s =
    Inr ((), s\<lparr>db_pool_state := filter (\<lambda>r. \<not> open_layer_of p r) (db_pool_state s)\<rparr>)"

definition materialize_layers :: "i64 \<Rightarrow> StrictLayer list \<Rightarrow> unit tx" where
  "materialize_layers p layers =
    tx_bind (delete_open_layers p) (\<lambda>_.
    tx_iter (insert_open_layer p) layers)"

definition reconcile_aggregate_value :: "i64 \<Rightarrow> i128 \<Rightarrow> unit tx" where
  "reconcile_aggregate_value p net_delta s =
    (case try_i64 net_delta of
       None \<Rightarrow> Inl (Raised ''22003'' ''ledger_recalc_step: net value delta overflows bigint'')
     | Some net \<Rightarrow>
         (case state_of s p 0 of
            None \<Rightarrow> Inr ((), s)
          | Some r \<Rightarrow>
              and_then (to_bigint (st_value_sum r - net)) (\<lambda>v.
              and_then (if st_qty r > 0 then sql_banker_div (db_quot s) (st_value_sum r - net) (st_qty r)
                        else Inr (st_unit_cost r)) (\<lambda>c.
                Inr ((), put_state (r\<lparr>st_value_sum := v, st_unit_cost := c\<rparr>) s)))))"

definition settle :: "Claim \<Rightarrow> i64 \<Rightarrow> position \<Rightarrow> bool tx" where
  "settle claim generation frontier s =
    (case settlement_of s (cl_pool_id claim) of
       None \<Rightarrow>
         Inr (False, s\<lparr>db_settlement := put_key se_pool_id
           \<lparr>se_pool_id = cl_pool_id claim, se_generation = generation,
             se_settled_through = Some frontier, se_recost_floor = None\<rparr> (db_settlement s)\<rparr>)
     | Some r \<Rightarrow>
         (let floor = (if se_recost_floor r = cl_floor claim then None else se_recost_floor r)
          in Inr (floor \<noteq> None, s\<lparr>db_settlement := put_key se_pool_id
               (r\<lparr>se_generation := max (se_generation r) generation,
                  se_settled_through := Some frontier, se_recost_floor := floor\<rparr>) (db_settlement s)\<rparr>)))"

definition lower_floor :: "i64 \<Rightarrow> position \<Rightarrow> db \<Rightarrow> db" where
  "lower_floor p pos s =
    (case settlement_of s p of
       None \<Rightarrow> s
     | Some r \<Rightarrow>
         if (case se_recost_floor r of None \<Rightarrow> True | Some f \<Rightarrow> pos < f)
         then s\<lparr>db_settlement := put_key se_pool_id (r\<lparr>se_recost_floor := Some pos\<rparr>) (db_settlement s)\<rparr>
         else s)"

text \<open>The first physical event inside the replayed range that the scan did not see.\<close>

definition missed_event :: "i64 \<Rightarrow> position option \<Rightarrow> position \<Rightarrow> i64 list \<Rightarrow> db \<Rightarrow> position option" where
  "missed_event p scan_from f scanned_ids s =
    (case sort_key line_pos (filter (\<lambda>r. physical p r \<and> after scan_from r \<and> line_pos r \<le> f \<and>
        tl_id r \<notin> set scanned_ids) (db_trx_line s)) of
       [] \<Rightarrow> None | r # _ \<Rightarrow> Some (line_pos r))"

definition tail_count :: "i64 \<Rightarrow> position option \<Rightarrow> db \<Rightarrow> nat" where
  "tail_count p frontier s = length (filter (\<lambda>r. physical p r \<and> after frontier r) (db_trx_line s))"

definition reset_backlog :: "i64 \<Rightarrow> i64 \<Rightarrow> db \<Rightarrow> db" where
  "reset_backlog p n s =
    s\<lparr>db_backlog := put_key fst (p, n) (db_backlog s),
      db_backpressure :=
        (let engaged =
           (if db_bound_events s \<le> n \<and> (\<exists>r \<in> set (db_pool s). pl_id r = p \<and> strict_method (pl_method r)) \<and>
               find_key fst (db_backpressure s) p = None
            then db_backpressure s @ [(p, n)] else db_backpressure s)
         in if n \<le> db_low_water s then del_key fst p engaged else engaged)\<rparr>"

definition note_missed :: "i64 \<Rightarrow> position option \<Rightarrow> db \<Rightarrow> db" where
  "note_missed p missed s = (case missed of None \<Rightarrow> s | Some pos \<Rightarrow> lower_floor p pos s)"

definition restamp_queue_row :: "i64 \<Rightarrow> db \<Rightarrow> db" where
  "restamp_queue_row p s =
    s\<lparr>db_queue := map (\<lambda>q. if qu_pool_id q = p then q\<lparr>qu_enqueued_at := db_now s\<rparr> else q) (db_queue s)\<rparr>"

definition consume_queue_row :: "i64 \<Rightarrow> db \<Rightarrow> db" where
  "consume_queue_row p s = s\<lparr>db_queue := filter (\<lambda>q. qu_pool_id q \<noteq> p) (db_queue s)\<rparr>"

definition decide_queue ::
  "i64 \<Rightarrow> position option \<Rightarrow> position option \<Rightarrow> i64 list \<Rightarrow> bool \<Rightarrow> db \<Rightarrow> bool \<times> db" where
  "decide_queue p scan_from frontier scanned_ids floor_pending s =
    (let missed = Option.bind frontier (\<lambda>f. missed_event p scan_from f scanned_ids s);
         s1 = note_missed p missed s;
         n = tail_count p frontier s1;
         s2 = reset_backlog p (int n) s1
     in if floor_pending \<or> n > 0 \<or> missed \<noteq> None
        then (True, restamp_queue_row p s2)
        else (False, consume_queue_row p s2))"

section \<open>A pass\<close>

definition drop_queue_row :: "i64 \<Rightarrow> unit tx" where
  "drop_queue_row p s = Inr ((), consume_queue_row p s)"

definition full_replay :: "Claim \<Rightarrow> bool" where
  "full_replay claim \<longleftrightarrow> cl_floor claim \<noteq> None \<or> cl_settled claim = None"

definition scan_from :: "Claim \<Rightarrow> position option" where
  "scan_from claim = (if full_replay claim then None else cl_settled claim)"

definition pass_scan :: "Claim \<Rightarrow> db \<Rightarrow> Scanned list" where
  "pass_scan claim s = scan_events (cl_pool_id claim) (scan_from claim) s"

definition strict_event_of :: "Scanned \<Rightarrow> StrictEvent" where
  "strict_event_of x = \<lparr>ev_trx_line_id = sc_id x, ev_qty = sc_qty x, ev_unit_cost = sc_unit_cost x\<rparr>"

definition pass_fold :: "Claim \<Rightarrow> db \<Rightarrow> StrictFoldOutput option" where
  "pass_fold claim s =
    (let opening = (if full_replay claim then [] else hydrate_layers (cl_pool_id claim) s);
         events = map strict_event_of (pass_scan claim s)
     in if cl_method claim = Fifo then fifo_strict_fold opening events else lifo_strict_fold opening events)"

definition new_frontier :: "Claim \<Rightarrow> Scanned list \<Rightarrow> position option" where
  "new_frontier claim scanned =
    (if scanned = [] then cl_settled claim
     else Some (sc_posted_at (last scanned), sc_id (last scanned)))"

definition finish_pass ::
  "(db \<Rightarrow> db) \<Rightarrow> Claim \<Rightarrow> Scanned list \<Rightarrow> Pending list \<Rightarrow> i64 \<Rightarrow> nat \<Rightarrow> PassOutcome tx" where
  "finish_pass mid claim scanned pending generation adjustments =
    tx_bind (\<lambda>s. Inr ((), mid s)) (\<lambda>_.
    let frontier = new_frontier claim scanned in
    tx_bind (case frontier of None \<Rightarrow> tx_return False | Some f \<Rightarrow> settle claim generation f) (\<lambda>floor_pending.
    tx_bind (\<lambda>s. Inr (decide_queue (cl_pool_id claim) (scan_from claim) frontier (map sc_id scanned)
      floor_pending s)) (\<lambda>requeued.
    tx_return \<lparr>pass_full_replay = full_replay claim, pass_events = length scanned,
      pass_settlements = length pending, pass_adjustments = adjustments,
      pass_generation = generation, pass_floor_pending = floor_pending,
      pass_requeued = requeued, pass_escalated = None\<rparr>)))"

definition run_claimed_pass :: "(db \<Rightarrow> db) \<Rightarrow> Claim \<Rightarrow> PassOutcome tx" where
  "run_claimed_pass mid claim s =
    (let p = cl_pool_id claim; scanned = pass_scan claim s in
     case pass_fold claim s of
       None \<Rightarrow> Inl (Rust_panic ''banker_div'')
     | Some out \<Rightarrow>
         (case pendings scanned (load_priors (fold_costings out) s) (fold_costings out) of
            Inl e \<Rightarrow> Inl e
          | Inr pending \<Rightarrow>
              (case detect_closed_period_divergence p pending s of
                 Some esc \<Rightarrow>
                   tx_bind (record_escalation esc) (\<lambda>_. tx_return
                     \<lparr>pass_full_replay = full_replay claim, pass_events = length scanned,
                       pass_settlements = 0, pass_adjustments = 0, pass_generation = cl_generation claim,
                       pass_floor_pending = (cl_floor claim \<noteq> None), pass_requeued = True,
                       pass_escalated = Some esc\<rparr>) s
               | None \<Rightarrow>
                   (let wrote = (pending \<noteq> []);
                        generation = cl_generation claim + (if wrote then 1 else 0);
                        net_delta = sum_list (map pd_delta pending)
                    in
                    tx_bind (if wrote then write_generation p generation pending else tx_return 0) (\<lambda>adjustments.
                    tx_bind (if scanned \<noteq> [] then materialize_layers p (fold_layers out) else tx_return ()) (\<lambda>_.
                    tx_bind (if net_delta \<noteq> 0 then reconcile_aggregate_value p net_delta else tx_return ()) (\<lambda>_.
                    finish_pass mid claim scanned pending generation adjustments))) s))))"

section \<open>Claiming and draining\<close>

definition read_claim :: "i64 \<Rightarrow> Claim tx" where
  "read_claim p s =
    (case pool_of s p of
       None \<Rightarrow> Inl (Raised ''XX000'' ''read_claim: queued pool missing from pool'')
     | Some r \<Rightarrow>
         Inr (case settlement_of s p of
             None \<Rightarrow> \<lparr>cl_pool_id = p, cl_method = pl_method r, cl_generation = 0, cl_settled = None, cl_floor = None\<rparr>
           | Some se \<Rightarrow> \<lparr>cl_pool_id = p, cl_method = pl_method r, cl_generation = se_generation se,
               cl_settled = se_settled_through se, cl_floor = se_recost_floor se\<rparr>, s))"

definition claim_next :: "(i64 \<Rightarrow> bool) \<Rightarrow> Claim option tx" where
  "claim_next locked s =
    (case sort_key (\<lambda>q. (qu_enqueued_at q, qu_pool_id q))
        (filter (\<lambda>q. halted_period (qu_pool_id q) s = None \<and> \<not> locked (qu_pool_id q)) (db_queue s)) of
       [] \<Rightarrow> Inr (None, s)
     | q # _ \<Rightarrow> tx_bind (read_claim (qu_pool_id q)) (\<lambda>c. tx_return (Some c)) s)"

definition ensure_queued :: "i64 \<Rightarrow> db \<Rightarrow> db" where
  "ensure_queued p s =
    (if find_key qu_pool_id (db_queue s) p = None
     then s\<lparr>db_queue := db_queue s @ [\<lparr>qu_pool_id = p, qu_enqueued_at = db_now s\<rparr>]\<rparr> else s)"

definition claim_pool :: "i64 \<Rightarrow> Claim tx" where
  "claim_pool p s =
    (if halted_period p s \<noteq> None then Inl (Raised ''55000'' ''RecalcHalted'')
     else if pool_of s p = None then Inl (raise_ledger_error (UnknownPool p))
     else read_claim p (ensure_queued p s))"

definition ledger_recalc_step ::
  "(i64 \<Rightarrow> bool) \<Rightarrow> (db \<Rightarrow> db) \<Rightarrow> (Claim \<times> PassOutcome option) option tx" where
  "ledger_recalc_step locked mid =
    tx_bind (claim_next locked) (\<lambda>claim.
    case claim of
      None \<Rightarrow> tx_return None
    | Some c \<Rightarrow>
        if \<not> strict_method (cl_method c)
        then tx_bind (drop_queue_row (cl_pool_id c)) (\<lambda>_. tx_return (Some (c, None)))
        else tx_bind (run_claimed_pass mid c) (\<lambda>out. tx_return (Some (c, Some out))))"

text \<open>The drain loop; \<open>mids i\<close> is what others commit during the pass after which \<open>i\<close> more are allowed.\<close>

fun drain_loop :: "(nat \<Rightarrow> db \<Rightarrow> db) \<Rightarrow> nat \<Rightarrow> i64 \<Rightarrow> DrainStats \<Rightarrow> DrainOutcome tx" where
  "drain_loop mids 0 p stats =
    tx_fail (Raised ''XX000'' ''drain_pool_to_head: pool did not quiesce'')"
| "drain_loop mids (Suc n) p stats =
    tx_bind (claim_pool p) (\<lambda>claim.
    if \<not> strict_method (cl_method claim)
    then tx_bind (drop_queue_row p) (\<lambda>_. tx_return (NonStrict (cl_method claim)))
    else
      tx_bind (run_claimed_pass (mids n) claim) (\<lambda>out.
      let stats' = \<lparr>dr_passes = dr_passes stats + 1,
            dr_settlements = dr_settlements stats + int (pass_settlements out),
            dr_adjustments = dr_adjustments stats + int (pass_adjustments out),
            dr_generation = pass_generation out, dr_escalated = pass_escalated out\<rparr>
      in if pass_escalated out \<noteq> None \<or> \<not> pass_requeued out then tx_return (Drained stats')
         else drain_loop mids n p stats'))"

definition drain_pool_to_head :: "(nat \<Rightarrow> db \<Rightarrow> db) \<Rightarrow> i64 \<Rightarrow> DrainOutcome tx" where
  "drain_pool_to_head mids p =
    drain_loop mids MAX_DRAIN_PASSES p
      \<lparr>dr_passes = 0, dr_settlements = 0, dr_adjustments = 0, dr_generation = 0, dr_escalated = None\<rparr>"

section \<open>What the reads return\<close>

lemma sorted_key_split:
  fixes k :: "'a \<Rightarrow> 'b :: linorder"
  assumes "sorted (map k xs)"
  shows "xs = filter (\<lambda>x. k x \<le> f) xs @ filter (\<lambda>x. f < k x) xs"
  using assms
proof (induction xs)
  case (Cons x xs)
  then show ?case
    by (cases "k x \<le> f") (auto simp: filter_empty_conv not_le less_le_trans dest: order_trans)
qed simp

lemma sort_key_Nil [simp]: "sort_key k xs = [] \<longleftrightarrow> xs = []"
  using length_sort[of k xs] by (metis length_0_conv)

lemma hd_sort_key:
  assumes "sort_key k xs = y # ys"
  shows "y \<in> set xs \<and> (\<forall>x \<in> set xs. k y \<le> k x)"
proof -
  have "set (sort_key k xs) = insert y (set ys)" "sorted (map k (y # ys))"
    using assms sorted_sort_key[of k xs] by (simp_all del: set_sort)
  then show ?thesis by auto
qed

lemma line_pos_less: "line_pos r < line_pos r' \<longleftrightarrow>
    tl_posted_at r < tl_posted_at r' \<or> (tl_posted_at r = tl_posted_at r' \<and> tl_id r < tl_id r')"
  by (auto simp: line_pos_def)

lemma scan_events_set: "sc_id ` set (scan_events p f s) =
    tl_id ` {r \<in> set (db_trx_line s). physical p r \<and> after f r}"
  by (simp add: scan_events_def image_image scan_of_def)

lemma scan_from_frontier:
  "scan_events p (Some f) s =
    map scan_of (filter (\<lambda>r. f < line_pos r) (sort_key line_pos (filter (physical p) (db_trx_line s))))"
  by (simp add: scan_events_def after_def filter_sort conj_commute flip: filter_filter)

lemma scan_from_opening:
  "scan_events p None s = map scan_of (sort_key line_pos (filter (physical p) (db_trx_line s)))"
  by (simp add: scan_events_def after_def)

lemma current_settlement_None:
  "current_settlement s d = None \<longleftrightarrow> d \<notin> cs_depletion ` set (db_cost_settlement s)"
proof (cases "sort_key (\<lambda>r. - cs_generation r) (filter (\<lambda>r. cs_depletion r = d) (db_cost_settlement s))")
  case Nil
  then have "filter (\<lambda>r. cs_depletion r = d) (db_cost_settlement s) = []"
    by simp
  then show ?thesis using Nil by (auto simp: current_settlement_def filter_empty_conv)
next
  case (Cons r rs)
  then show ?thesis using hd_sort_key[OF Cons] by (auto simp: current_settlement_def)
qed

lemma current_settlement_Some:
  "current_settlement s d = Some r \<Longrightarrow> r \<in> set (db_cost_settlement s) \<and> cs_depletion r = d"
  by (auto simp: current_settlement_def split: list.splits dest: hd_sort_key)

lemma current_settlement_new:
  assumes "r \<in> set (db_cost_settlement s)" "cs_depletion r = d"
    "\<And>r'. r' \<in> set (db_cost_settlement s) \<Longrightarrow> cs_depletion r' = d \<Longrightarrow> r' \<noteq> r \<Longrightarrow>
      cs_generation r' < cs_generation r"
  shows "current_settlement s d = Some r"
proof (cases "current_settlement s d")
  case None
  then show ?thesis using assms by (auto simp: current_settlement_None)
next
  case (Some r')
  let ?rows = "filter (\<lambda>r. cs_depletion r = d) (db_cost_settlement s)"
  obtain ys where "sort_key (\<lambda>r. - cs_generation r) ?rows = r' # ys"
    using Some by (auto simp: current_settlement_def split: list.splits)
  from hd_sort_key[OF this] assms show ?thesis using Some by force
qed

lemma current_settlement_cong:
  "filter (\<lambda>r. cs_depletion r = d) (db_cost_settlement s') =
    filter (\<lambda>r. cs_depletion r = d) (db_cost_settlement s) \<Longrightarrow>
    current_settlement s' d = current_settlement s d"
  by (simp add: current_settlement_def)

lemma load_priors_map:
  "map_of (load_priors cs s) d =
    (if d \<in> dep_trx_line_id ` set cs then map_option cs_authoritative (current_settlement s d) else None)"
proof -
  have "map_of (concat (map (\<lambda>d. case f d of None \<Rightarrow> [] | Some r \<Rightarrow> [(d, g r)]) ds)) d =
      (if d \<in> set ds then map_option g (f d) else None)"
    for f :: "i64 \<Rightarrow> cost_settlement_row option" and g :: "cost_settlement_row \<Rightarrow> i64" and ds
    by (induction ds) (auto split: option.splits)
  then show ?thesis by (simp add: load_priors_def btree_set_def)
qed

section \<open>The pending write set\<close>

definition prior_of :: "db \<Rightarrow> DepletionCosting \<Rightarrow> i64" where
  "prior_of s c = (case current_settlement s (dep_trx_line_id c) of
     Some r \<Rightarrow> cs_authoritative r | None \<Rightarrow> dep_observed c)"

definition needs_write :: "db \<Rightarrow> DepletionCosting \<Rightarrow> bool" where
  "needs_write s c \<longleftrightarrow>
    current_settlement s (dep_trx_line_id c) = None \<or> dep_authoritative c \<noteq> prior_of s c"

definition pending_for :: "db \<Rightarrow> Pending \<Rightarrow> bool" where
  "pending_for s x \<longleftrightarrow>
    pd_prior x = prior_of s (pd_costing x) \<and>
    pd_delta x = wrap_i64 (dep_authoritative (pd_costing x) - pd_prior x) * dep_qty (pd_costing x)"

lemma pending_of_ok:
  assumes "pending_of scanned priors c = Inr ps"
    "map_of priors (dep_trx_line_id c) = map_option cs_authoritative (current_settlement s (dep_trx_line_id c))"
  shows "map pd_costing ps = filter (needs_write s) [c] \<and> list_all (pending_for s) ps"
  using assms
  by (auto simp: pending_of_def needs_write_def prior_of_def pending_for_def Let_def
      split: option.splits if_splits)

lemma pendings_ok:
  assumes "pendings scanned priors cs = Inr ps"
    "\<And>c. c \<in> set cs \<Longrightarrow> map_of priors (dep_trx_line_id c) =
      map_option cs_authoritative (current_settlement s (dep_trx_line_id c))"
  shows "map pd_costing ps = filter (needs_write s) cs \<and> list_all (pending_for s) ps"
  using assms
proof (induction cs arbitrary: ps)
  case (Cons c cs)
  from Cons.prems(1) obtain xs ys where "pending_of scanned priors c = Inr xs"
    "pendings scanned priors cs = Inr ys" "ps = xs @ ys"
    by (auto simp: and_then_def split: sum.splits)
  then show ?case
    using pending_of_ok[of scanned priors c xs s] Cons.IH[of ys] Cons.prems(2) by (auto split: if_splits)
qed simp

section \<open>What writing a generation changes\<close>

definition engine_frame :: "db \<Rightarrow> db \<Rightarrow> bool" where
  "engine_frame s s' \<longleftrightarrow>
    db_pool s' = db_pool s \<and> db_pool_state s' = db_pool_state s \<and> db_queue s' = db_queue s \<and>
    db_settlement s' = db_settlement s \<and> db_escalation s' = db_escalation s \<and>
    db_period s' = db_period s \<and> db_now s' = db_now s \<and> db_quot s' = db_quot s"

definition settled_key :: "cost_settlement_row \<Rightarrow> i64 \<times> i64 \<times> i64" where
  "settled_key r = (cs_depletion r, cs_generation r, cs_authoritative r)"

definition pending_key :: "i64 \<Rightarrow> Pending \<Rightarrow> i64 \<times> i64 \<times> i64" where
  "pending_key generation x =
    (dep_trx_line_id (pd_costing x), generation, dep_authoritative (pd_costing x))"

definition adjustments_added :: "db \<Rightarrow> db \<Rightarrow> bool" where
  "adjustments_added s s' \<longleftrightarrow>
    (\<exists>ls. db_trx_line s' = db_trx_line s @ ls \<and> distinct (map tl_id ls) \<and>
      list_all (\<lambda>r. tl_line_type r = cost_adjustment_line \<and>
        db_next_line s \<le> tl_id r \<and> tl_id r < db_next_line s') ls) \<and>
    db_next_line s \<le> db_next_line s'"

definition written :: "(i64 \<times> i64 \<times> i64) list \<Rightarrow> db \<Rightarrow> db \<Rightarrow> bool" where
  "written ks s s' \<longleftrightarrow>
    engine_frame s s' \<and> adjustments_added s s' \<and>
    (\<exists>rs. db_cost_settlement s' = db_cost_settlement s @ rs \<and> map settled_key rs = ks)"

lemma adjustments_added_refl:
  "db_trx_line s' = db_trx_line s \<Longrightarrow> db_next_line s' = db_next_line s \<Longrightarrow> adjustments_added s s'"
  by (simp add: adjustments_added_def)

lemma adjustments_added_trans:
  assumes "adjustments_added s s1" "adjustments_added s1 s2"
  shows "adjustments_added s s2"
proof -
  from assms obtain ls ms where ls: "db_trx_line s1 = db_trx_line s @ ls" "distinct (map tl_id ls)"
    "list_all (\<lambda>r. tl_line_type r = cost_adjustment_line \<and>
      db_next_line s \<le> tl_id r \<and> tl_id r < db_next_line s1) ls"
    "db_next_line s \<le> db_next_line s1"
    and ms: "db_trx_line s2 = db_trx_line s1 @ ms" "distinct (map tl_id ms)"
    "list_all (\<lambda>r. tl_line_type r = cost_adjustment_line \<and>
      db_next_line s1 \<le> tl_id r \<and> tl_id r < db_next_line s2) ms"
    "db_next_line s1 \<le> db_next_line s2"
    by (auto simp: adjustments_added_def)
  have "tl_id ` set ls \<inter> tl_id ` set ms = {}"
    using ls(3) ms(3) by (fastforce simp: list_all_iff)
  then show ?thesis
    using ls ms unfolding adjustments_added_def
    by (intro conjI exI[of _ "ls @ ms"]) (auto simp: list_all_iff)
qed

lemma written_trans: "written ks s s1 \<Longrightarrow> written ks' s1 s2 \<Longrightarrow> written (ks @ ks') s s2"
  unfolding written_def by (auto simp: engine_frame_def intro: adjustments_added_trans)

lemma written_iter:
  assumes "tx_iter f xs s = Inr (u, s')"
    "\<And>x s s'. x \<in> set xs \<Longrightarrow> f x s = Inr ((), s') \<Longrightarrow> written (g x) s s'"
  shows "written (concat (map g xs)) s s'"
  using assms
proof (induction xs arbitrary: s)
  case Nil
  then show ?case by (auto simp: written_def engine_frame_def adjustments_added_refl)
next
  case (Cons x xs)
  then obtain s1 where "f x s = Inr ((), s1)" "tx_iter f xs s1 = Inr (u, s')" by (auto simp: tx_bind_Inr)
  then show ?case using Cons.IH[of s1] Cons.prems(2) by (auto intro: written_trans)
qed

lemma insert_settlement_ok:
  assumes "insert_settlement generation x posting s = Inr (u, s')"
  shows "s' = s\<lparr>db_cost_settlement := db_cost_settlement s @ [settlement_for generation x posting]\<rparr>"
  using assms
  by (auto simp: insert_settlement_def Let_def split: option.splits sum.splits if_splits)

lemma insert_consumption_written:
  "insert_consumption generation x s = Inr (u, s') \<Longrightarrow> written [] s s'"
  by (auto simp: insert_consumption_def Let_def written_def engine_frame_def adjustments_added_refl
      split: if_splits)

lemma settle_unchanged_written:
  "settle_unchanged generation x s = Inr (u, s') \<Longrightarrow> written [pending_key generation x] s s'"
  by (auto simp: settle_unchanged_def written_def engine_frame_def adjustments_added_refl pending_key_def
      settled_key_def settlement_for_def dest!: insert_settlement_ok)

lemma insert_adjustment_trx_written:
  "insert_adjustment_trx s = Inr (trx_id, s') \<Longrightarrow> written [] s s'"
  by (auto simp: insert_adjustment_trx_def insert_trx_def written_def engine_frame_def
      adjustments_added_refl split: if_splits)

lemma insert_line_adds:
  "insert_line r s = Inr (i, s') \<Longrightarrow> i = db_next_line s \<and>
    s' = s\<lparr>db_trx_line := db_trx_line s @ [r\<lparr>tl_id := db_next_line s\<rparr>], db_next_line := db_next_line s + 1\<rparr>"
  using insert_line_ok(1,2) by blast

lemma write_adjustment_ok:
  assumes "write_adjustment p generation accounts trx_id x s = Inr (u, s')"
  obtains l where "decode_line_type (pd_line_type x) = Some l"
    "s' = s\<lparr>db_trx_line := db_trx_line s @
          [(adjustment_line p trx_id x (db_now s))\<lparr>tl_id := db_next_line s\<rparr>],
        db_next_line := db_next_line s + 1,
        db_posting := db_posting s @
          [(adjustment_posting (pair_for accounts l) (db_next_line s) \<bar>pd_delta x\<bar> x (db_now s))
            \<lparr>po_id := db_next_posting s\<rparr>],
        db_next_posting := db_next_posting s + 1,
        db_cost_settlement := db_cost_settlement s @
          [settlement_for generation x (Some (db_next_posting s))]\<rparr>"
  using assms
  by (auto simp: write_adjustment_def recalc_pair_for_def try_i64_def tx_bind_Inr insert_posting_def
      split: option.splits if_splits dest!: insert_line_adds insert_settlement_ok)

lemma write_adjustment_written:
  assumes "write_adjustment p generation accounts trx_id x s = Inr (u, s')"
  shows "written [pending_key generation x] s s'"
  using assms
  by (rule write_adjustment_ok)
    (auto simp: written_def engine_frame_def adjustments_added_def pending_key_def settled_key_def
      settlement_for_def adjustment_line_def)

lemma write_generation_written:
  assumes "write_generation p generation pending s = Inr (n, s')"
  shows "written (map (pending_key generation) (filter (\<lambda>x. pd_delta x \<noteq> 0) pending @
      filter (\<lambda>x. pd_delta x = 0) pending)) s s'"
proof -
  let ?adj = "filter (\<lambda>x. pd_delta x \<noteq> 0) pending" and ?zero = "filter (\<lambda>x. pd_delta x = 0) pending"
  obtain accounts s1 s2 s3 draws where
    acc: "(if ?adj = [] then tx_return None
      else tx_bind (resolve_accounts p) (\<lambda>a. tx_return (Some a))) s = Inr (accounts, s1)"
    and draws: "tx_iter (insert_consumption generation) draws s1 = Inr ((), s2)"
    and adj: "(case accounts of None \<Rightarrow> tx_return () | Some a \<Rightarrow>
        tx_bind insert_adjustment_trx (\<lambda>trx_id. tx_iter (write_adjustment p generation a trx_id) ?adj)) s2 =
      Inr ((), s3)"
    and zero: "tx_iter (settle_unchanged generation) ?zero s3 = Inr ((), s')"
    using assms by (auto simp: write_generation_def Let_def tx_bind_Inr)
  have s1: "s1 = s" "?adj = [] \<or> accounts \<noteq> None" "?adj \<noteq> [] \<or> accounts = None"
    using acc by (auto simp: tx_bind_Inr resolve_accounts_def split: if_splits option.splits dest: sym)
  have nil: "concat (map (\<lambda>_. []) xs) = []" for xs :: "'x list" by (induction xs) simp_all
  have "written (concat (map (\<lambda>_. []) draws)) s s2"
    using draws unfolding s1(1) by (rule written_iter) (rule insert_consumption_written)
  then have 1: "written [] s s2" unfolding nil .
  have 2: "written (concat (map (\<lambda>x. [pending_key generation x]) ?adj)) s2 s3"
  proof (cases accounts)
    case None
    then show ?thesis
      using adj s1(2) by (auto simp: written_def engine_frame_def adjustments_added_refl)
  next
    case (Some a)
    then obtain trx_id s4 where "insert_adjustment_trx s2 = Inr (trx_id, s4)"
      and iter: "tx_iter (write_adjustment p generation a trx_id) ?adj s4 = Inr ((), s3)"
      using adj by (auto simp: tx_bind_Inr)
    then have "written [] s2 s4" by (simp add: insert_adjustment_trx_written)
    moreover have "written (concat (map (\<lambda>x. [pending_key generation x]) ?adj)) s4 s3"
      using iter by (rule written_iter) (rule write_adjustment_written)
    ultimately show ?thesis using written_trans by fastforce
  qed
  have 3: "written (concat (map (\<lambda>x. [pending_key generation x]) ?zero)) s3 s'"
    using zero by (rule written_iter) (rule settle_unchanged_written)
  have "concat (map (\<lambda>x. [f x]) xs) = map f xs" for f :: "Pending \<Rightarrow> i64 \<times> i64 \<times> i64" and xs
    by (induction xs) simp_all
  then show ?thesis using written_trans[OF written_trans[OF 1 2] 3] by simp
qed

section \<open>What the rest of a pass changes\<close>

definition open_row :: "i64 \<Rightarrow> StrictLayer \<Rightarrow> state_row" where
  "open_row p l = \<lparr>st_pool_id = p, st_layer_id = lay_id l, st_qty = lay_qty l,
    st_unit_cost = lay_unit_cost l, st_value_sum = lay_qty l * lay_unit_cost l\<rparr>"

lemma insert_open_layers_ok:
  "tx_iter (insert_open_layer p) ls s = Inr (u, s') \<Longrightarrow>
    s' = s\<lparr>db_pool_state := db_pool_state s @ map (open_row p) ls\<rparr>"
proof (induction ls arbitrary: s)
  case (Cons l ls)
  then obtain s1 where "insert_open_layer p l s = Inr ((), s1)" "tx_iter (insert_open_layer p) ls s1 = Inr (u, s')"
    by (auto simp: tx_bind_Inr)
  moreover from this have "s1 = s\<lparr>db_pool_state := db_pool_state s @ [open_row p l]\<rparr>"
    by (auto simp: insert_open_layer_def layer_row_def insert_layer_def tx_bind_Inr and_then_Inr open_row_def
        split: if_splits)
  ultimately show ?case using Cons.IH[of s1] by simp
qed simp

lemma materialize_layers_ok:
  "materialize_layers p ls s = Inr (u, s') \<Longrightarrow>
    s' = s\<lparr>db_pool_state := filter (\<lambda>r. \<not> open_layer_of p r) (db_pool_state s) @ map (open_row p) ls\<rparr>"
  by (auto simp: materialize_layers_def delete_open_layers_def tx_bind_Inr dest: insert_open_layers_ok)

lemma filter_put_key_other:
  assumes "\<not> P r" "\<And>x. key x = key r \<Longrightarrow> \<not> P x"
  shows "filter P (put_key key r rows) = filter P rows"
  using assms by (induction rows) auto

lemma reconcile_aggregate_ok:
  assumes "reconcile_aggregate_value p net s = Inr (u, s')"
  obtains "state_of s p 0 = None" "s' = s"
  | r r' where "state_of s p 0 = Some r" "s' = put_state r' s" "st_key r' = (p, 0)"
      "st_value_sum r' = st_value_sum r - net" "st_qty r' = st_qty r"
  using assms
  by (auto simp: reconcile_aggregate_value_def and_then_Inr state_of_def try_i64_def st_key_def
      split: option.splits if_splits dest!: find_key_Some)

lemma settle_ok:
  assumes "settle claim generation f s = Inr (pending, s')"
  obtains r where "settlement_of s' (cl_pool_id claim) = Some r"
    "s' = s\<lparr>db_settlement := db_settlement s'\<rparr>" "se_settled_through r = Some f"
    "generation \<le> se_generation r" "pending \<longleftrightarrow> se_recost_floor r \<noteq> None"
    "case settlement_of s (cl_pool_id claim) of None \<Rightarrow> se_recost_floor r = None
      | Some r0 \<Rightarrow> se_generation r0 \<le> se_generation r \<and>
          se_recost_floor r = (if se_recost_floor r0 = cl_floor claim then None else se_recost_floor r0)"
proof (cases "settlement_of s (cl_pool_id claim)")
  case None
  then show ?thesis
    using assms by (intro that) (auto simp: settle_def settlement_of_def find_put_key)
next
  case (Some r0)
  have k: "se_pool_id r0 = cl_pool_id claim" using Some by (auto simp: settlement_of_def dest: find_key_Some)
  show ?thesis
    using assms Some k by (intro that) (auto simp: settle_def settlement_of_def find_put_key Let_def)
qed

text \<open>The queue decision, on the state \<open>s\<close> it reads.\<close>

lemma missed_event_None:
  "missed_event p from f ids s = None \<longleftrightarrow>
    (\<forall>r\<in>set (db_trx_line s). physical p r \<and> after from r \<and> line_pos r \<le> f \<longrightarrow> tl_id r \<in> set ids)"
proof -
  let ?rows = "filter (\<lambda>r. physical p r \<and> after from r \<and> line_pos r \<le> f \<and> tl_id r \<notin> set ids) (db_trx_line s)"
  have "missed_event p from f ids s = None \<longleftrightarrow> sort_key line_pos ?rows = []"
    unfolding missed_event_def by (cases "sort_key line_pos ?rows") simp_all
  also have "\<dots> \<longleftrightarrow> ?rows = []" by (rule sort_key_Nil)
  finally show ?thesis by (auto simp: filter_empty_conv)
qed

lemma missed_event_Some:
  assumes "missed_event p from f ids s = Some pos" "r \<in> set (db_trx_line s)" "physical p r" "after from r"
    "line_pos r \<le> f" "tl_id r \<notin> set ids"
  shows "pos \<le> line_pos r"
proof -
  let ?rows = "filter (\<lambda>r. physical p r \<and> after from r \<and> line_pos r \<le> f \<and> tl_id r \<notin> set ids) (db_trx_line s)"
  obtain r0 rs where "sort_key line_pos ?rows = r0 # rs" "pos = line_pos r0"
    using assms(1) by (auto simp: missed_event_def split: list.splits)
  from hd_sort_key[OF this(1)] this(2) assms show ?thesis by simp
qed

lemma tail_count_0:
  "tail_count p f s = 0 \<longleftrightarrow> (\<forall>r\<in>set (db_trx_line s). physical p r \<longrightarrow> \<not> after f r)"
  by (auto simp: tail_count_def filter_empty_conv)

lemma lower_floor_frame [simp]:
  "db_trx_line (lower_floor p pos s) = db_trx_line s" "db_queue (lower_floor p pos s) = db_queue s"
  "db_pool_state (lower_floor p pos s) = db_pool_state s" "db_pool (lower_floor p pos s) = db_pool s"
  "db_cost_settlement (lower_floor p pos s) = db_cost_settlement s"
  "db_posting (lower_floor p pos s) = db_posting s" "db_next_line (lower_floor p pos s) = db_next_line s"
  "db_escalation (lower_floor p pos s) = db_escalation s"
  by (auto simp: lower_floor_def split: option.splits)

lemma reset_backlog_frame [simp]:
  "db_trx_line (reset_backlog p n s) = db_trx_line s" "db_queue (reset_backlog p n s) = db_queue s"
  "db_pool_state (reset_backlog p n s) = db_pool_state s" "db_pool (reset_backlog p n s) = db_pool s"
  "db_cost_settlement (reset_backlog p n s) = db_cost_settlement s"
  "db_posting (reset_backlog p n s) = db_posting s" "db_next_line (reset_backlog p n s) = db_next_line s"
  "db_settlement (reset_backlog p n s) = db_settlement s"
  "db_escalation (reset_backlog p n s) = db_escalation s"
  by (simp_all add: reset_backlog_def)

lemma queue_row_frame [simp]:
  "db_trx_line (restamp_queue_row p s) = db_trx_line s" "db_trx_line (consume_queue_row p s) = db_trx_line s"
  "db_pool_state (restamp_queue_row p s) = db_pool_state s" "db_pool_state (consume_queue_row p s) = db_pool_state s"
  "db_pool (restamp_queue_row p s) = db_pool s" "db_pool (consume_queue_row p s) = db_pool s"
  "db_cost_settlement (restamp_queue_row p s) = db_cost_settlement s"
  "db_cost_settlement (consume_queue_row p s) = db_cost_settlement s"
  "db_posting (restamp_queue_row p s) = db_posting s" "db_posting (consume_queue_row p s) = db_posting s"
  "db_next_line (restamp_queue_row p s) = db_next_line s" "db_next_line (consume_queue_row p s) = db_next_line s"
  "db_settlement (restamp_queue_row p s) = db_settlement s" "db_settlement (consume_queue_row p s) = db_settlement s"
  "db_escalation (restamp_queue_row p s) = db_escalation s" "db_escalation (consume_queue_row p s) = db_escalation s"
  by (simp_all add: restamp_queue_row_def consume_queue_row_def)

lemma queue_row_pools [simp]:
  "map qu_pool_id (db_queue (restamp_queue_row p s)) = map qu_pool_id (db_queue s)"
  "map qu_pool_id (db_queue (consume_queue_row p s)) = filter (\<lambda>q. q \<noteq> p) (map qu_pool_id (db_queue s))"
  by (simp_all add: restamp_queue_row_def consume_queue_row_def filter_map o_def)

lemma note_missed_frame [simp]:
  "db_trx_line (note_missed p m s) = db_trx_line s" "db_queue (note_missed p m s) = db_queue s"
  "db_pool_state (note_missed p m s) = db_pool_state s" "db_pool (note_missed p m s) = db_pool s"
  "db_cost_settlement (note_missed p m s) = db_cost_settlement s"
  "db_posting (note_missed p m s) = db_posting s" "db_next_line (note_missed p m s) = db_next_line s"
  "db_escalation (note_missed p m s) = db_escalation s"
  by (simp_all add: note_missed_def split: option.splits)

lemma decide_queue_frame:
  assumes "decide_queue p from f ids pending s = (b, s')"
  shows "db_trx_line s' = db_trx_line s" "db_pool_state s' = db_pool_state s" "db_pool s' = db_pool s"
    "db_cost_settlement s' = db_cost_settlement s" "db_posting s' = db_posting s"
    "db_next_line s' = db_next_line s" "db_escalation s' = db_escalation s"
  using assms by (auto simp: decide_queue_def Let_def split: if_splits)

definition settled_of :: "db \<Rightarrow> i64 \<Rightarrow> position option" where
  "settled_of s p = Option.bind (settlement_of s p) se_settled_through"

definition floor_of :: "db \<Rightarrow> i64 \<Rightarrow> position option" where
  "floor_of s p = Option.bind (settlement_of s p) se_recost_floor"

definition generation_of :: "db \<Rightarrow> i64 \<Rightarrow> i64" where
  "generation_of s p = (case settlement_of s p of None \<Rightarrow> 0 | Some r \<Rightarrow> se_generation r)"

lemma settlement_of_cong [simp]:
  "settlement_of (reset_backlog p n s) q = settlement_of s q"
  "settlement_of (restamp_queue_row p s) q = settlement_of s q"
  "settlement_of (consume_queue_row p s) q = settlement_of s q"
  by (simp_all add: settlement_of_def)

lemma lower_floor_settlement:
  assumes "settlement_of s p = Some r"
  shows "\<exists>fl. settlement_of (lower_floor p pos s) p = Some (r\<lparr>se_recost_floor := Some fl\<rparr>) \<and> fl \<le> pos"
proof -
  have k: "se_pool_id r = p" using assms by (auto simp: settlement_of_def dest: find_key_Some)
  show ?thesis
  proof (cases "se_recost_floor r")
    case (Some fl)
    then have "settlement_of (lower_floor p pos s) p = Some (r\<lparr>se_recost_floor := Some (min pos fl)\<rparr>)"
      using assms k
      by (cases "pos < fl") (auto simp: lower_floor_def settlement_of_def find_put_key min_def)
    then show ?thesis using min.cobounded1 by blast
  next
    case None
    then have "settlement_of (lower_floor p pos s) p = Some (r\<lparr>se_recost_floor := Some pos\<rparr>)"
      using assms k by (simp add: lower_floor_def settlement_of_def find_put_key)
    then show ?thesis by blast
  qed
qed

lemma decide_queue_ok:
  assumes "decide_queue p from (Some f) ids pending s = (b, s')" "settlement_of s p = Some r"
  obtains fl where "settlement_of s' p = Some (r\<lparr>se_recost_floor := fl\<rparr>)"
    "b \<longleftrightarrow> pending \<or> missed_event p from f ids s \<noteq> None \<or> tail_count p (Some f) s \<noteq> 0"
    "missed_event p from f ids s = None \<Longrightarrow> fl = se_recost_floor r"
    "\<And>pos. missed_event p from f ids s = Some pos \<Longrightarrow> \<exists>x. fl = Some x \<and> x \<le> pos"
    "b \<Longrightarrow> map qu_pool_id (db_queue s') = map qu_pool_id (db_queue s)"
    "\<not> b \<Longrightarrow> p \<notin> set (map qu_pool_id (db_queue s'))"
proof -
  let ?m = "missed_event p from f ids s"
  have tail: "tail_count p (Some f) (note_missed p ?m s) = tail_count p (Some f) s"
    by (simp add: tail_count_def)
  have b: "b \<longleftrightarrow> pending \<or> ?m \<noteq> None \<or> tail_count p (Some f) s \<noteq> 0"
    using assms(1) by (auto simp: decide_queue_def Let_def tail split: if_splits)
  have set: "settlement_of s' p = settlement_of (note_missed p ?m s) p"
    using assms(1) by (auto simp: decide_queue_def Let_def split: if_splits)
  have q: "b \<Longrightarrow> map qu_pool_id (db_queue s') = map qu_pool_id (db_queue s)"
    "\<not> b \<Longrightarrow> p \<notin> set (map qu_pool_id (db_queue s'))"
    using assms(1)
    by (auto simp: decide_queue_def Let_def simp del: set_map split: if_splits)
  show thesis
  proof (cases ?m)
    case None
    then show ?thesis using b set q assms(2) by (intro that[of "se_recost_floor r"]) (auto simp: note_missed_def)
  next
    case (Some pos)
    obtain fl where "settlement_of (lower_floor p pos s) p = Some (r\<lparr>se_recost_floor := Some fl\<rparr>)" "fl \<le> pos"
      using lower_floor_settlement[OF assms(2)] by blast
    then show ?thesis
      using b set q Some by (intro that[of "Some fl"]) (auto simp: note_missed_def)
  qed
qed

section \<open>The shape of a pass\<close>



lemma finish_pass_ok:
  assumes "finish_pass mid claim scanned pending generation n s = Inr (out, s')"
    "new_frontier claim scanned = Some f"
  obtains s1 fp b where "settle claim generation f (mid s) = Inr (fp, s1)"
    "decide_queue (cl_pool_id claim) (scan_from claim) (Some f) (map sc_id scanned) fp s1 = (b, s')"
    "out = \<lparr>pass_full_replay = full_replay claim, pass_events = length scanned,
      pass_settlements = length pending, pass_adjustments = n, pass_generation = generation,
      pass_floor_pending = fp, pass_requeued = b, pass_escalated = None\<rparr>"
  using assms by (auto simp: finish_pass_def tx_bind_Inr Let_def)

lemma finish_pass_none:
  assumes "finish_pass mid claim scanned pending generation n s = Inr (out, s')"
    "new_frontier claim scanned = None"
  obtains b where
    "decide_queue (cl_pool_id claim) (scan_from claim) None (map sc_id scanned) False (mid s) = (b, s')"
    "pass_requeued out = b" "pass_escalated out = None"
  using assms by (auto simp: finish_pass_def tx_bind_Inr Let_def)

lemma run_claimed_pass_ok:
  assumes "run_claimed_pass mid claim s = Inr (out, s')" "pass_escalated out = None"
  obtains fo pending generation n s1 u s2 v s3 where "pass_fold claim s = Some fo"
    "pendings (pass_scan claim s) (load_priors (fold_costings fo) s) (fold_costings fo) = Inr pending"
    "detect_closed_period_divergence (cl_pool_id claim) pending s = None"
    "generation = cl_generation claim + (if pending \<noteq> [] then 1 else 0)"
    "(if pending \<noteq> [] then write_generation (cl_pool_id claim) generation pending else tx_return 0) s = Inr (n, s1)"
    "(if pass_scan claim s \<noteq> [] then materialize_layers (cl_pool_id claim) (fold_layers fo) else tx_return ()) s1
      = Inr (u, s2)"
    "(if sum_list (map pd_delta pending) \<noteq> 0
      then reconcile_aggregate_value (cl_pool_id claim) (sum_list (map pd_delta pending)) else tx_return ()) s2
      = Inr (v, s3)"
    "finish_pass mid claim (pass_scan claim s) pending generation n s3 = Inr (out, s')"
proof -
  from assms(1) obtain fo where fo: "pass_fold claim s = Some fo"
    by (auto simp: run_claimed_pass_def Let_def split: option.splits)
  from assms(1) fo obtain pending where
    pending: "pendings (pass_scan claim s) (load_priors (fold_costings fo) s) (fold_costings fo) = Inr pending"
    by (auto simp: run_claimed_pass_def Let_def split: sum.splits)
  have det: "detect_closed_period_divergence (cl_pool_id claim) pending s = None"
    using assms fo pending
    by (cases "detect_closed_period_divergence (cl_pool_id claim) pending s")
      (auto simp: run_claimed_pass_def Let_def tx_bind_Inr)
  show thesis
    using assms(1)
    by (simp only: run_claimed_pass_def Let_def fo pending det option.case sum.case tx_bind_Inr)
      (elim exE conjE, rule that[OF fo pending det refl], assumption+)
qed

end
