(* ===== verification/Checkpoint.thy ===== *)
theory Checkpoint
  imports Recalc "HOL-Library.Sublist" "HOL-Library.Multiset"
begin

text \<open>
  The invariant of the recalculation engine of \<open>Recalc\<close>: a pool with a settled frontier and no
  recost floor stores exactly the layers and costs that a replay of its history from the opening up
  to the frontier gives. The incremental pass, which starts from the stored layers, and the full
  pass keep it, whatever other transactions commit while they run, as long as a line behind the
  frontier comes with the floor the feed lowers for it.
\<close>

section \<open>Layers follow the order of the stream\<close>

lemma strict_event_layers_order:
  assumes "layers_in lo hi (fold_layers out)" "event_in lo hi ev" "is_i64 lo" "is_i64 hi"
    "strict_event nf ev out = Some out'"
  shows "subseq (map lay_id (fold_layers out')) (map lay_id (fold_layers out) @ [ev_trx_line_id ev])"
proof (cases "ev_qty ev > 0")
  case True
  then show ?thesis using assms(5) by (auto simp: strict_event_def)
next
  case False
  have neg: "ev_qty ev < 0" "is_i64 (- ev_qty ev)" "lo \<le> ev_unit_cost ev" "ev_unit_cost ev \<le> hi"
    using assms(2) False by (auto simp: event_in_def)
  have pos: "layers_pos (fold_layers out)"
    "list_all (\<lambda>l. lo \<le> lay_unit_cost l \<and> lay_unit_cost l \<le> hi) (fold_layers out)"
    using assms(1) by (auto simp: layers_in_def)
  obtain ls c ys where "strict_event nf ev out = Some \<lparr>fold_costings = fold_costings out @ [c], fold_layers = ls\<rparr>"
    "in_order nf (map lay_id (fold_layers out)) = ys @ in_order nf (map lay_id ls)"
    by (rule strict_event_depletion[OF pos(1) neg(1,2) assms(3,4) pos(2) neg(3,4)]) (rule that)
  then have "subseq (map lay_id (fold_layers out')) (map lay_id (fold_layers out))"
    using assms(5) by (cases nf) (auto simp: in_order_def rev_swap)
  then show ?thesis by (rule list_emb_prefix)
qed

lemma strict_events_layers_order:
  assumes "layers_in lo hi (fold_layers out)" "list_all (event_in lo hi) evs" "is_i64 lo" "is_i64 hi"
    "strict_events nf evs out = Some out'"
  shows "subseq (map lay_id (fold_layers out')) (map lay_id (fold_layers out) @ map ev_trx_line_id evs)"
  using assms
proof (induction evs arbitrary: out)
  case (Cons ev evs)
  from Cons.prems(5) obtain o1 where o1: "strict_event nf ev out = Some o1" "strict_events nf evs o1 = Some out'"
    by (auto split: bind_splits)
  obtain cs ls where
    "strict_event nf ev out = Some \<lparr>fold_costings = fold_costings out @ cs, fold_layers = ls\<rparr>"
    "layers_in lo hi ls"
    by (rule strict_event_step[of lo hi out ev nf]) (use Cons.prems in auto)
  then have in1: "layers_in lo hi (fold_layers o1)" using o1 by simp
  have "subseq (map lay_id (fold_layers out')) (map lay_id (fold_layers o1) @ map ev_trx_line_id evs)"
    using Cons.IH[OF in1 _ _ _ o1(2)] Cons.prems by simp
  also have "subseq \<dots> ((map lay_id (fold_layers out) @ [ev_trx_line_id ev]) @ map ev_trx_line_id evs)"
    using strict_event_layers_order[OF Cons.prems(1) _ Cons.prems(3,4) o1(1)] Cons.prems(2)
    by (intro list_emb_append_mono) auto
  finally show ?case by simp
qed simp

lemma sorted_subseq:
  assumes "subseq xs ys" "sorted ys"
  shows "sorted xs"
  using assms by (induction rule: list_emb.induct) (auto dest: list_emb_set)

lemma subseq_mapE:
  assumes "subseq xs (map f ys)"
  obtains zs where "subseq zs ys" "xs = map f zs"
proof -
  obtain N where "xs = nths (map f ys) N" using assms by (auto simp: subseq_conv_nths)
  then show thesis by (intro that[of "nths ys N"]) (auto simp: nths_map subseq_conv_nths)
qed

text \<open>What a fold from the opening over a well-formed stream gives.\<close>

lemma strict_fold_run:
  assumes "list_all (event_in 0 i64_max) evs"
  obtains out where "strict_fold nf [] evs = Some out" "layers_in 0 i64_max (fold_layers out)"
    "list_all2 (costing_for 0 i64_max) (filter (\<lambda>e. ev_qty e < 0) evs) (fold_costings out)"
    "subseq (map lay_id (fold_layers out)) (map ev_trx_line_id evs)"
proof -
  have b: "is_i64 0" "is_i64 i64_max" by (simp_all add: i64_defs)
  let ?o = "\<lparr>fold_costings = [], fold_layers = []\<rparr>"
  have l: "layers_in 0 i64_max (fold_layers ?o)" by (simp add: layers_in_def)
  obtain cs ls where run: "strict_events nf evs ?o = Some \<lparr>fold_costings = fold_costings ?o @ cs, fold_layers = ls\<rparr>"
    "layers_in 0 i64_max ls" "list_all2 (costing_for 0 i64_max) (filter (\<lambda>e. ev_qty e < 0) evs) cs"
    by (rule strict_events_run[OF l assms b]) (rule that)
  show thesis
    by (rule that[of "\<lparr>fold_costings = cs, fold_layers = ls\<rparr>"])
      (use run strict_events_layers_order[OF l assms b run(1)] in \<open>auto simp: strict_fold_def\<close>)
qed

lemma strict_fold_two_parts:
  assumes "strict_fold nf [] xs = Some a"
  shows "strict_fold nf [] (xs @ ys) =
    map_option (\<lambda>b. \<lparr>fold_costings = fold_costings a @ fold_costings b, fold_layers = fold_layers b\<rparr>)
      (strict_fold nf (fold_layers a) ys)"
proof -
  obtain cs ls where a: "a = \<lparr>fold_costings = cs, fold_layers = ls\<rparr>" by (cases a) auto
  have upd: "(\<lambda>out. out\<lparr>fold_costings := cs @ fold_costings out\<rparr>) =
      (\<lambda>b :: StrictFoldOutput. \<lparr>fold_costings = cs @ fold_costings b, fold_layers = fold_layers b\<rparr>)"
    by (rule ext) simp
  show ?thesis
    using assms a strict_events_costings[of nf ys cs ls]
    by (simp add: strict_fold_def strict_events_append upd)
qed

section \<open>The invariant of a pool\<close>

definition stream :: "i64 \<Rightarrow> db \<Rightarrow> StrictEvent list" where
  "stream p s = map strict_event_of (scan_events p None s)"

definition sc_pos :: "Scanned \<Rightarrow> position" where
  "sc_pos x = (sc_posted_at x, sc_id x)"

definition history :: "position \<Rightarrow> i64 \<Rightarrow> db \<Rightarrow> StrictEvent list" where
  "history f p s = map strict_event_of
    (filter (\<lambda>x. sc_pos x \<le> f) (scan_events p None s))"

text \<open>The costs and layers of a pool are those of a replay \<open>out\<close>.\<close>

definition holds_replay :: "i64 \<Rightarrow> StrictFoldOutput \<Rightarrow> db \<Rightarrow> bool" where
  "holds_replay p out s \<longleftrightarrow>
    hydrate_layers p s = fold_layers out \<and>
    list_all (\<lambda>c. map_option cs_authoritative (current_settlement s (dep_trx_line_id c)) =
      Some (dep_authoritative c)) (fold_costings out)"

definition holds :: "i64 \<Rightarrow> StrictFoldOutput option \<Rightarrow> db \<Rightarrow> bool" where
  "holds p replay s = (case replay of None \<Rightarrow> False | Some out \<Rightarrow> holds_replay p out s)"

text \<open>A pool with a frontier and no recost floor holds the replay of its history up to the frontier.\<close>

definition checkpoint :: "bool \<Rightarrow> i64 \<Rightarrow> db \<Rightarrow> bool" where
  "checkpoint nf p s =
    (case settled_of s p of
       None \<Rightarrow> True
     | Some f \<Rightarrow> floor_of s p \<noteq> None \<or> holds p (strict_fold nf [] (history f p s)) s)"

definition event_line :: "trx_line_row \<Rightarrow> bool" where
  "event_line r \<longleftrightarrow> tl_qty r \<noteq> 0 \<and> is_i64 \<bar>tl_qty r\<bar> \<and> 0 \<le> tl_unit_cost r \<and> tl_unit_cost r \<le> i64_max"

definition lines_sound :: "i64 \<Rightarrow> db \<Rightarrow> bool" where
  "lines_sound p s \<longleftrightarrow>
    0 < db_next_line s \<and> distinct (map tl_id (db_trx_line s)) \<and>
    list_all (\<lambda>r. 0 < tl_id r \<and> tl_id r < db_next_line s) (db_trx_line s) \<and>
    list_all (\<lambda>r. physical p r \<longrightarrow> event_line r) (db_trx_line s)"

definition books_sound :: "i64 \<Rightarrow> i64 \<Rightarrow> db \<Rightarrow> bool" where
  "books_sound g p s \<longleftrightarrow>
    lines_sound p s \<and>
    list_all (\<lambda>r. st_value_sum r = st_qty r * st_unit_cost r \<and>
      list_ex (\<lambda>t. physical p t \<and> tl_id t = st_layer_id r) (db_trx_line s))
      (filter (open_layer_of p) (db_pool_state s)) \<and>
    list_all (\<lambda>c. list_ex (\<lambda>t. tl_id t = cs_depletion c) (db_trx_line s) \<and>
      0 \<le> cs_authoritative c \<and> cs_authoritative c \<le> i64_max) (db_cost_settlement s) \<and>
    list_all (\<lambda>c. list_ex (\<lambda>t. physical p t \<and> tl_id t = cs_depletion c) (db_trx_line s) \<longrightarrow>
      cs_generation c \<le> g) (db_cost_settlement s)"

definition pool_sound :: "i64 \<Rightarrow> db \<Rightarrow> bool" where
  "pool_sound p s \<longleftrightarrow> books_sound (generation_of s p) p s"

definition claim_of :: "bool \<Rightarrow> i64 \<Rightarrow> Claim \<Rightarrow> db \<Rightarrow> bool" where
  "claim_of nf p claim s \<longleftrightarrow>
    cl_pool_id claim = p \<and> cl_method claim = (if nf then Lifo else Fifo) \<and>
    cl_settled claim = settled_of s p \<and> cl_floor claim = floor_of s p \<and>
    cl_generation claim = generation_of s p"

text \<open>What other transactions commit during a pass over pool \<open>p\<close>: they append well-formed lines, a
  line of \<open>p\<close> at or below the settled frontier only together with the floor the feed lowers for it;
  the layers, the frontier, the generation and the settlements of \<open>p\<close> are the engine's own.\<close>

definition arrivals :: "i64 \<Rightarrow> db \<Rightarrow> db \<Rightarrow> bool" where
  "arrivals p s s' \<longleftrightarrow>
    (\<exists>new. db_trx_line s' = db_trx_line s @ new \<and>
      list_all (\<lambda>r. physical p r \<longrightarrow> after (settled_of s p) r \<or> floor_of s' p \<noteq> None) new) \<and>
    lines_sound p s' \<and>
    filter (open_layer_of p) (db_pool_state s') = filter (open_layer_of p) (db_pool_state s) \<and>
    (\<exists>rs. db_cost_settlement s' = db_cost_settlement s @ rs \<and>
      list_all (\<lambda>c. list_ex (\<lambda>t. tl_id t = cs_depletion c \<and> \<not> physical p t) (db_trx_line s') \<and>
        0 \<le> cs_authoritative c \<and> cs_authoritative c \<le> i64_max) rs) \<and>
    settled_of s' p = settled_of s p \<and> generation_of s' p = generation_of s p \<and>
    pool_of s' p = pool_of s p \<and> (floor_of s p \<noteq> None \<longrightarrow> floor_of s' p \<noteq> None)"

section \<open>Streams\<close>

lemma pos_of_scan [simp]: "sc_pos (scan_of r) = line_pos r" "sc_id (scan_of r) = tl_id r"
  by (simp_all add: scan_of_def line_pos_def sc_pos_def)

lemma event_of_scan [simp]:
  "ev_trx_line_id (strict_event_of (scan_of r)) = tl_id r" "ev_qty (strict_event_of (scan_of r)) = tl_qty r"
  "ev_unit_cost (strict_event_of (scan_of r)) = tl_unit_cost r"
  by (simp_all add: strict_event_of_def scan_of_def)

lemma history_lines:
  "history f p s = map (strict_event_of \<circ> scan_of)
    (sort_key line_pos (filter (\<lambda>r. physical p r \<and> line_pos r \<le> f) (db_trx_line s)))"
proof -
  have "filter (\<lambda>x. sc_pos x \<le> f) (map scan_of xs) =
      map scan_of (filter (\<lambda>r. line_pos r \<le> f) xs)" for xs
    by (induction xs) simp_all
  then show ?thesis
    by (simp add: history_def scan_from_opening filter_sort conj_commute flip: filter_filter)
qed

lemma stream_lines:
  "stream p s = map (strict_event_of \<circ> scan_of) (sort_key line_pos (filter (physical p) (db_trx_line s)))"
  by (simp add: stream_def scan_from_opening)

lemma stream_split: "stream p s = history f p s @ map strict_event_of (scan_events p (Some f) s)"
proof -
  let ?S = "sort_key line_pos (filter (physical p) (db_trx_line s))"
  have "?S = filter (\<lambda>r. line_pos r \<le> f) ?S @ filter (\<lambda>r. f < line_pos r) ?S"
    by (rule sorted_key_split) simp
  then have "stream p s = map (strict_event_of \<circ> scan_of)
      (filter (\<lambda>r. line_pos r \<le> f) ?S @ filter (\<lambda>r. f < line_pos r) ?S)"
    unfolding stream_lines by (rule arg_cong)
  then show ?thesis
    by (simp add: history_lines scan_from_frontier filter_sort conj_commute flip: filter_filter)
qed

lemma stream_wf: "lines_sound p s \<Longrightarrow> list_all (event_in 0 i64_max) (stream p s)"
  by (auto simp: stream_lines lines_sound_def list_all_iff event_in_def event_line_def)

lemma history_wf: "lines_sound p s \<Longrightarrow> list_all (event_in 0 i64_max) (history f p s)"
  by (auto simp: history_lines lines_sound_def list_all_iff event_in_def event_line_def)

lemma line_unique:
  "lines_sound p s \<Longrightarrow> r \<in> set (db_trx_line s) \<Longrightarrow> t \<in> set (db_trx_line s) \<Longrightarrow> tl_id r = tl_id t \<Longrightarrow> r = t"
  by (simp add: lines_sound_def distinct_map inj_on_def)

lemma lines_with_id:
  assumes "distinct (map tl_id xs)" "r \<in> set xs"
  shows "filter (\<lambda>t. tl_id t = tl_id r) xs = [r]"
  using assms
proof (induction xs)
  case (Cons x xs)
  show ?case
  proof (cases "x = r")
    case True
    then have "filter (\<lambda>t. tl_id t = tl_id r) xs = []" using Cons.prems(1)
      by (simp add: filter_empty_conv) (metis image_eqI)
    then show ?thesis using True by simp
  next
    case False
    then have "r \<in> set xs" "tl_id x \<noteq> tl_id r" using Cons.prems by auto
    then show ?thesis using Cons by simp
  qed
qed simp

text \<open>The stored layers of a pool read back in the order they were written, when that is the order of
  the receipts they came from.\<close>

lemma hydrate_open_rows:
  assumes "lines_sound p s" "filter (open_layer_of p) (db_pool_state s) = map (open_row p) ls"
    "subseq (map lay_id ls) (map tl_id (sort_key line_pos (filter (physical p) (db_trx_line s))))"
  shows "hydrate_layers p s = ls"
proof -
  let ?S = "sort_key line_pos (filter (physical p) (db_trx_line s))"
  obtain ts where ts: "subseq ts ?S" "map lay_id ls = map tl_id ts"
    by (rule subseq_mapE[OF assms(3)])
  have mem: "t \<in> set (db_trx_line s)" if "t \<in> set ts" for t
    by (rule list_emb_set[OF ts(1) that]) simp
  have len: "length ls = length ts" using arg_cong[OF ts(2), of length] by simp
  have one: "filter (\<lambda>t'. tl_id t' = tl_id t) (db_trx_line s) = [t]" if "t \<in> set ts" for t
    using lines_with_id[OF _ mem[OF that]] assms(1) by (simp add: lines_sound_def)
  have "concat (map (\<lambda>r. map (Pair r) (filter (\<lambda>t. tl_id t = st_layer_id r) (db_trx_line s)))
      (map (open_row p) ls)) = zip (map (open_row p) ls) ts"
    using len ts(2) one by (induction ls ts rule: list_induct2) (simp_all add: open_row_def)
  moreover have "sorted (map (\<lambda>(r, t). line_pos t) (zip (map (open_row p) ls) ts))"
  proof -
    have "sorted (map line_pos ts)"
      by (rule sorted_subseq[OF subseq_map[OF ts(1)]]) simp
    moreover have "map (\<lambda>(r, t). line_pos t) (zip xs ts) = map line_pos ts"
      if "length xs = length ts" for xs :: "state_row list"
      using that by (induction xs ts rule: list_induct2) simp_all
    ultimately show ?thesis using len by simp
  qed
  ultimately have "hydrate_layers p s = map (\<lambda>(r, t).
      \<lparr>lay_id = st_layer_id r, lay_qty = st_qty r, lay_unit_cost = st_unit_cost r\<rparr>) (zip (map (open_row p) ls) ts)"
    unfolding hydrate_layers_def assms(2) by (simp add: sort_key_id_if_sorted)
  also have "\<dots> = ls"
    using len by (induction ls ts rule: list_induct2) (simp_all add: open_row_def)
  finally show ?thesis .
qed

section \<open>The fold of a pass is the replay from the opening\<close>

lemma costing_ids:
  "list_all2 (costing_for lo hi) evs cs \<Longrightarrow> map dep_trx_line_id cs = map ev_trx_line_id evs"
  by (induction rule: list_all2_induct) (simp_all add: costing_for_def)

lemma list_all2_right: "list_all2 P xs ys \<Longrightarrow> y \<in> set ys \<Longrightarrow> \<exists>x\<in>set xs. P x y"
  by (induction rule: list_all2_induct) auto

lemma pass_scan_full: "full_replay claim \<Longrightarrow> map strict_event_of (pass_scan claim s) = stream (cl_pool_id claim) s"
  by (simp add: pass_scan_def scan_from_def stream_def)

lemma pass_fold_replay:
  assumes claim: "claim_of nf p claim s" and sound: "pool_sound p s" and cp: "checkpoint nf p s"
    and fold: "pass_fold claim s = Some fo"
  obtains old where
    "strict_fold nf [] (stream p s) = Some \<lparr>fold_costings = old @ fold_costings fo, fold_layers = fold_layers fo\<rparr>"
    "list_all (\<lambda>c. map_option cs_authoritative (current_settlement s (dep_trx_line_id c)) =
      Some (dep_authoritative c)) old"
    "list_all2 (costing_for 0 i64_max)
      (filter (\<lambda>e. ev_qty e < 0) (map strict_event_of (pass_scan claim s))) (fold_costings fo)"
proof (cases "full_replay claim")
  case True
  have p: "cl_pool_id claim = p" using claim by (simp add: claim_of_def)
  have ev: "map strict_event_of (pass_scan claim s) = stream p s" using pass_scan_full[OF True] p by simp
  have fo: "strict_fold nf [] (stream p s) = Some fo"
    using fold True claim ev
    by (auto simp: pass_fold_def claim_of_def fifo_strict_fold_def lifo_strict_fold_def split: if_splits)
  obtain out where "strict_fold nf [] (stream p s) = Some out"
    "list_all2 (costing_for 0 i64_max) (filter (\<lambda>e. ev_qty e < 0) (stream p s)) (fold_costings out)"
    using strict_fold_run[OF stream_wf] sound unfolding pool_sound_def books_sound_def by metis
  then show ?thesis using fo ev by (intro that[of "[]"]) auto
next
  case False
  have p: "cl_pool_id claim = p" using claim by (simp add: claim_of_def)
  obtain f where f: "settled_of s p = Some f" "cl_settled claim = Some f" "floor_of s p = None"
    using False claim unfolding full_replay_def claim_of_def by (metis option.exhaust)
  have ls: "lines_sound p s" using sound by (simp add: pool_sound_def books_sound_def)
  obtain a where a: "strict_fold nf [] (history f p s) = Some a" "layers_in 0 i64_max (fold_layers a)"
    by (rule strict_fold_run[OF history_wf[OF ls]])
  have h: "hydrate_layers p s = fold_layers a" "list_all (\<lambda>c. map_option cs_authoritative
      (current_settlement s (dep_trx_line_id c)) = Some (dep_authoritative c)) (fold_costings a)"
    using cp f a(1) by (auto simp: checkpoint_def holds_def holds_replay_def)
  let ?evs = "map strict_event_of (pass_scan claim s)"
  have scan: "pass_scan claim s = scan_events p (Some f) s"
    using False f p by (simp add: pass_scan_def scan_from_def)
  have fo: "strict_fold nf (fold_layers a) ?evs = Some fo"
    using fold False claim h(1)
    by (auto simp: pass_fold_def claim_of_def fifo_strict_fold_def lifo_strict_fold_def split: if_splits)
  have all: "strict_fold nf [] (stream p s) =
      Some \<lparr>fold_costings = fold_costings a @ fold_costings fo, fold_layers = fold_layers fo\<rparr>"
    using strict_fold_two_parts[OF a(1), of ?evs] fo stream_split[of p s f] scan by simp
  have wf: "list_all (event_in 0 i64_max) ?evs"
    using stream_wf[OF ls] stream_split[of p s f] scan by simp
  have b: "is_i64 0" "is_i64 i64_max" by (simp_all add: i64_defs)
  have l: "layers_in 0 i64_max (fold_layers \<lparr>fold_costings = [], fold_layers = fold_layers a\<rparr>)" using a by simp
  have "list_all2 (costing_for 0 i64_max) (filter (\<lambda>e. ev_qty e < 0) ?evs) (fold_costings fo)"
    by (rule strict_events_run[OF l wf b, of nf]) (use fo in \<open>auto simp: strict_fold_def\<close>)
  then show ?thesis using all h(2) by (intro that[of "fold_costings a"]) auto
qed

section \<open>What a pass leaves behind\<close>

lemma written_current:
  assumes w: "written (map (pending_key g) ps) s s1"
    and d: "distinct (map (dep_trx_line_id \<circ> pd_costing) ps)"
    and gens: "\<And>r. r \<in> set (db_cost_settlement s) \<Longrightarrow>
      cs_depletion r \<in> (dep_trx_line_id \<circ> pd_costing) ` set ps \<Longrightarrow> cs_generation r < g"
  shows "x \<in> set ps \<Longrightarrow> map_option cs_authoritative (current_settlement s1 (dep_trx_line_id (pd_costing x))) =
      Some (dep_authoritative (pd_costing x))"
    and "i \<notin> (dep_trx_line_id \<circ> pd_costing) ` set ps \<Longrightarrow> current_settlement s1 i = current_settlement s i"
proof -
  obtain rs where rs: "db_cost_settlement s1 = db_cost_settlement s @ rs" "map settled_key rs = map (pending_key g) ps"
    using w by (auto simp: written_def)
  have ids: "map cs_depletion rs = map (dep_trx_line_id \<circ> pd_costing) ps"
    using arg_cong[OF rs(2), of "map fst"] by (simp add: settled_key_def pending_key_def o_def)
  have keys: "settled_key ` set rs = pending_key g ` set ps" using rs(2) by (metis list.set_map)
  have gen: "cs_generation r = g" if "r \<in> set rs" for r
  proof -
    have "settled_key r \<in> pending_key g ` set ps" using keys that by blast
    then show ?thesis by (auto simp: settled_key_def pending_key_def)
  qed
  show "map_option cs_authoritative (current_settlement s1 (dep_trx_line_id (pd_costing x))) =
      Some (dep_authoritative (pd_costing x))" if x: "x \<in> set ps"
  proof -
    have "pending_key g x \<in> settled_key ` set rs" using keys x by blast
    then obtain r where r: "r \<in> set rs" "cs_depletion r = dep_trx_line_id (pd_costing x)"
      "cs_authoritative r = dep_authoritative (pd_costing x)"
      by (auto simp: settled_key_def pending_key_def)
    have "current_settlement s1 (dep_trx_line_id (pd_costing x)) = Some r"
    proof (rule current_settlement_new)
      fix r' assume r': "r' \<in> set (db_cost_settlement s1)" "cs_depletion r' = dep_trx_line_id (pd_costing x)" "r' \<noteq> r"
      have "r' \<notin> set rs"
        using d r r'(2,3) unfolding ids[symmetric] distinct_map by (auto simp: inj_on_def)
      then show "cs_generation r' < cs_generation r"
        using r' gens[of r'] gen[OF r(1)] x rs(1) by auto
    qed (use r rs in auto)
    then show ?thesis using r(3) by simp
  qed
  show "current_settlement s1 i = current_settlement s i" if "i \<notin> (dep_trx_line_id \<circ> pd_costing) ` set ps"
  proof (rule current_settlement_cong)
    have "set (map cs_depletion rs) = (dep_trx_line_id \<circ> pd_costing) ` set ps" unfolding ids by simp
    then have "filter (\<lambda>r. cs_depletion r = i) rs = []" using that by (auto simp: filter_empty_conv)
    then show "filter (\<lambda>r. cs_depletion r = i) (db_cost_settlement s1) =
        filter (\<lambda>r. cs_depletion r = i) (db_cost_settlement s)" using rs(1) by simp
  qed
qed

lemma hydrate_cong:
  assumes "filter (open_layer_of p) (db_pool_state s') = filter (open_layer_of p) (db_pool_state s)"
    "db_trx_line s' = db_trx_line s @ new" "lines_sound p s'"
    "list_all (\<lambda>r. list_ex (\<lambda>t. tl_id t = st_layer_id r) (db_trx_line s)) (filter (open_layer_of p) (db_pool_state s))"
  shows "hydrate_layers p s' = hydrate_layers p s"
proof -
  have "filter (\<lambda>t. tl_id t = st_layer_id r) new = []"
    if r: "r \<in> set (filter (open_layer_of p) (db_pool_state s))" for r
  proof -
    obtain t where "t \<in> set (db_trx_line s)" "tl_id t = st_layer_id r"
      using assms(4) r by (auto simp: list_all_iff list_ex_iff)
    moreover have "tl_id ` set (db_trx_line s) \<inter> tl_id ` set new = {}"
      using assms(2,3) by (simp add: lines_sound_def)
    ultimately show ?thesis unfolding filter_empty_conv by (metis IntI empty_iff imageI)
  qed
  then have "map (\<lambda>r. map (Pair r) (filter (\<lambda>t. tl_id t = st_layer_id r) (db_trx_line s')))
      (filter (open_layer_of p) (db_pool_state s)) =
    map (\<lambda>r. map (Pair r) (filter (\<lambda>t. tl_id t = st_layer_id r) (db_trx_line s)))
      (filter (open_layer_of p) (db_pool_state s))"
    using assms(2) by (intro map_cong) auto
  then show ?thesis unfolding hydrate_layers_def assms(1) by (simp only:)
qed

lemma adjustments_lines:
  assumes "adjustments_added s s'" "lines_sound p s"
  obtains adj where "db_trx_line s' = db_trx_line s @ adj" "list_all (\<lambda>r. \<not> physical p r) adj" "lines_sound p s'"
proof -
  obtain adj where adj: "db_trx_line s' = db_trx_line s @ adj" "distinct (map tl_id adj)"
    "list_all (\<lambda>r. tl_line_type r = cost_adjustment_line \<and> db_next_line s \<le> tl_id r \<and> tl_id r < db_next_line s') adj"
    "db_next_line s \<le> db_next_line s'"
    using assms(1) by (auto simp: adjustments_added_def)
  have "tl_id ` set (db_trx_line s) \<inter> tl_id ` set adj = {}"
    using assms(2) adj(3) by (fastforce simp: lines_sound_def list_all_iff)
  then have "lines_sound p s'"
    using assms(2) adj by (fastforce simp: lines_sound_def list_all_iff physical_def)
  then show thesis using adj by (intro that[of adj]) (auto simp: list_all_iff physical_def)
qed

lemma pool_layers_sorted:
  assumes "lines_sound p s" "strict_fold nf [] (stream p s) = Some out"
  shows "subseq (map lay_id (fold_layers out)) (map tl_id (sort_key line_pos (filter (physical p) (db_trx_line s))))"
  by (rule strict_fold_run[OF stream_wf[OF assms(1)], of nf])
    (use assms(2) in \<open>simp add: stream_lines o_def\<close>)

text \<open>The state before the settle statement: the books hold the replay of the whole scanned history.\<close>

lemma pending_facts:
  assumes claim: "claim_of nf p claim s" and sound: "pool_sound p s"
    and l2: "list_all2 (costing_for 0 i64_max)
      (filter (\<lambda>e. ev_qty e < 0) (map strict_event_of (pass_scan claim s))) (fold_costings fo)"
    and pend: "pendings (pass_scan claim s) (load_priors (fold_costings fo) s) (fold_costings fo) = Inr pending"
  shows "map pd_costing pending = filter (needs_write s) (fold_costings fo)" "list_all (pending_for s) pending"
    "distinct (map dep_trx_line_id (fold_costings fo))"
    "\<And>c. c \<in> set (fold_costings fo) \<Longrightarrow> \<exists>t\<in>set (db_trx_line s). physical p t \<and> after (scan_from claim) t \<and>
      tl_qty t < 0 \<and> tl_id t = dep_trx_line_id c \<and> dep_qty c = - tl_qty t \<and> dep_observed c = tl_unit_cost t \<and>
      0 \<le> dep_authoritative c \<and> dep_authoritative c \<le> i64_max"
proof -
  have "map pd_costing pending = filter (needs_write s) (fold_costings fo) \<and> list_all (pending_for s) pending"
    by (rule pendings_ok[OF pend]) (simp add: load_priors_map)
  then show "map pd_costing pending = filter (needs_write s) (fold_costings fo)" "list_all (pending_for s) pending"
    by simp_all
  have p: "cl_pool_id claim = p" using claim by (simp add: claim_of_def)
  let ?L = "sort_key line_pos (filter (\<lambda>r. physical p r \<and> after (scan_from claim) r) (db_trx_line s))"
  have evs: "map strict_event_of (pass_scan claim s) = map (strict_event_of \<circ> scan_of) ?L"
    by (simp add: pass_scan_def scan_events_def p)
  have "distinct (map tl_id (db_trx_line s))"
    using sound by (simp add: pool_sound_def books_sound_def lines_sound_def)
  then have "distinct (map tl_id ?L)"
    by (simp add: distinct_map inj_on_def)
  then have "distinct (map ev_trx_line_id (map (strict_event_of \<circ> scan_of) ?L))" by (simp add: o_def)
  then show "distinct (map dep_trx_line_id (fold_costings fo))"
    unfolding costing_ids[OF l2] evs by (rule distinct_map_filter)
  show "\<exists>t\<in>set (db_trx_line s). physical p t \<and> after (scan_from claim) t \<and>
      tl_qty t < 0 \<and> tl_id t = dep_trx_line_id c \<and> dep_qty c = - tl_qty t \<and> dep_observed c = tl_unit_cost t \<and>
      0 \<le> dep_authoritative c \<and> dep_authoritative c \<le> i64_max" if c: "c \<in> set (fold_costings fo)" for c
  proof -
    obtain e where "e \<in> set (filter (\<lambda>e. ev_qty e < 0) (map (strict_event_of \<circ> scan_of) ?L))" "costing_for 0 i64_max e c"
      using list_all2_right[OF l2 c] unfolding evs by blast
    then show ?thesis by (auto simp: costing_for_def)
  qed
qed

lemma stream_cong:
  assumes "db_trx_line s' = db_trx_line s @ new" "list_all (\<lambda>r. \<not> physical p r) new"
  shows "stream p s' = stream p s"
proof -
  have "filter (physical p) new = []" using assms(2) by (simp add: filter_empty_conv list_all_iff)
  then show ?thesis by (simp add: stream_lines assms(1))
qed

lemma no_scan_no_write:
  assumes "pass_scan claim s = []"
    "list_all2 (costing_for 0 i64_max)
      (filter (\<lambda>e. ev_qty e < 0) (map strict_event_of (pass_scan claim s))) (fold_costings fo)"
    "pendings (pass_scan claim s) (load_priors (fold_costings fo) s) (fold_costings fo) = Inr pending"
  shows "fold_costings fo = []" "pending = []"
proof -
  show 1: "fold_costings fo = []" using assms(1,2) by simp
  show "pending = []" using assms(3) by (simp add: 1)
qed

lemma no_scan_layers:
  assumes claim: "claim_of nf p claim s" and sound: "pool_sound p s" and fold: "pass_fold claim s = Some fo"
    and none: "pass_scan claim s = []"
  shows "hydrate_layers p s = fold_layers fo"
proof (cases "full_replay claim")
  case True
  have "stream p s = []" using pass_scan_full[OF True, of s] none claim by (simp add: claim_of_def)
  then have "filter (physical p) (db_trx_line s) = []" by (simp add: stream_lines)
  then have "filter (open_layer_of p) (db_pool_state s) = []"
    using sound by (auto simp: pool_sound_def books_sound_def list_all_iff list_ex_iff filter_empty_conv)
  then show ?thesis
    using True fold none
    by (auto simp: hydrate_layers_def pass_fold_def fifo_strict_fold_def lifo_strict_fold_def strict_fold_def
        split: if_splits)
next
  case False
  then show ?thesis
    using fold none claim
    by (auto simp: pass_fold_def fifo_strict_fold_def lifo_strict_fold_def strict_fold_def claim_of_def
        split: if_splits)
qed

text \<open>The three writes before the settle statement.\<close>

definition pass_writes :: "i64 \<Rightarrow> bool \<Rightarrow> i64 \<Rightarrow> StrictLayer list \<Rightarrow> Pending list \<Rightarrow> db \<Rightarrow> db \<Rightarrow> bool" where
  "pass_writes p scanned g layers pending s s3 \<longleftrightarrow>
    (\<exists>s1. written (map (pending_key g) (filter (\<lambda>x. pd_delta x \<noteq> 0) pending @
        filter (\<lambda>x. pd_delta x = 0) pending)) s s1 \<and>
      filter (open_layer_of p) (db_pool_state s3) =
        (if scanned then map (open_row p) layers else filter (open_layer_of p) (db_pool_state s)) \<and>
      db_trx_line s3 = db_trx_line s1 \<and> db_next_line s3 = db_next_line s1 \<and>
      db_cost_settlement s3 = db_cost_settlement s1 \<and> db_settlement s3 = db_settlement s1 \<and>
      db_pool s3 = db_pool s1 \<and> (pending = [] \<longrightarrow> s1 = s))"

lemma pass_writes_ok:
  assumes gen: "(if pending \<noteq> [] then write_generation p g pending else tx_return 0) s = Inr (n, s1)"
    and mat: "(if scanned \<noteq> [] then materialize_layers p layers else tx_return ()) s1 = Inr (u, s2)"
    and rec: "(if net \<noteq> 0 then reconcile_aggregate_value p net else tx_return ()) s2 = Inr (v, s3)"
    and pos: "scanned \<noteq> [] \<Longrightarrow> list_all (\<lambda>l. 0 < lay_id l) layers"
  shows "pass_writes p (scanned \<noteq> []) g layers pending s s3"
proof -
  have w: "written (map (pending_key g) (filter (\<lambda>x. pd_delta x \<noteq> 0) pending @
      filter (\<lambda>x. pd_delta x = 0) pending)) s s1"
  proof (cases "pending = []")
    case True
    then show ?thesis using gen by (auto simp: written_def engine_frame_def adjustments_added_refl)
  next
    case False
    then show ?thesis using gen write_generation_written[of p g pending s n s1] by simp
  qed
  have rows: "filter (open_layer_of p) (map (open_row p) ls) = map (open_row p) ls"
    if "list_all (\<lambda>l. 0 < lay_id l) ls" for ls
    using that by (induction ls) (auto simp: open_layer_of_def open_row_def)
  have none: "filter (open_layer_of p) (filter (\<lambda>r. \<not> open_layer_of p r) xs) = []" for xs
    by (simp add: filter_empty_conv)
  have s2: "filter (open_layer_of p) (db_pool_state s2) =
      (if scanned \<noteq> [] then map (open_row p) layers else filter (open_layer_of p) (db_pool_state s1)) \<and>
    db_trx_line s2 = db_trx_line s1 \<and> db_next_line s2 = db_next_line s1 \<and>
    db_cost_settlement s2 = db_cost_settlement s1 \<and> db_settlement s2 = db_settlement s1 \<and> db_pool s2 = db_pool s1"
  proof (cases "scanned = []")
    case False
    then have "materialize_layers p layers s1 = Inr (u, s2)" using mat by simp
    from materialize_layers_ok[OF this] show ?thesis using False rows[OF pos[OF False]] none by simp
  qed (use mat in simp)
  have "filter (open_layer_of p) (db_pool_state s3) = filter (open_layer_of p) (db_pool_state s2) \<and>
    db_trx_line s3 = db_trx_line s2 \<and> db_next_line s3 = db_next_line s2 \<and>
    db_cost_settlement s3 = db_cost_settlement s2 \<and> db_settlement s3 = db_settlement s2 \<and> db_pool s3 = db_pool s2"
  proof (cases "net = 0")
    case True
    then show ?thesis using rec by simp
  next
    case False
    then have "reconcile_aggregate_value p net s2 = Inr (v, s3)" using rec by simp
    then show ?thesis
    proof (cases rule: reconcile_aggregate_ok)
      case (2 r r')
      have "filter (open_layer_of p) (put_key st_key r' xs) = filter (open_layer_of p) xs" for xs
        by (rule filter_put_key_other) (use 2(3) in \<open>auto simp: st_key_def open_layer_of_def\<close>)
      then show ?thesis using 2 by (simp add: put_state_def)
    qed simp
  qed
  moreover have "db_pool_state s1 = db_pool_state s" using w by (simp add: written_def engine_frame_def)
  moreover have "pending = [] \<longrightarrow> s1 = s" using gen by auto
  ultimately show ?thesis using w s2 unfolding pass_writes_def by (intro exI[of _ s1]) simp
qed

lemma lines_sound_cong:
  "db_trx_line s' = db_trx_line s \<Longrightarrow> db_next_line s' = db_next_line s \<Longrightarrow> lines_sound p s' = lines_sound p s"
  by (simp add: lines_sound_def)

lemma layer_ids_physical:
  assumes "lines_sound p s" "strict_fold nf [] (stream p s) = Some out" "l \<in> set (fold_layers out)"
  shows "\<exists>t\<in>set (db_trx_line s). physical p t \<and> tl_id t = lay_id l" "0 < lay_id l"
proof -
  have l: "lay_id l \<in> set (map lay_id (fold_layers out))" using assms(3) by simp
  show 1: "\<exists>t\<in>set (db_trx_line s). physical p t \<and> tl_id t = lay_id l"
    by (rule list_emb_set[OF pool_layers_sorted[OF assms(1,2)] l]) auto
  then show "0 < lay_id l" using assms(1) by (auto simp: lines_sound_def list_all_iff)
qed

lemma replay_ids_distinct:
  assumes "lines_sound p s" "strict_fold nf [] (stream p s) = Some out"
  shows "distinct (map dep_trx_line_id (fold_costings out))"
    "c \<in> set (fold_costings out) \<Longrightarrow> \<exists>t\<in>set (db_trx_line s). physical p t \<and> tl_id t = dep_trx_line_id c"
proof -
  obtain l2: "list_all2 (costing_for 0 i64_max) (filter (\<lambda>e. ev_qty e < 0) (stream p s)) (fold_costings out)"
    by (rule strict_fold_run[OF stream_wf[OF assms(1)], of nf]) (use assms(2) in simp)
  have "distinct (map tl_id (sort_key line_pos (filter (physical p) (db_trx_line s))))"
    using assms(1) by (auto simp: lines_sound_def distinct_map inj_on_def)
  then have "distinct (map ev_trx_line_id (stream p s))" by (simp add: stream_lines o_def)
  then show "distinct (map dep_trx_line_id (fold_costings out))"
    unfolding costing_ids[OF l2] by (rule distinct_map_filter)
  show "\<exists>t\<in>set (db_trx_line s). physical p t \<and> tl_id t = dep_trx_line_id c" if "c \<in> set (fold_costings out)"
    using list_all2_right[OF l2 that] by (auto simp: costing_for_def stream_lines)
qed

lemma written_costs:
  assumes sound: "pool_sound p s" and g: "pending \<noteq> [] \<Longrightarrow> generation_of s p < g"
    and w: "written (map (pending_key g) ps) s s1" and ps: "mset ps = mset pending"
    and pc: "map pd_costing pending = filter (needs_write s) cs"
    and dist: "distinct (map dep_trx_line_id (old @ cs))"
    and phys: "\<And>c. c \<in> set cs \<Longrightarrow> \<exists>t\<in>set (db_trx_line s). physical p t \<and> tl_id t = dep_trx_line_id c"
    and old: "list_all (\<lambda>c. map_option cs_authoritative (current_settlement s (dep_trx_line_id c)) =
      Some (dep_authoritative c)) old"
  shows "list_all (\<lambda>c. map_option cs_authoritative (current_settlement s1 (dep_trx_line_id c)) =
      Some (dep_authoritative c)) (old @ cs)"
proof -
  have set: "set ps = set pending" using ps by (metis set_mset_mset)
  have pset: "pd_costing ` set ps = {c \<in> set cs. needs_write s c}"
    using arg_cong[OF pc, of set] set by simp
  have "distinct (map dep_trx_line_id (map pd_costing pending))"
    unfolding pc using dist by (simp add: distinct_map_filter)
  then have d: "distinct (map (dep_trx_line_id \<circ> pd_costing) ps)"
    using ps mset_eq_imp_distinct_iff[of "map (dep_trx_line_id \<circ> pd_costing) ps" "map (dep_trx_line_id \<circ> pd_costing) pending"]
    by (simp add: o_def)
  have ids: "(dep_trx_line_id \<circ> pd_costing) ` set ps = dep_trx_line_id ` {c \<in> set cs. needs_write s c}"
    unfolding image_comp[symmetric] pset ..
  have gens: "cs_generation r < g"
    if r: "r \<in> set (db_cost_settlement s)" and i: "cs_depletion r \<in> (dep_trx_line_id \<circ> pd_costing) ` set ps" for r
  proof -
    have "pending \<noteq> []" using i set by auto
    moreover obtain c where c: "c \<in> set cs" "cs_depletion r = dep_trx_line_id c" using i unfolding ids by blast
    then obtain t where "t \<in> set (db_trx_line s)" "physical p t" "tl_id t = cs_depletion r"
      using phys[OF c(1)] by auto
    then have "cs_generation r \<le> generation_of s p"
      using sound r by (auto simp: pool_sound_def books_sound_def list_all_iff list_ex_iff)
    ultimately show ?thesis using g by simp
  qed
  have cur1: "map_option cs_authoritative (current_settlement s1 (dep_trx_line_id (pd_costing x))) =
      Some (dep_authoritative (pd_costing x))" if "x \<in> set ps" for x
    using w d gens that by (rule written_current(1))
  have cur2: "current_settlement s1 i = current_settlement s i"
    if "i \<notin> (dep_trx_line_id \<circ> pd_costing) ` set ps" for i
    using w d gens that by (rule written_current(2))
  have "map_option cs_authoritative (current_settlement s1 (dep_trx_line_id c)) = Some (dep_authoritative c)"
    if c: "c \<in> set (old @ cs)" for c
  proof (cases "c \<in> set cs \<and> needs_write s c")
    case True
    then have "c \<in> pd_costing ` set ps" unfolding pset by simp
    then obtain x where "x \<in> set ps" "pd_costing x = c" by auto
    then show ?thesis using cur1[of x] by simp
  next
    case False
    have inj: "inj_on dep_trx_line_id (set (old @ cs))" using dist by (simp only: distinct_map)
    have "dep_trx_line_id c \<notin> dep_trx_line_id ` {c \<in> set cs. needs_write s c}"
    proof
      assume "dep_trx_line_id c \<in> dep_trx_line_id ` {c \<in> set cs. needs_write s c}"
      then obtain c' where "dep_trx_line_id c = dep_trx_line_id c'" "c' \<in> set cs" "needs_write s c'" by blast
      with inj_onD[OF inj this(1) c] False show False by auto
    qed
    then have "current_settlement s1 (dep_trx_line_id c) = current_settlement s (dep_trx_line_id c)"
      using cur2 ids by simp
    moreover have "map_option cs_authoritative (current_settlement s (dep_trx_line_id c)) = Some (dep_authoritative c)"
    proof (cases "c \<in> set old")
      case True
      then show ?thesis using old by (simp add: list_all_iff)
    next
      case no: False
      then have "\<not> needs_write s c" using False c by simp
      then show ?thesis by (auto simp: needs_write_def prior_of_def)
    qed
    ultimately show ?thesis by simp
  qed
  then show ?thesis by (simp add: list_all_iff)
qed

lemma books_sound_before:
  assumes sound: "pool_sound p s" and g: "generation_of s p \<le> g"
    and w: "written (map (pending_key g) ps) s s1" and ps: "pd_costing ` set ps \<subseteq> set cs"
    and cs: "\<And>c. c \<in> set cs \<Longrightarrow> \<exists>t\<in>set (db_trx_line s). tl_id t = dep_trx_line_id c"
      "\<And>c. c \<in> set cs \<Longrightarrow> 0 \<le> dep_authoritative c \<and> dep_authoritative c \<le> i64_max"
    and lines: "db_trx_line s1 = db_trx_line s @ adj" "list_all (\<lambda>r. \<not> physical p r) adj" "lines_sound p s1"
    and s3: "db_trx_line s3 = db_trx_line s1" "db_next_line s3 = db_next_line s1"
      "db_cost_settlement s3 = db_cost_settlement s1"
    and layers: "list_all (\<lambda>r. st_value_sum r = st_qty r * st_unit_cost r \<and>
      list_ex (\<lambda>t. physical p t \<and> tl_id t = st_layer_id r) (db_trx_line s))
      (filter (open_layer_of p) (db_pool_state s3))"
  shows "books_sound g p s3"
proof -
  obtain rs where rs: "db_cost_settlement s1 = db_cost_settlement s @ rs" "map settled_key rs = map (pending_key g) ps"
    using w by (auto simp: written_def)
  have old: "list_ex (\<lambda>t. tl_id t = cs_depletion c) (db_trx_line s) \<and>
      0 \<le> cs_authoritative c \<and> cs_authoritative c \<le> i64_max \<and>
      (list_ex (\<lambda>t. physical p t \<and> tl_id t = cs_depletion c) (db_trx_line s) \<longrightarrow> cs_generation c \<le> g)"
    if "c \<in> set (db_cost_settlement s)" for c
    using sound that g unfolding pool_sound_def books_sound_def list_all_iff by fastforce
  have new: "list_ex (\<lambda>t. tl_id t = cs_depletion c) (db_trx_line s) \<and>
      0 \<le> cs_authoritative c \<and> cs_authoritative c \<le> i64_max \<and> cs_generation c \<le> g"
    if c: "c \<in> set rs" for c
  proof -
    have "settled_key c \<in> set (map settled_key rs)" using c by simp
    then obtain x where x: "x \<in> set ps" "settled_key c = pending_key g x" unfolding rs(2) by auto
    then have "pd_costing x \<in> set cs" using ps by blast
    from cs(1)[OF this] cs(2)[OF this] x(2) show ?thesis
      by (auto simp: settled_key_def pending_key_def list_ex_iff)
  qed
  have adj: "\<not> list_ex (\<lambda>t. physical p t \<and> tl_id t = i) adj" for i
    using lines(2) by (auto simp: list_all_iff list_ex_iff)
  have "lines_sound p s3" using lines(3) s3 by (simp add: lines_sound_def)
  then show ?thesis
    using old new layers unfolding books_sound_def s3 lines(1) rs(1)
    by (auto simp: list_all_iff adj)
qed

lemma pass_before_settle:
  assumes claim: "claim_of nf p claim s" and sound: "pool_sound p s" and cp: "checkpoint nf p s"
    and fold: "pass_fold claim s = Some fo"
    and pend: "pendings (pass_scan claim s) (load_priors (fold_costings fo) s) (fold_costings fo) = Inr pending"
    and g: "g = cl_generation claim + (if pending \<noteq> [] then 1 else 0)"
    and w: "pass_writes p (pass_scan claim s \<noteq> []) g (fold_layers fo) pending s s3"
  obtains adj where "db_trx_line s3 = db_trx_line s @ adj" "list_all (\<lambda>r. \<not> physical p r) adj"
    "books_sound g p s3" "db_settlement s3 = db_settlement s" "db_pool s3 = db_pool s" "holds p (strict_fold nf [] (stream p s)) s3"
proof -
  let ?ps = "filter (\<lambda>x. pd_delta x \<noteq> 0) pending @ filter (\<lambda>x. pd_delta x = 0) pending"
  obtain old where old: "strict_fold nf [] (stream p s) =
      Some \<lparr>fold_costings = old @ fold_costings fo, fold_layers = fold_layers fo\<rparr>"
    "list_all (\<lambda>c. map_option cs_authoritative (current_settlement s (dep_trx_line_id c)) =
      Some (dep_authoritative c)) old"
    "list_all2 (costing_for 0 i64_max)
      (filter (\<lambda>e. ev_qty e < 0) (map strict_event_of (pass_scan claim s))) (fold_costings fo)"
    by (rule pass_fold_replay[OF claim sound cp fold])
  note pf = pending_facts[OF claim sound old(3) pend]
  obtain s1 where s1: "written (map (pending_key g) ?ps) s s1"
    "filter (open_layer_of p) (db_pool_state s3) =
      (if pass_scan claim s \<noteq> [] then map (open_row p) (fold_layers fo) else filter (open_layer_of p) (db_pool_state s))"
    "db_trx_line s3 = db_trx_line s1" "db_next_line s3 = db_next_line s1"
    "db_cost_settlement s3 = db_cost_settlement s1" "db_settlement s3 = db_settlement s1" "pending = [] \<longrightarrow> s1 = s"
    "db_pool s3 = db_pool s1"
    using w by (auto simp: pass_writes_def)
  have ls: "lines_sound p s" using sound by (simp add: pool_sound_def books_sound_def)
  have added: "adjustments_added s s1" and set: "db_settlement s1 = db_settlement s" "db_pool s1 = db_pool s"
    using s1(1) by (auto simp: written_def engine_frame_def)
  obtain adj where adj: "db_trx_line s1 = db_trx_line s @ adj" "list_all (\<lambda>r. \<not> physical p r) adj" "lines_sound p s1"
    by (rule adjustments_lines[OF added ls])
  have ls3: "lines_sound p s3" using adj(3) s1(3,4) by (simp add: lines_sound_def)
  have stream: "stream p s3 = stream p s" using stream_cong[of s3 s adj p] adj s1(3) by simp
  have layer_lines: "list_all (\<lambda>r. st_value_sum r = st_qty r * st_unit_cost r \<and>
      list_ex (\<lambda>t. physical p t \<and> tl_id t = st_layer_id r) (db_trx_line s))
      (filter (open_layer_of p) (db_pool_state s3))"
    using layer_ids_physical(1)[OF ls old(1)] sound unfolding s1(2)
    by (auto simp: list_all_iff list_ex_iff open_row_def pool_sound_def books_sound_def)
  have "books_sound g p s3"
  proof (rule books_sound_before[OF sound _ s1(1) _ _ _ adj s1(3-5) layer_lines])
    show "generation_of s p \<le> g" using g claim by (simp add: claim_of_def)
    show "pd_costing ` set ?ps \<subseteq> set (fold_costings fo)"
      using arg_cong[OF pf(1), of set] by auto
    show "\<exists>t\<in>set (db_trx_line s). tl_id t = dep_trx_line_id c" if "c \<in> set (fold_costings fo)" for c
      using pf(4)[OF that] by blast
    show "0 \<le> dep_authoritative c \<and> dep_authoritative c \<le> i64_max" if "c \<in> set (fold_costings fo)" for c
      using pf(4)[OF that] by blast
  qed
  moreover have "hydrate_layers p s3 = fold_layers fo"
  proof (cases "pass_scan claim s = []")
    case True
    then have "s1 = s" using no_scan_no_write(2)[OF True old(3) pend] s1(7) by simp
    then have "hydrate_layers p s3 = hydrate_layers p s"
      using s1 True layer_lines ls3
      by (intro hydrate_cong[of p s3 s "[]"]) (auto simp: list_all_iff list_ex_iff)
    then show ?thesis using no_scan_layers[OF claim sound fold True] by simp
  next
    case False
    have "strict_fold nf [] (stream p s3) =
        Some \<lparr>fold_costings = old @ fold_costings fo, fold_layers = fold_layers fo\<rparr>"
      using old(1) stream by simp
    from pool_layers_sorted[OF ls3 this] show ?thesis
      using s1(2) False by (intro hydrate_open_rows[OF ls3]) auto
  qed
  moreover have "list_all (\<lambda>c. map_option cs_authoritative (current_settlement s3 (dep_trx_line_id c)) =
      Some (dep_authoritative c)) (old @ fold_costings fo)"
  proof -
    have "mset ?ps = mset pending" by (induction pending) auto
    moreover have "distinct (map dep_trx_line_id (old @ fold_costings fo))"
      using replay_ids_distinct(1)[OF ls old(1)] by simp
    moreover have "pending \<noteq> [] \<Longrightarrow> generation_of s p < g" using g claim by (simp add: claim_of_def)
    moreover have "\<exists>t\<in>set (db_trx_line s). physical p t \<and> tl_id t = dep_trx_line_id c"
      if "c \<in> set (fold_costings fo)" for c using pf(4)[OF that] by blast
    ultimately have "list_all (\<lambda>c. map_option cs_authoritative (current_settlement s1 (dep_trx_line_id c)) =
      Some (dep_authoritative c)) (old @ fold_costings fo)"
      using written_costs[OF sound _ s1(1) _ pf(1) _ _ old(2)] by simp
    then show ?thesis by (simp add: current_settlement_def s1(5))
  qed
  ultimately show thesis
    using adj(1,2) s1(3,6,8) set old(1)
    by (intro that[of adj]) (auto simp: holds_def holds_replay_def)
qed

section \<open>Passes under interference\<close>

definition interference :: "i64 \<Rightarrow> (db \<Rightarrow> db) \<Rightarrow> bool" where
  "interference p mid \<longleftrightarrow> (\<forall>s. lines_sound p s \<longrightarrow> arrivals p s (mid s))"

lemma books_sound_arrivals:
  assumes sound: "books_sound g p s" and arr: "arrivals p s s'" and g: "g \<le> g'"
  shows "books_sound g' p s'"
proof -
  obtain new where new: "db_trx_line s' = db_trx_line s @ new" using arr by (auto simp: arrivals_def)
  obtain rs where rs: "db_cost_settlement s' = db_cost_settlement s @ rs"
    "list_all (\<lambda>c. list_ex (\<lambda>t. tl_id t = cs_depletion c \<and> \<not> physical p t) (db_trx_line s') \<and>
        0 \<le> cs_authoritative c \<and> cs_authoritative c \<le> i64_max) rs"
    using arr by (auto simp: arrivals_def)
  have ls: "lines_sound p s'" using arr by (simp add: arrivals_def)
  have old: "list_ex (\<lambda>t. tl_id t = cs_depletion c) (db_trx_line s) \<and>
      0 \<le> cs_authoritative c \<and> cs_authoritative c \<le> i64_max \<and>
      (list_ex (\<lambda>t. physical p t \<and> tl_id t = cs_depletion c) (db_trx_line s) \<longrightarrow> cs_generation c \<le> g)"
    if "c \<in> set (db_cost_settlement s)" for c
    using sound that unfolding books_sound_def list_all_iff by fastforce
  have gen: "cs_generation c \<le> g'"
    if c: "c \<in> set (db_cost_settlement s')" and t: "t \<in> set (db_trx_line s')" "physical p t" "tl_id t = cs_depletion c" for c t
  proof (cases "c \<in> set (db_cost_settlement s)")
    case True
    then obtain t0 where "t0 \<in> set (db_trx_line s)" "tl_id t0 = cs_depletion c" using old by (auto simp: list_ex_iff)
    then have "t = t0" using line_unique[OF ls t(1), of t0] t(3) new by simp
    then show ?thesis using old[OF True] t \<open>t0 \<in> _\<close> g by (auto simp: list_ex_iff)
  next
    case False
    then obtain t1 where "t1 \<in> set (db_trx_line s')" "tl_id t1 = cs_depletion c" "\<not> physical p t1"
      using c rs by (auto simp: list_all_iff list_ex_iff)
    then show ?thesis using line_unique[OF ls t(1), of t1] t by simp
  qed
  have open': "filter (open_layer_of p) (db_pool_state s') = filter (open_layer_of p) (db_pool_state s)"
    using arr by (simp add: arrivals_def)
  have "list_all (\<lambda>r. st_value_sum r = st_qty r * st_unit_cost r \<and>
      list_ex (\<lambda>t. physical p t \<and> tl_id t = st_layer_id r) (db_trx_line s'))
      (filter (open_layer_of p) (db_pool_state s'))"
    using sound unfolding open' new books_sound_def by (simp add: list_all_iff)
  moreover have "list_all (\<lambda>c. list_ex (\<lambda>t. tl_id t = cs_depletion c) (db_trx_line s') \<and>
      0 \<le> cs_authoritative c \<and> cs_authoritative c \<le> i64_max) (db_cost_settlement s')"
    using rs(2) unfolding rs(1) by (auto simp: list_all_iff list_ex_iff new dest!: old)
  ultimately show ?thesis
    using ls gen unfolding books_sound_def by (auto simp: list_all_iff list_ex_iff)
qed

lemma holds_arrivals:
  assumes sound: "books_sound g p s" and arr: "arrivals p s s'"
    and out: "\<And>c. c \<in> set (fold_costings out) \<Longrightarrow> \<exists>t\<in>set (db_trx_line s). physical p t \<and> tl_id t = dep_trx_line_id c"
    and h: "holds_replay p out s"
  shows "holds_replay p out s'"
proof -
  obtain new where new: "db_trx_line s' = db_trx_line s @ new" using arr by (auto simp: arrivals_def)
  obtain rs where rs: "db_cost_settlement s' = db_cost_settlement s @ rs"
    "list_all (\<lambda>c. list_ex (\<lambda>t. tl_id t = cs_depletion c \<and> \<not> physical p t) (db_trx_line s')) rs"
    using arr by (auto simp: arrivals_def list_all_iff)
  have ls: "lines_sound p s'" using arr by (simp add: arrivals_def)
  have "hydrate_layers p s' = hydrate_layers p s"
    by (rule hydrate_cong[OF _ new ls])
      (use arr sound in \<open>auto simp: arrivals_def books_sound_def list_all_iff list_ex_iff\<close>)
  moreover have "current_settlement s' (dep_trx_line_id c) = current_settlement s (dep_trx_line_id c)"
    if c: "c \<in> set (fold_costings out)" for c
  proof (rule current_settlement_cong)
    obtain t where t: "t \<in> set (db_trx_line s)" "physical p t" "tl_id t = dep_trx_line_id c"
      using out[OF c] by blast
    have "cs_depletion r \<noteq> dep_trx_line_id c" if r: "r \<in> set rs" for r
    proof
      assume "cs_depletion r = dep_trx_line_id c"
      then obtain t1 where "t1 \<in> set (db_trx_line s')" "tl_id t1 = dep_trx_line_id c" "\<not> physical p t1"
        using rs(2) r by (auto simp: list_all_iff list_ex_iff)
      then show False using line_unique[OF ls, of t t1] t new by simp
    qed
    then show "filter (\<lambda>r. cs_depletion r = dep_trx_line_id c) (db_cost_settlement s') =
        filter (\<lambda>r. cs_depletion r = dep_trx_line_id c) (db_cost_settlement s)"
      by (simp add: rs(1) filter_empty_conv)
  qed
  ultimately show ?thesis using h by (simp add: holds_replay_def list_all_iff)
qed

lemma sorted_le_last: "sorted (map k xs) \<Longrightarrow> x \<in> set xs \<Longrightarrow> k x \<le> k (last xs)"
  by (induction xs) (auto split: if_splits)

lemma frontier_covers:
  assumes claim: "claim_of nf p claim s" and f: "new_frontier claim (pass_scan claim s) = Some f"
    and r: "r \<in> set (db_trx_line s)" "physical p r"
  shows "line_pos r \<le> f"
proof -
  let ?L = "sort_key line_pos (filter (\<lambda>r. physical p r \<and> after (scan_from claim) r) (db_trx_line s))"
  have scan: "pass_scan claim s = map scan_of ?L"
    using claim by (simp add: pass_scan_def scan_events_def claim_of_def)
  show ?thesis
  proof (cases "?L = []")
    case True
    then have "pass_scan claim s = []" "\<not> after (scan_from claim) r"
      using scan r by (auto simp: filter_empty_conv)
    then show ?thesis
      using f by (auto simp: new_frontier_def after_def scan_from_def split: option.splits if_splits)
  next
    case False
    then have last: "f = line_pos (last ?L)" "after (scan_from claim) (last ?L)"
      using f scan last_in_set[OF False]
      by (auto simp: new_frontier_def last_map scan_of_def line_pos_def)
    show ?thesis
    proof (cases "after (scan_from claim) r")
      case True
      then have "r \<in> set ?L" using r by simp
      then show ?thesis unfolding last(1) by (rule sorted_le_last[rotated]) simp
    next
      case no: False
      then obtain f0 where "scan_from claim = Some f0" "line_pos r \<le> f0"
        by (auto simp: after_def not_less split: option.splits)
      then show ?thesis using last by (auto simp: after_def)
    qed
  qed
qed

lemma stream_unchanged:
  assumes "db_trx_line s' = db_trx_line s @ new" "\<And>r. r \<in> set new \<Longrightarrow> physical p r \<Longrightarrow> f < line_pos r"
    "\<And>r. r \<in> set (db_trx_line s) \<Longrightarrow> physical p r \<Longrightarrow> line_pos r \<le> f"
  shows "history f p s' = stream p s"
proof -
  have "filter (\<lambda>r. physical p r \<and> line_pos r \<le> f) new = []"
    using assms(2) by (force simp: filter_empty_conv)
  moreover have "filter (\<lambda>r. physical p r \<and> line_pos r \<le> f) (db_trx_line s) = filter (physical p) (db_trx_line s)"
    using assms(3) by (intro filter_cong) auto
  ultimately show ?thesis by (simp add: history_lines stream_lines assms(1))
qed

definition same_books :: "db \<Rightarrow> db \<Rightarrow> bool" where
  "same_books s s' \<longleftrightarrow>
    db_trx_line s' = db_trx_line s \<and> db_next_line s' = db_next_line s \<and> db_pool_state s' = db_pool_state s \<and>
    db_cost_settlement s' = db_cost_settlement s \<and> db_posting s' = db_posting s \<and> db_pool s' = db_pool s"

lemma books_cong:
  assumes "same_books s s'"
  shows "books_sound g p s' = books_sound g p s" "holds_replay p out s' = holds_replay p out s"
    "stream p s' = stream p s" "history f p s' = history f p s"
  using assms
  by (simp_all add: same_books_def books_sound_def lines_sound_def holds_replay_def hydrate_layers_def
      current_settlement_def stream_lines history_lines cong: if_cong)

lemma finish_state:
  assumes "finish_pass mid claim scanned pending g n s = Inr (out, s')" "new_frontier claim scanned = Some f"
    "cl_pool_id claim = p"
  obtains r where "settlement_of s' p = Some r" "se_settled_through r = Some f" "g \<le> se_generation r"
    "generation_of (mid s) p \<le> max 0 (se_generation r)" "same_books (mid s) s'"
    "se_recost_floor r = None \<Longrightarrow> missed_event p (scan_from claim) f (map sc_id scanned) (mid s) = None \<and>
      (floor_of (mid s) p = None \<or> floor_of (mid s) p = cl_floor claim)"
    "\<And>pos. missed_event p (scan_from claim) f (map sc_id scanned) (mid s) = Some pos \<Longrightarrow>
      \<exists>fl. se_recost_floor r = Some fl \<and> fl \<le> pos"
    "pass_requeued out \<longleftrightarrow> se_recost_floor r \<noteq> None \<or> tail_count p (Some f) (mid s) \<noteq> 0"
    "pass_requeued out \<Longrightarrow> map qu_pool_id (db_queue s') = map qu_pool_id (db_queue (mid s))"
    "\<not> pass_requeued out \<Longrightarrow> p \<notin> set (map qu_pool_id (db_queue s'))"
proof -
  obtain s1 fp b where st: "settle claim g f (mid s) = Inr (fp, s1)"
    and dq: "decide_queue p (scan_from claim) (Some f) (map sc_id scanned) fp s1 = (b, s')"
    and out: "pass_requeued out = b"
    by (rule finish_pass_ok[OF assms(1,2)]) (auto simp: assms(3))
  obtain r1 where r1: "settlement_of s1 p = Some r1" "s1 = (mid s)\<lparr>db_settlement := db_settlement s1\<rparr>"
    "se_settled_through r1 = Some f" "g \<le> se_generation r1" "fp \<longleftrightarrow> se_recost_floor r1 \<noteq> None"
    "case settlement_of (mid s) p of None \<Rightarrow> se_recost_floor r1 = None
      | Some r0 \<Rightarrow> se_generation r0 \<le> se_generation r1 \<and>
          se_recost_floor r1 = (if se_recost_floor r0 = cl_floor claim then None else se_recost_floor r0)"
    by (rule settle_ok[OF st]) (auto simp: assms(3))
  have lines: "db_trx_line s1 = db_trx_line (mid s)" "db_queue s1 = db_queue (mid s)"
    by (subst r1(2), simp)+
  have me: "missed_event p (scan_from claim) f (map sc_id scanned) s1 =
      missed_event p (scan_from claim) f (map sc_id scanned) (mid s)"
    "tail_count p (Some f) s1 = tail_count p (Some f) (mid s)"
    by (simp_all add: missed_event_def tail_count_def lines)
  have fr: "same_books (mid s) s1" unfolding same_books_def by (subst r1(2), simp)+
  then have sb: "same_books (mid s) s'" using decide_queue_frame[OF dq] by (simp add: same_books_def)
  have fl1: "se_recost_floor r1 = None \<Longrightarrow> floor_of (mid s) p = None \<or> floor_of (mid s) p = cl_floor claim"
    using r1(6) by (auto simp: floor_of_def split: option.splits if_splits)
  have gen1: "generation_of (mid s) p \<le> max 0 (se_generation r1)"
    using r1(6) by (auto simp: generation_of_def split: option.splits)
  show thesis
  proof (rule decide_queue_ok[OF dq r1(1)])
    fix fl
    assume d: "settlement_of s' p = Some (r1\<lparr>se_recost_floor := fl\<rparr>)"
      "b \<longleftrightarrow> fp \<or> missed_event p (scan_from claim) f (map sc_id scanned) s1 \<noteq> None \<or> tail_count p (Some f) s1 \<noteq> 0"
      "missed_event p (scan_from claim) f (map sc_id scanned) s1 = None \<Longrightarrow> fl = se_recost_floor r1"
      "\<And>pos. missed_event p (scan_from claim) f (map sc_id scanned) s1 = Some pos \<Longrightarrow> \<exists>x. fl = Some x \<and> x \<le> pos"
      "b \<Longrightarrow> map qu_pool_id (db_queue s') = map qu_pool_id (db_queue s1)"
      "\<not> b \<Longrightarrow> p \<notin> set (map qu_pool_id (db_queue s'))"
    show thesis
    proof (cases "missed_event p (scan_from claim) f (map sc_id scanned) (mid s)")
      case None
      then show thesis
        using d r1 gen1 sb out fl1 unfolding me by (intro that[OF d(1)]) (auto simp: lines)
    next
      case (Some pos)
      obtain x where "fl = Some x" "x \<le> pos" using d(4) Some unfolding me by blast
      then show thesis
        using d r1 gen1 sb out Some unfolding me by (intro that[OF d(1)]) (auto simp: lines)
    qed
  qed
qed

lemma pass_state:
  assumes claim: "claim_of nf p claim s" and sound: "pool_sound p s" and cp: "checkpoint nf p s"
    and run: "run_claimed_pass mid claim s = Inr (out, s')" and esc: "pass_escalated out = None"
  obtains adj g pending n s3 where "db_trx_line s3 = db_trx_line s @ adj" "list_all (\<lambda>r. \<not> physical p r) adj"
    "books_sound g p s3" "db_settlement s3 = db_settlement s" "db_pool s3 = db_pool s" "holds p (strict_fold nf [] (stream p s)) s3"
    "finish_pass mid claim (pass_scan claim s) pending g n s3 = Inr (out, s')"
    "pass_scan claim s = [] \<Longrightarrow> g = generation_of s p"
proof -
  have p: "cl_pool_id claim = p" using claim by (simp add: claim_of_def)
  obtain fo pending g n s1 u s2 v s3 where r: "pass_fold claim s = Some fo"
    "pendings (pass_scan claim s) (load_priors (fold_costings fo) s) (fold_costings fo) = Inr pending"
    "g = cl_generation claim + (if pending \<noteq> [] then 1 else 0)"
    "(if pending \<noteq> [] then write_generation p g pending else tx_return 0) s = Inr (n, s1)"
    "(if pass_scan claim s \<noteq> [] then materialize_layers p (fold_layers fo) else tx_return ()) s1 = Inr (u, s2)"
    "(if sum_list (map pd_delta pending) \<noteq> 0
      then reconcile_aggregate_value p (sum_list (map pd_delta pending)) else tx_return ()) s2 = Inr (v, s3)"
    "finish_pass mid claim (pass_scan claim s) pending g n s3 = Inr (out, s')"
    by (rule run_claimed_pass_ok[OF run esc]) (unfold p, rule that)
  obtain old where old: "strict_fold nf [] (stream p s) =
      Some \<lparr>fold_costings = old @ fold_costings fo, fold_layers = fold_layers fo\<rparr>"
    "list_all2 (costing_for 0 i64_max)
      (filter (\<lambda>e. ev_qty e < 0) (map strict_event_of (pass_scan claim s))) (fold_costings fo)"
    by (rule pass_fold_replay[OF claim sound cp r(1)])
  have "list_all (\<lambda>l. 0 < lay_id l) (fold_layers fo)"
    using layer_ids_physical(2)[OF _ old(1)] sound by (auto simp: list_all_iff pool_sound_def books_sound_def)
  from pass_writes_ok[OF r(4-6) this]
  have w: "pass_writes p (pass_scan claim s \<noteq> []) g (fold_layers fo) pending s s3" .
  have "pass_scan claim s = [] \<Longrightarrow> g = generation_of s p"
    using no_scan_no_write(2)[OF _ old(2) r(2)] r(3) claim by (simp add: claim_of_def)
  with r(7) show thesis
    by (rule_tac pass_before_settle[OF claim sound cp r(1-3) w]) (rule that)
qed

lemma settled_cong: "db_settlement s' = db_settlement s \<Longrightarrow>
    settled_of s' p = settled_of s p \<and> floor_of s' p = floor_of s p \<and> generation_of s' p = generation_of s p"
  by (simp add: settled_of_def floor_of_def generation_of_def settlement_of_def)

lemma no_physical_holds:
  assumes "books_sound g p s" "\<And>r. r \<in> set (db_trx_line s) \<Longrightarrow> \<not> physical p r"
  shows "holds p (strict_fold nf [] (stream p s)) s"
proof -
  have "filter (physical p) (db_trx_line s) = []" "filter (open_layer_of p) (db_pool_state s) = []"
    using assms by (auto simp: filter_empty_conv books_sound_def list_all_iff list_ex_iff)
  then show ?thesis
    by (simp add: stream_lines strict_fold_def holds_def holds_replay_def hydrate_layers_def)
qed

lemma arrivals_beyond:
  assumes claim: "claim_of nf p claim s" and lines: "db_trx_line s4 = db_trx_line s @ adj @ new"
    and ls: "lines_sound p s4" and st: "settled_of s3 p = settled_of s p"
    and new: "list_all (\<lambda>r. physical p r \<longrightarrow> after (settled_of s3 p) r \<or> floor_of s4 p \<noteq> None) new"
    and missed: "missed_event p (scan_from claim) f (map sc_id (pass_scan claim s)) s4 = None"
    and fl: "floor_of s4 p = None \<or> floor_of s4 p = cl_floor claim"
    and t: "t \<in> set new" "physical p t"
  shows "f < line_pos t"
proof -
  have p: "cl_pool_id claim = p" using claim by (simp add: claim_of_def)
  have "after (scan_from claim) t"
  proof (cases "full_replay claim")
    case False
    then have "cl_floor claim = None" unfolding full_replay_def by blast
    then have "floor_of s4 p = None" using fl by auto
    moreover have "scan_from claim = settled_of s3 p" using False claim st by (simp add: scan_from_def claim_of_def)
    ultimately show ?thesis using new t by (auto simp: list_all_iff)
  qed (simp add: scan_from_def after_def)
  moreover have "tl_id t \<notin> set (map sc_id (pass_scan claim s))"
  proof
    assume "tl_id t \<in> set (map sc_id (pass_scan claim s))"
    then obtain t0 where "t0 \<in> set (db_trx_line s)" "tl_id t0 = tl_id t"
      using scan_events_set[of p "scan_from claim" s] p by (auto simp: pass_scan_def)
    moreover have "tl_id ` set (db_trx_line s) \<inter> tl_id ` set new = {}"
      using ls lines by (auto simp: lines_sound_def)
    ultimately show False using t(1) by (metis IntI empty_iff imageI)
  qed
  ultimately show ?thesis
    using missed t lines by (auto simp: missed_event_None not_le[symmetric])
qed

lemma pass_preserves:
  assumes claim: "claim_of nf p claim s" and sound: "pool_sound p s" and cp: "checkpoint nf p s"
    and mid: "interference p mid"
    and run: "run_claimed_pass mid claim s = Inr (out, s')" and esc: "pass_escalated out = None"
  shows "pool_sound p s' \<and> checkpoint nf p s' \<and>
    (\<not> pass_requeued out \<longrightarrow> holds p (strict_fold nf [] (stream p s')) s') \<and> pool_of s' p = pool_of s p"
proof (rule pass_state[OF claim sound cp run esc])
  fix adj g pending n s3
  assume s3: "db_trx_line s3 = db_trx_line s @ adj" "list_all (\<lambda>r. \<not> physical p r) adj"
    "books_sound g p s3" "db_settlement s3 = db_settlement s" "db_pool s3 = db_pool s" "holds p (strict_fold nf [] (stream p s)) s3"
    "finish_pass mid claim (pass_scan claim s) pending g n s3 = Inr (out, s')"
    "pass_scan claim s = [] \<Longrightarrow> g = generation_of s p"
  have p: "cl_pool_id claim = p" using claim by (simp add: claim_of_def)
  have arr: "arrivals p s3 (mid s3)"
    using mid s3(3) by (simp add: interference_def books_sound_def)
  have pool: "pool_of s' p = pool_of s p" if "same_books (mid s3) s'"
    using that arr s3(5) by (simp add: arrivals_def same_books_def pool_of_def)
  note same = settled_cong[OF s3(4), of p]
  show ?thesis
  proof (cases "new_frontier claim (pass_scan claim s)")
    case None
    then have none: "pass_scan claim s = []" "settled_of s p = None"
      using claim by (auto simp: new_frontier_def claim_of_def split: if_splits)
    obtain b where dq: "decide_queue p (scan_from claim) None (map sc_id (pass_scan claim s)) False (mid s3) = (b, s')"
      "pass_requeued out = b"
      by (rule finish_pass_none[OF s3(7) None]) (auto simp: p)
    have sb: "same_books (mid s3) s'" using decide_queue_frame[OF dq(1)] by (simp add: same_books_def)
    have st: "settlement_of s' p = settlement_of (mid s3) p" "\<not> b \<Longrightarrow> tail_count p None (mid s3) = 0"
      using dq(1) by (auto simp: decide_queue_def Let_def note_missed_def split: if_splits)
    then have eq: "settled_of s' p = None" "generation_of s' p = g"
      using arr same none s3(8) by (auto simp: arrivals_def settled_of_def generation_of_def)
    then have "pool_sound p s'"
      using books_sound_arrivals[OF s3(3) arr order_refl] books_cong(1)[OF sb] by (simp add: pool_sound_def)
    moreover have "holds p (strict_fold nf [] (stream p s')) s'" if "\<not> b"
      using no_physical_holds[of "generation_of s' p" p s' nf] \<open>pool_sound p s'\<close> st(2)[OF that] sb
      by (simp add: tail_count_0 pool_sound_def after_def same_books_def)
    ultimately show ?thesis using eq dq(2) pool[OF sb] by (simp add: checkpoint_def)
  next
    case (Some f)
    obtain r where r: "settlement_of s' p = Some r" "se_settled_through r = Some f" "g \<le> se_generation r"
      "same_books (mid s3) s'"
      "se_recost_floor r = None \<Longrightarrow> missed_event p (scan_from claim) f (map sc_id (pass_scan claim s)) (mid s3) = None \<and>
        (floor_of (mid s3) p = None \<or> floor_of (mid s3) p = cl_floor claim)"
      "pass_requeued out \<longleftrightarrow> se_recost_floor r \<noteq> None \<or> tail_count p (Some f) (mid s3) \<noteq> 0"
      by (rule finish_state[OF s3(7) Some p]) (rule that)
    have gen: "generation_of s' p = se_generation r" "settled_of s' p = Some f" "floor_of s' p = se_recost_floor r"
      using r(1,2) by (simp_all add: generation_of_def settled_of_def floor_of_def)
    have ps: "pool_sound p s'"
      using books_sound_arrivals[OF s3(3) arr r(3)] books_cong(1)[OF r(4)] gen by (simp add: pool_sound_def)
    have cp': "holds p (strict_fold nf [] (history f p s')) s'" if fl: "se_recost_floor r = None"
    proof -
      obtain new where new: "db_trx_line (mid s3) = db_trx_line s3 @ new"
        "list_all (\<lambda>r. physical p r \<longrightarrow> after (settled_of s3 p) r \<or> floor_of (mid s3) p \<noteq> None) new"
        using arr by (auto simp: arrivals_def)
      have ls: "lines_sound p (mid s3)" using arr by (simp add: arrivals_def)
      have all: "db_trx_line (mid s3) = db_trx_line s @ adj @ new" using new(1) s3(1) by simp
      have far: "f < line_pos t" if t: "t \<in> set (adj @ new)" "physical p t" for t
      proof (rule arrivals_beyond[OF claim all ls _ new(2) _ _ _ t(2)])
        show "t \<in> set new" using t s3(2) by (auto simp: list_all_iff)
      qed (use r(5)[OF fl] same in simp_all)
      have "history f p (mid s3) = stream p s"
        by (rule stream_unchanged[where new = "adj @ new"])
          (use new(1) s3(1) far frontier_covers[OF claim Some] in auto)
      moreover obtain out where out: "strict_fold nf [] (stream p s) = Some out" "holds_replay p out s3"
        using s3(6) by (auto simp: holds_def split: option.splits)
      moreover have "stream p s3 = stream p s" by (rule stream_cong[OF s3(1,2)])
      ultimately show ?thesis
        using holds_arrivals[OF s3(3) arr replay_ids_distinct(2)] s3(3) books_cong[OF r(4)]
        by (simp add: holds_def books_sound_def)
    qed
    have "stream p s' = history f p s'" if "\<not> pass_requeued out"
    proof -
      have "scan_events p (Some f) s' = []"
        using that r(6) r(4)
        by (auto simp: scan_events_def tail_count_0 filter_empty_conv same_books_def)
      then show ?thesis using stream_split[of p s' f] by simp
    qed
    then show ?thesis using ps cp' gen r(6) pool[OF r(4)] by (cases "se_recost_floor r") (auto simp: checkpoint_def)
  qed
qed

section \<open>The life of a pool\<close>

definition settles :: "bool \<Rightarrow> i64 \<Rightarrow> db \<Rightarrow> bool" where
  "settles nf p s \<longleftrightarrow>
    pool_sound p s \<and> checkpoint nf p s \<and>
    (case pool_of s p of None \<Rightarrow> False | Some r \<Rightarrow> pl_method r = (if nf then Lifo else Fifo))"

text \<open>What happens to a pool: other transactions commit, or a worker claims it and runs a pass
  during which others commit too.\<close>

inductive engine_step :: "i64 \<Rightarrow> db \<Rightarrow> db \<Rightarrow> bool" for p where
  arrive: "arrivals p s s' \<Longrightarrow> engine_step p s s'"
| pass: "claim_pool p s = Inr (claim, s1) \<Longrightarrow> interference p mid \<Longrightarrow>
    run_claimed_pass mid claim s1 = Inr (out, s') \<Longrightarrow> engine_step p s s'"

inductive_cases engine_stepE: "engine_step p s s'"

lemma settles_cong:
  assumes "same_books s s'" "db_settlement s' = db_settlement s"
  shows "settles nf p s' = settles nf p s"
proof -
  have "pool_of s' p = pool_of s p" using assms(1) by (simp add: same_books_def pool_of_def)
  moreover have "pool_sound p s' = pool_sound p s"
    using settled_cong[OF assms(2), of p] books_cong(1)[OF assms(1)] by (simp add: pool_sound_def)
  moreover have "checkpoint nf p s' = checkpoint nf p s"
    using settled_cong[OF assms(2), of p] books_cong[OF assms(1)]
    by (simp add: checkpoint_def holds_def split: option.splits)
  ultimately show ?thesis by (simp add: settles_def)
qed

lemma claim_pool_ok:
  assumes "claim_pool p s = Inr (claim, s1)" "settles nf p s"
  shows "claim_of nf p claim s1" "settles nf p s1" "same_books s s1" "db_settlement s1 = db_settlement s"
    "strict_method (cl_method claim)"
proof -
  have s1: "s1 = ensure_queued p s" "read_claim p s1 = Inr (claim, s1)"
    using assms(1) by (auto simp: claim_pool_def read_claim_def split: if_splits option.splits)
  show sb: "same_books s s1" and se: "db_settlement s1 = db_settlement s"
    by (simp_all add: s1(1) ensure_queued_def same_books_def)
  show st: "settles nf p s1" using settles_cong[OF sb se] assms(2) by simp
  show "claim_of nf p claim s1"
    using s1(2) st
    by (auto simp: read_claim_def claim_of_def settles_def settled_of_def floor_of_def generation_of_def
        split: option.splits)
  then show "strict_method (cl_method claim)" by (auto simp: claim_of_def strict_method_def)
qed

lemma halted_iff:
  "halted_period p s \<noteq> None \<longleftrightarrow> (\<exists>e\<in>set (db_escalation s). es_pool_id e = p \<and> \<not> es_resolved e)"
  by (auto simp: halted_period_def find_None_iff)

lemma pass_escalates:
  assumes "run_claimed_pass mid claim s = Inr (out, s')" "pass_escalated out \<noteq> None"
  shows "same_books s s'" "db_settlement s' = db_settlement s" "db_queue s' = db_queue s"
    "halted_period (cl_pool_id claim) s' \<noteq> None"
proof -
  obtain fo pending e where "pass_fold claim s = Some fo"
    "pendings (pass_scan claim s) (load_priors (fold_costings fo) s) (fold_costings fo) = Inr pending"
    "detect_closed_period_divergence (cl_pool_id claim) pending s = Some e"
    using assms
    by (auto simp: run_claimed_pass_def finish_pass_def Let_def tx_bind_Inr split: option.splits sum.splits)
  moreover from this have pid: "esc_pool_id e = cl_pool_id claim"
    by (auto simp: detect_closed_period_divergence_def Let_def split: list.splits prod.splits)
  ultimately have "record_escalation e s = Inr ((), s')"
    using assms(1) by (auto simp: run_claimed_pass_def Let_def tx_bind_Inr)
  then show "same_books s s'" "db_settlement s' = db_settlement s" "db_queue s' = db_queue s"
    "halted_period (cl_pool_id claim) s' \<noteq> None"
    using pid by (auto simp: record_escalation_def same_books_def halted_iff simp del: not_None_eq split: if_splits)
qed

lemma pass_settles:
  assumes "claim_of nf p claim s" "settles nf p s" "interference p mid" "run_claimed_pass mid claim s = Inr (out, s')"
  shows "settles nf p s'"
    "pass_escalated out = None \<Longrightarrow> \<not> pass_requeued out \<Longrightarrow> holds p (strict_fold nf [] (stream p s')) s'"
proof -
  have s: "pool_sound p s" "checkpoint nf p s" using assms(2) by (simp_all add: settles_def)
  note pres = pass_preserves[OF assms(1) s assms(3,4)]
  show "settles nf p s'"
  proof (cases "pass_escalated out = None")
    case True
    then show ?thesis using pres assms(2) by (simp add: settles_def)
  next
    case False
    from pass_escalates[OF assms(4) False] show ?thesis using settles_cong[of s s' nf p] assms(2) by simp
  qed
  show "pass_escalated out = None \<Longrightarrow> \<not> pass_requeued out \<Longrightarrow> holds p (strict_fold nf [] (stream p s')) s'"
    using pres by simp
qed

lemma history_ids:
  assumes "lines_sound p s" "strict_fold nf [] (history f p s) = Some out" "c \<in> set (fold_costings out)"
  shows "\<exists>t\<in>set (db_trx_line s). physical p t \<and> tl_id t = dep_trx_line_id c"
proof -
  obtain l2: "list_all2 (costing_for 0 i64_max) (filter (\<lambda>e. ev_qty e < 0) (history f p s)) (fold_costings out)"
    by (rule strict_fold_run[OF history_wf[OF assms(1)], of nf f]) (use assms(2) in simp)
  from list_all2_right[OF this assms(3)] show ?thesis by (auto simp: costing_for_def history_lines)
qed

lemma arrivals_settles:
  assumes "settles nf p s" "arrivals p s s'"
  shows "settles nf p s'"
proof -
  have sound: "books_sound (generation_of s p) p s" using assms(1) by (simp add: settles_def pool_sound_def)
  have "generation_of s' p = generation_of s p" using assms(2) by (simp add: arrivals_def)
  then have ps: "pool_sound p s'" using books_sound_arrivals[OF sound assms(2) order_refl] by (simp add: pool_sound_def)
  have "holds p (strict_fold nf [] (history f p s')) s'"
    if f: "settled_of s' p = Some f" and fl: "floor_of s' p = None" for f
  proof -
    have old: "settled_of s p = Some f" using assms(2) f by (simp add: arrivals_def)
    have nofl: "floor_of s p = None" using assms(2) fl unfolding arrivals_def by blast
    obtain out where out: "strict_fold nf [] (history f p s) = Some out" "holds_replay p out s"
      using assms(1) old nofl by (auto simp: settles_def checkpoint_def holds_def split: option.splits)
    obtain new where new: "db_trx_line s' = db_trx_line s @ new" "list_all (\<lambda>r. physical p r \<longrightarrow> after (Some f) r) new"
      using assms(2) fl old by (auto simp: arrivals_def)
    have "filter (\<lambda>r. physical p r \<and> line_pos r \<le> f) new = []"
      using new(2) by (auto simp: filter_empty_conv list_all_iff after_def)
    then have "history f p s' = history f p s" by (simp add: history_lines new(1))
    moreover have "holds_replay p out s'"
      by (rule holds_arrivals[OF sound assms(2) _ out(2)]) (rule history_ids[OF _ out(1)], use sound in \<open>simp add: books_sound_def\<close>)
    ultimately show ?thesis using out by (simp add: holds_def)
  qed
  then have "checkpoint nf p s'" unfolding checkpoint_def
    by (cases "settled_of s' p"; cases "floor_of s' p") auto
  then show ?thesis using ps assms by (simp add: settles_def arrivals_def)
qed

text \<open>The stored value of the open layers is the value of the layers they are read back as.\<close>

lemma sum_list_sort_key:
  fixes f :: "'a \<Rightarrow> int"
  shows "sum_list (map f (sort_key k xs)) = sum_list (map f xs)"
  by (metis mset_map mset_sort sum_mset_sum_list)

lemma hydrate_value:
  assumes "books_sound g p s"
  shows "layers_value (hydrate_layers p s) =
    sum_list (map st_value_sum (filter (open_layer_of p) (db_pool_state s)))"
proof -
  let ?pair = "\<lambda>r. map (Pair r) (filter (\<lambda>t. tl_id t = st_layer_id r) (db_trx_line s))"
  have one: "sum_list (map (\<lambda>(r, t). st_qty r * st_unit_cost r) (?pair r)) = st_value_sum r"
    if "r \<in> set (filter (open_layer_of p) (db_pool_state s))" for r
  proof -
    obtain t where t: "t \<in> set (db_trx_line s)" "tl_id t = st_layer_id r" and v: "st_value_sum r = st_qty r * st_unit_cost r"
      using assms \<open>r \<in> _\<close> by (auto simp: books_sound_def list_all_iff list_ex_iff)
    have "filter (\<lambda>t'. tl_id t' = tl_id t) (db_trx_line s) = [t]"
      using lines_with_id[OF _ t(1)] assms by (simp add: books_sound_def lines_sound_def)
    then show ?thesis using v t(2) by simp
  qed
  have "sum_list (map (\<lambda>(r, t). st_qty r * st_unit_cost r) (concat (map ?pair rows))) = sum_list (map st_value_sum rows)"
    if "set rows \<subseteq> set (filter (open_layer_of p) (db_pool_state s))" for rows
    using that by (induction rows) (simp_all add: one del: map_map)
  moreover have "layers_value (hydrate_layers p s) = sum_list (map (\<lambda>(r, t). st_qty r * st_unit_cost r)
      (sort_key (\<lambda>(r, t). line_pos t) (concat (map ?pair (filter (open_layer_of p) (db_pool_state s))))))"
    unfolding layers_value_def hydrate_layers_def map_map by (intro arg_cong[of _ _ sum_list] map_cong) auto
  ultimately show ?thesis by (simp add: sum_list_sort_key)
qed

end
