(* ===== verification/Settlement.thy ===== *)
theory Settlement
  imports Checkpoint
begin

text \<open>
  What the recalculation engine promises: over any history of arrivals and passes the checkpoint of
  a pool is a replay from the opening, a drained pool holds the replay of its whole stream, the
  drain ends, no event is lost to a pass that runs while others commit, a pass moves the aggregate
  and the general ledger by exactly the change of the costs, and the closed-period detector mirrors
  the guard of the settlement table.
\<close>

section \<open>An undisturbed pass\<close>

lemma interference_id: "interference p (\<lambda>s. s)"
  unfolding interference_def arrivals_def by auto

lemma undisturbed_pass_clean:
  assumes claim: "claim_of nf p claim s" and sound: "pool_sound p s" and cp: "checkpoint nf p s"
    and run: "run_claimed_pass (\<lambda>s. s) claim s = Inr (out, s')" and esc: "pass_escalated out = None"
  shows "\<not> pass_requeued out"
proof (rule pass_state[OF claim sound cp run esc])
  fix adj g pending n s3
  assume s3: "db_trx_line s3 = db_trx_line s @ adj" "list_all (\<lambda>r. \<not> physical p r) adj"
    "db_settlement s3 = db_settlement s"
    "finish_pass (\<lambda>s. s) claim (pass_scan claim s) pending g n s3 = Inr (out, s')"
  have p: "cl_pool_id claim = p" using claim by (simp add: claim_of_def)
  have phys: "r \<in> set (db_trx_line s)" if "r \<in> set (db_trx_line s3)" "physical p r" for r
    using that s3(1,2) by (auto simp: list_all_iff)
  have scanned: "tl_id r \<in> set (map sc_id (pass_scan claim s))"
    if "r \<in> set (db_trx_line s3)" "physical p r" "after (scan_from claim) r" for r
    using phys[OF that(1,2)] that(2,3) scan_events_set[of p "scan_from claim" s] p by (auto simp: pass_scan_def)
  show ?thesis
  proof (cases "new_frontier claim (pass_scan claim s)")
    case None
    then have none: "pass_scan claim s = []" "cl_settled claim = None"
      by (auto simp: new_frontier_def split: if_splits)
    have "\<not> physical p r" if "r \<in> set (db_trx_line s3)" for r
      using scanned[OF that] none by (auto simp: scan_from_def full_replay_def after_def)
    then have "tail_count p None s3 = 0" by (simp add: tail_count_0)
    then show ?thesis
      by (rule_tac finish_pass_none[OF s3(4) None])
        (auto simp: p decide_queue_def Let_def note_missed_def split: if_splits)
  next
    case (Some f)
    obtain s1 fp b where st: "settle claim g f s3 = Inr (fp, s1)"
      and dq: "decide_queue p (scan_from claim) (Some f) (map sc_id (pass_scan claim s)) fp s1 = (b, s')"
      and out: "pass_requeued out = b"
      by (rule finish_pass_ok[OF s3(4) Some]) (auto simp: p)
    obtain r1 where r1: "settlement_of s1 p = Some r1" "s1 = s3\<lparr>db_settlement := db_settlement s1\<rparr>"
      "fp \<longleftrightarrow> se_recost_floor r1 \<noteq> None"
      "case settlement_of s3 p of None \<Rightarrow> se_recost_floor r1 = None
        | Some r0 \<Rightarrow> se_generation r0 \<le> se_generation r1 \<and>
            se_recost_floor r1 = (if se_recost_floor r0 = cl_floor claim then None else se_recost_floor r0)"
      by (rule settle_ok[OF st]) (auto simp: p)
    have lines: "db_trx_line s1 = db_trx_line s3" by (subst r1(2)) simp
    have "floor_of s3 p = cl_floor claim" using settled_cong[OF s3(3), of p] claim by (simp add: claim_of_def)
    then have "\<not> fp" using r1(3,4) by (auto simp: floor_of_def split: option.splits)
    moreover have "missed_event p (scan_from claim) f (map sc_id (pass_scan claim s)) s1 = None"
      using scanned lines by (simp add: missed_event_None)
    moreover have "tail_count p (Some f) s1 = 0"
      using frontier_covers[OF claim Some phys] by (force simp: tail_count_0 lines after_def)
    ultimately show ?thesis using decide_queue_ok[OF dq r1(1)] out by blast
  qed
qed

section \<open>Detection of frozen history\<close>

lemma frozen_lines_ids:
  "fst ` set (frozen_lines s ids) =
    {i. i \<in> set ids \<and> (\<exists>t\<in>set (db_trx_line s). tl_id t = i \<and> period_guard s (tl_posted_at t) \<noteq> Inr ())}"
proof (rule closed_frontier_cases[of s])
  assume "closed_frontier s = None" "list_all (\<lambda>pr. pe_state pr \<noteq> PeriodClosed) (db_period s)"
  then show ?thesis by (auto simp: frozen_lines_def period_guard_iff list_all_iff)
next
  fix pr
  assume *: "closed_frontier s = Some (pe_last pr)" "pr \<in> set (db_period s)" "pe_state pr = PeriodClosed"
    "list_all (\<lambda>pr'. pe_state pr' = PeriodClosed \<longrightarrow> pe_last pr' \<le> pe_last pr) (db_period s)"
  have "period_guard s t \<noteq> Inr () \<longleftrightarrow> t < day_start (pe_last pr + 1)" for t
    using * by (auto simp: period_guard_iff list_all_iff day_start_def)
  then show ?thesis using *(1) by (force simp: frozen_lines_def image_image)
qed

lemma detect_None:
  "detect_closed_period_divergence p pending s = None \<longleftrightarrow>
    frozen_lines s (map (dep_trx_line_id \<circ> pd_costing) pending) = []"
proof -
  let ?ids = "map (dep_trx_line_id \<circ> pd_costing) pending"
  let ?pick = "\<lambda>(i, period). case find (\<lambda>x. dep_trx_line_id (pd_costing x) = i) pending of
      None \<Rightarrow> [] | Some x \<Rightarrow> [(x, period)]"
  have "?pick y \<noteq> []" if "y \<in> set (frozen_lines s ?ids)" for y :: "i64 \<times> i64 option"
  proof -
    have "fst y \<in> fst ` set (frozen_lines s ?ids)" using that by simp
    then have "fst y \<in> set ?ids" unfolding frozen_lines_ids by blast
    then have "find (\<lambda>x. dep_trx_line_id (pd_costing x) = fst y) pending \<noteq> None"
      by (auto simp: find_None_iff)
    then show ?thesis by (auto split: prod.splits)
  qed
  then have "concat (map ?pick (frozen_lines s ?ids)) = [] \<longleftrightarrow> frozen_lines s ?ids = []"
    by (cases "frozen_lines s ?ids") auto
  then show ?thesis
    by (auto simp: detect_closed_period_divergence_def Let_def split: list.splits prod.splits)
qed

section \<open>Value and the general ledger\<close>

definition gl_net :: "i64 \<Rightarrow> db \<Rightarrow> int" where
  "gl_net account s =
    sum_list (map (\<lambda>r. (if po_debit_account r = account then po_amount r else 0) -
      (if po_credit_account r = account then po_amount r else 0)) (db_posting s))"

definition current_cost :: "db \<Rightarrow> trx_line_row \<Rightarrow> i64" where
  "current_cost s r = (case current_settlement s (tl_id r) of
     Some c \<Rightarrow> cs_authoritative c | None \<Rightarrow> tl_unit_cost r)"

definition depleted_value :: "i64 \<Rightarrow> db \<Rightarrow> int" where
  "depleted_value p s =
    sum_list (map (\<lambda>r. - tl_qty r * current_cost s r)
      (filter (\<lambda>r. physical p r \<and> tl_qty r < 0) (db_trx_line s)))"

definition inventory_account :: "PostingAccounts \<Rightarrow> i64 \<Rightarrow> bool" where
  "inventory_account accounts acct \<longleftrightarrow>
    (\<forall>l. fst (pair_for accounts l) = acct \<and> snd (pair_for accounts l) \<noteq> acct)"

lemma gl_net_iter:
  assumes "tx_iter f xs s = Inr (u, s')"
    "\<And>x s s'. x \<in> set xs \<Longrightarrow> f x s = Inr ((), s') \<Longrightarrow> gl_net acct s' = gl_net acct s - h x"
  shows "gl_net acct s' = gl_net acct s - sum_list (map h xs)"
  using assms
proof (induction xs arbitrary: s)
  case (Cons x xs)
  then obtain s1 where "f x s = Inr ((), s1)" "tx_iter f xs s1 = Inr (u, s')" by (auto simp: tx_bind_Inr)
  then show ?case using Cons.IH[of s1] Cons.prems(2)[of x s s1] Cons.prems(2) by simp
qed simp

lemma write_adjustment_gl:
  assumes "write_adjustment p g a trx_id x s = Inr (u, s')" "inventory_account a acct"
  shows "gl_net acct s' = gl_net acct s - pd_delta x"
  using assms(1)
proof (rule write_adjustment_ok)
  fix l
  assume s': "s' = s\<lparr>db_trx_line := db_trx_line s @
          [(adjustment_line p trx_id x (db_now s))\<lparr>tl_id := db_next_line s\<rparr>],
        db_next_line := db_next_line s + 1,
        db_posting := db_posting s @
          [(adjustment_posting (pair_for a l) (db_next_line s) \<bar>pd_delta x\<bar> x (db_now s))
            \<lparr>po_id := db_next_posting s\<rparr>],
        db_next_posting := db_next_posting s + 1,
        db_cost_settlement := db_cost_settlement s @
          [settlement_for g x (Some (db_next_posting s))]\<rparr>"
  have "fst (pair_for a l) = acct" "snd (pair_for a l) \<noteq> acct"
    using assms(2) by (simp_all add: inventory_account_def)
  then show ?thesis unfolding s' by (simp add: gl_net_def adjustment_posting_def)
qed

lemma sum_delta_split:
  "sum_list (map pd_delta (filter (\<lambda>x. pd_delta x \<noteq> 0) xs)) = sum_list (map pd_delta xs)"
  by (induction xs) simp_all

lemma write_generation_gl:
  assumes "write_generation p g pending s = Inr (n, s')" "pool_of s p = Some r"
    "db_accounts s (pl_sku_id r, pl_location_id r) = Some a" "inventory_account a acct"
  shows "gl_net acct s' = gl_net acct s - sum_list (map pd_delta pending)"
proof -
  let ?adj = "filter (\<lambda>x. pd_delta x \<noteq> 0) pending" and ?zero = "filter (\<lambda>x. pd_delta x = 0) pending"
  obtain accounts s1 s2 s3 draws where
    acc: "(if ?adj = [] then tx_return None
      else tx_bind (resolve_accounts p) (\<lambda>a. tx_return (Some a))) s = Inr (accounts, s1)"
    and draws: "tx_iter (insert_consumption g) draws s1 = Inr ((), s2)"
    and adj: "(case accounts of None \<Rightarrow> tx_return () | Some a \<Rightarrow>
        tx_bind insert_adjustment_trx (\<lambda>trx_id. tx_iter (write_adjustment p g a trx_id) ?adj)) s2 =
      Inr ((), s3)"
    and zero: "tx_iter (settle_unchanged g) ?zero s3 = Inr ((), s')"
    using assms(1) by (auto simp: write_generation_def Let_def tx_bind_Inr)
  have s1: "s1 = s" "accounts = (if ?adj = [] then None else Some a)"
    using acc assms(2,3) by (auto simp: tx_bind_Inr resolve_accounts_def split: if_splits)
  have "gl_net acct s2 = gl_net acct s1 - sum_list (map (\<lambda>_. 0) draws)"
    by (rule gl_net_iter[OF draws])
      (auto simp: insert_consumption_def Let_def gl_net_def split: if_splits)
  moreover have "gl_net acct s3 = gl_net acct s2 - sum_list (map pd_delta ?adj)"
  proof (cases "?adj = []")
    case True
    then show ?thesis using adj s1(2) by simp
  next
    case False
    then obtain trx_id s4 where tr: "insert_adjustment_trx s2 = Inr (trx_id, s4)"
      and iter: "tx_iter (write_adjustment p g a trx_id) ?adj s4 = Inr ((), s3)"
      using adj s1(2) by (auto simp: tx_bind_Inr)
    have "gl_net acct s4 = gl_net acct s2"
      using tr by (auto simp: insert_adjustment_trx_def insert_trx_def gl_net_def split: if_splits)
    moreover have "gl_net acct s3 = gl_net acct s4 - sum_list (map pd_delta ?adj)"
      by (rule gl_net_iter[OF iter]) (rule write_adjustment_gl[OF _ assms(4)])
    ultimately show ?thesis by simp
  qed
  moreover have "gl_net acct s' = gl_net acct s3 - sum_list (map (\<lambda>_. 0) ?zero)"
    by (rule gl_net_iter[OF zero])
      (auto simp: settle_unchanged_def gl_net_def dest!: insert_settlement_ok)
  ultimately show ?thesis by (simp add: s1(1) sum_delta_split)
qed

text \<open>How re-costing some depletions changes the value of all of them.\<close>

lemma depleted_change:
  assumes lines: "db_trx_line s' = db_trx_line s @ adj" "list_all (\<lambda>r. \<not> physical p r) adj"
    and ids: "distinct (map tl_id (db_trx_line s))" "distinct (map key pending)"
    and hit: "\<And>x. x \<in> set pending \<Longrightarrow> \<exists>t\<in>set (db_trx_line s). physical p t \<and> tl_qty t < 0 \<and> tl_id t = key x \<and>
      - tl_qty t * (current_cost s' t - current_cost s t) = pd_delta x"
    and miss: "\<And>t. t \<in> set (db_trx_line s) \<Longrightarrow> tl_id t \<notin> key ` set pending \<Longrightarrow> current_cost s' t = current_cost s t"
  shows "depleted_value p s' = depleted_value p s + sum_list (map pd_delta pending)"
proof -
  let ?D = "filter (\<lambda>r. physical p r \<and> tl_qty r < 0) (db_trx_line s)"
  let ?g = "\<lambda>t. - tl_qty t * (current_cost s' t - current_cost s t)"
  have D': "filter (\<lambda>r. physical p r \<and> tl_qty r < 0) (db_trx_line s') = ?D"
    using lines by (auto simp: list_all_iff filter_empty_conv)
  have dist: "distinct ?D" "inj_on tl_id (set ?D)"
    using ids(1) by (auto simp: distinct_map inj_on_def)
  obtain line where line: "\<And>x. x \<in> set pending \<Longrightarrow> line x \<in> set ?D \<and> tl_id (line x) = key x \<and> ?g (line x) = pd_delta x"
    using hit by (simp add: Bex_def) metis
  have inj: "inj_on line (set pending)" "distinct pending"
    using ids(2) line by (auto simp: distinct_map inj_on_def) metis
  have "sum_list (map pd_delta pending) = (\<Sum>x\<in>set pending. ?g (line x))"
    using inj(2) line by (simp add: sum_list_distinct_conv_sum_set)
  also have "\<dots> = sum ?g (line ` set pending)" by (simp add: sum.reindex[OF inj(1)])
  also have "\<dots> = sum ?g (set ?D)"
  proof (rule sum.mono_neutral_left)
    show "line ` set pending \<subseteq> set ?D" using line by blast
    show "\<forall>t\<in>set ?D - line ` set pending. ?g t = 0"
    proof
      fix t assume t: "t \<in> set ?D - line ` set pending"
      have "tl_id t \<notin> key ` set pending"
      proof
        assume "tl_id t \<in> key ` set pending"
        then obtain x where x: "x \<in> set pending" "tl_id t = tl_id (line x)" using line by auto
        then have "t = line x" using inj_onD[OF dist(2) x(2)] t line by blast
        then show False using t x(1) by blast
      qed
      then show "?g t = 0" using miss[of t] t by simp
    qed
  qed simp
  also have "\<dots> = sum_list (map ?g ?D)" using dist(1) by (rule sum_list_distinct_conv_sum_set[symmetric])
  also have "\<dots> = depleted_value p s' - depleted_value p s"
    unfolding depleted_value_def D' sum_list_subtractf[symmetric] by (simp add: algebra_simps)
  finally show ?thesis by simp
qed

lemma pass_depleted:
  assumes claim: "claim_of nf p claim s" and sound: "pool_sound p s"
    and l2: "list_all2 (costing_for 0 i64_max)
      (filter (\<lambda>e. ev_qty e < 0) (map strict_event_of (pass_scan claim s))) (fold_costings fo)"
    and pend: "pendings (pass_scan claim s) (load_priors (fold_costings fo) s) (fold_costings fo) = Inr pending"
    and g: "pending \<noteq> [] \<Longrightarrow> generation_of s p < g"
    and w: "written (map (pending_key g) ps) s s1" and ps: "mset ps = mset pending"
    and s3: "db_trx_line s3 = db_trx_line s @ adj" "list_all (\<lambda>r. \<not> physical p r) adj"
      "db_cost_settlement s3 = db_cost_settlement s1"
  shows "depleted_value p s3 = depleted_value p s + sum_list (map pd_delta pending)"
proof -
  note pf = pending_facts[OF claim sound l2 pend]
  have ls: "lines_sound p s" using sound by (simp add: pool_sound_def books_sound_def)
  have cur: "current_settlement s3 = current_settlement s1"
    by (rule ext) (simp add: current_settlement_def s3(3))
  have set: "set ps = set pending" using ps by (metis set_mset_mset)
  have mem: "pd_costing x \<in> set (fold_costings fo)" if "x \<in> set pending" for x
    using arg_cong[OF pf(1), of set] that by auto
  have "distinct (map dep_trx_line_id (map pd_costing pending))"
    unfolding pf(1) using pf(3) by (rule distinct_map_filter)
  then have d: "distinct (map (dep_trx_line_id \<circ> pd_costing) pending)" by simp
  then have d': "distinct (map (dep_trx_line_id \<circ> pd_costing) ps)"
    using mset_eq_imp_distinct_iff[of "map (dep_trx_line_id \<circ> pd_costing) ps"
        "map (dep_trx_line_id \<circ> pd_costing) pending"] ps by simp
  have gens: "cs_generation r < g" if r: "r \<in> set (db_cost_settlement s)"
    and i: "cs_depletion r \<in> (dep_trx_line_id \<circ> pd_costing) ` set ps" for r
  proof -
    obtain x where x: "x \<in> set pending" "cs_depletion r = dep_trx_line_id (pd_costing x)" using i set by auto
    then have "cs_generation r \<le> generation_of s p"
      using pf(4)[OF mem[OF x(1)]] sound r
      by (auto simp: pool_sound_def books_sound_def list_all_iff list_ex_iff)
    then show ?thesis using g x(1) by fastforce
  qed
  show ?thesis
  proof (rule depleted_change[OF s3(1,2) _ d])
    show "distinct (map tl_id (db_trx_line s))" using ls by (simp add: lines_sound_def)
    fix x assume x: "x \<in> set pending"
    obtain t where t: "t \<in> set (db_trx_line s)" "physical p t" "tl_qty t < 0" "tl_id t = dep_trx_line_id (pd_costing x)"
      "dep_qty (pd_costing x) = - tl_qty t" "dep_observed (pd_costing x) = tl_unit_cost t"
      "0 \<le> dep_authoritative (pd_costing x)" "dep_authoritative (pd_costing x) \<le> i64_max"
      using pf(4)[OF mem[OF x]] by blast
    have prior: "pd_prior x = current_cost s t"
      "pd_delta x = wrap_i64 (dep_authoritative (pd_costing x) - pd_prior x) * dep_qty (pd_costing x)"
      using pf(2) x t(4,6) by (auto simp: list_all_iff pending_for_def prior_of_def current_cost_def split: option.split)
    have "0 \<le> current_cost s t" "current_cost s t \<le> i64_max"
      using t(1,2) ls sound
      by (auto simp: current_cost_def lines_sound_def list_all_iff event_line_def pool_sound_def books_sound_def
          dest!: current_settlement_Some split: option.splits)
    then have "is_i64 (dep_authoritative (pd_costing x) - pd_prior x)"
      using t(7,8) prior(1) by (simp add: i64_defs)
    then have "pd_delta x = (dep_authoritative (pd_costing x) - current_cost s t) * - tl_qty t"
      using prior t(5) by (simp add: wrap_i64_id)
    moreover have "map_option cs_authoritative (current_settlement s1 (dep_trx_line_id (pd_costing x))) =
        Some (dep_authoritative (pd_costing x))"
      by (rule written_current(1)[OF w d' gens]) (use x set in auto)
    then have "current_cost s3 t = dep_authoritative (pd_costing x)"
      using t(4) by (auto simp: current_cost_def cur)
    ultimately show "\<exists>t\<in>set (db_trx_line s). physical p t \<and> tl_qty t < 0 \<and> tl_id t = (dep_trx_line_id \<circ> pd_costing) x \<and>
        - tl_qty t * (current_cost s3 t - current_cost s t) = pd_delta x"
      using t by (intro bexI[of _ t]) (auto simp: algebra_simps)
  next
    fix t assume "t \<in> set (db_trx_line s)" "tl_id t \<notin> (dep_trx_line_id \<circ> pd_costing) ` set pending"
    then have "current_settlement s1 (tl_id t) = current_settlement s (tl_id t)"
      by (intro written_current(2)[OF w d' gens]) (use set in auto)
    then show "current_cost s3 t = current_cost s t" by (simp add: current_cost_def cur)
  qed
qed

lemma aggregate_kept:
  assumes "list_all (\<lambda>l. 0 < lay_id l) ls"
    "s' = s\<lparr>db_pool_state := filter (\<lambda>r. \<not> open_layer_of p r) (db_pool_state s) @ map (open_row p) ls\<rparr>"
  shows "state_of s' p 0 = state_of s p 0"
proof -
  have "find_key st_key (filter (\<lambda>r. \<not> open_layer_of p r) xs) (p, 0) = find_key st_key xs (p, 0)" for xs
    unfolding find_key_def by (induction xs) (auto simp: open_layer_of_def st_key_def)
  moreover have "find_key st_key (map (open_row p) ls) (p, 0) = None"
    using assms(1) by (auto simp: find_key_None st_key_def open_row_def list_all_iff)
  ultimately show ?thesis by (simp add: state_of_def assms(2) find_key_append split: option.splits)
qed

lemma reconciled_aggregate:
  assumes "(if net \<noteq> 0 then reconcile_aggregate_value p net else tx_return ()) s = Inr (v, s')"
    "state_of s p 0 = Some r"
  obtains r' where "state_of s' p 0 = Some r'" "st_qty r' = st_qty r" "st_value_sum r' = st_value_sum r - net"
    "db_posting s' = db_posting s"
proof (cases "net = 0")
  case True
  then show ?thesis using assms by (intro that[of r]) auto
next
  case False
  then have "reconcile_aggregate_value p net s = Inr (v, s')" using assms(1) by simp
  then show ?thesis
    by (rule reconcile_aggregate_ok) (use assms(2) in \<open>auto intro!: that\<close>)
qed

lemma finish_same_books:
  assumes "finish_pass (\<lambda>s. s) claim scanned pending g n s = Inr (out, s')"
  shows "same_books s s'"
proof (cases "new_frontier claim scanned")
  case None
  then show ?thesis
    by (rule_tac finish_pass_none[OF assms None]) (auto simp: same_books_def dest: decide_queue_frame)
next
  case (Some f)
  show ?thesis by (rule finish_state[OF assms Some refl]) simp
qed

section \<open>A pool to replay\<close>

text \<open>A FIFO pool with two receipts, the second one posted before the depletion but recorded after
  it, and a depletion recorded at a provisional cost.\<close>

definition recalc_line :: "i64 \<Rightarrow> string \<Rightarrow> i64 \<Rightarrow> i64 \<Rightarrow> timestamp \<Rightarrow> trx_line_row" where
  "recalc_line i lt q c t = \<lparr>tl_id = i, tl_trx_id = 1, tl_pool_id = 4, tl_line_type = lt, tl_source_id = None,
     tl_qty = q, tl_unit_cost = c, tl_source_trx_line_id = None, tl_posted_at = t\<rparr>"

definition recalc_db :: db where
  "recalc_db = demo_db\<lparr>
     db_trx_line := [recalc_line 1 ''po_receipt_line'' 10 100 10, recalc_line 2 ''wo_backflush'' (- 12) 120 30,
       recalc_line 3 ''po_receipt_line'' 5 90 20],
     db_pool_state := [\<lparr>st_pool_id = 4, st_layer_id = 0, st_qty = 3, st_unit_cost = 3, st_value_sum = 10\<rparr>],
     db_queue := [\<lparr>qu_pool_id = 4, qu_enqueued_at = 0\<rparr>],
     db_next_line := 4, db_now := 100\<rparr>"

lemma recalc_db_settles: "settles False 4 recalc_db"
  by code_simp

lemma recalc_db_drains: "is_ok (drain_pool_to_head (\<lambda>_ s. s) 4 recalc_db)"
  by code_simp

definition recalc_result :: "(DrainStats \<Rightarrow> db \<Rightarrow> bool) \<Rightarrow> bool" where
  "recalc_result P = (case drain_pool_to_head (\<lambda>_ s. s) 4 recalc_db of
     Inr (Drained st, s') \<Rightarrow> P st s' | _ \<Rightarrow> False)"

lemma recalc_db_facts:
  "recalc_result (\<lambda>st s'. dr_escalated st = None \<and> map cs_authoritative (db_cost_settlement s') = [98] \<and>
    map (\<lambda>r. (st_layer_id r, st_qty r, st_value_sum r)) (db_pool_state s') = [(0, 3, 274), (3, 3, 270)])"
  unfolding recalc_result_def by code_simp

lemma recalc_db_run:
  obtains st s' where "drain_pool_to_head (\<lambda>_ s. s) 4 recalc_db = Inr (Drained st, s')" "dr_escalated st = None"
    "map cs_authoritative (db_cost_settlement s') = [98]"
  using recalc_db_facts by (auto simp: recalc_result_def split: sum.splits prod.splits DrainOutcome.splits)

section \<open>Properties\<close>

lemma drain_loop_exact:
  assumes "settles nf p s" "\<And>i. interference p (mids i)"
    "drain_loop mids n p st s = Inr (Drained st', s')" "dr_escalated st' = None"
  shows "settles nf p s' \<and> holds p (strict_fold nf [] (stream p s')) s'"
  using assms(1,3)
proof (induction n arbitrary: s st)
  case (Suc n)
  obtain claim s1 where cl: "claim_pool p s = Inr (claim, s1)"
    using Suc.prems(2) by (auto simp: tx_bind_Inr)
  note c = claim_pool_ok[OF cl Suc.prems(1)]
  obtain out s2 where run: "run_claimed_pass (mids n) claim s1 = Inr (out, s2)"
    using Suc.prems(2) cl c(5) by (auto simp: tx_bind_Inr)
  note ps = pass_settles[OF c(1,2) assms(2) run]
  show ?case
  proof (cases "pass_escalated out \<noteq> None \<or> \<not> pass_requeued out")
    case True
    then have "dr_escalated st' = pass_escalated out" "s' = s2"
      using Suc.prems(2) cl c(5) run by (auto simp: Let_def)
    then show ?thesis using ps True assms(4) by auto
  next
    case False
    then obtain st1 where "drain_loop mids n p st1 s2 = Inr (Drained st', s')"
      using Suc.prems(2) cl c(5) run by (auto simp: Let_def)
    then show ?thesis using Suc.IH ps(1) by blast
  qed
qed simp



text \<open>
  C2. The checkpoint invariant holds through the life of a pool: over any sequence of arrivals and
  passes, each pass itself disturbed by arrivals, a sound FIFO or LIFO pool stays sound, and while it
  has a settled frontier and no recost floor its stored layers and the authoritative costs of its
  depletions are those of a replay of its history, from the opening up to the frontier. A pool that was
  never settled satisfies it trivially, so the replay that a pass starts from is never stale.
\<close>
theorem engine_keeps_checkpoint:
  assumes "(engine_step p)\<^sup>*\<^sup>* s s'" "settles nf p s"
  shows "pool_sound p s' \<and> checkpoint nf p s'"
proof -
  from assms have "settles nf p s'"
  proof (induction rule: rtranclp_induct)
    case (step s1 s2)
    from step.hyps(2) show ?case
    proof (cases rule: engine_step.cases)
      case arrive
      then show ?thesis using arrivals_settles[of nf p s1 s2] step.IH step.prems by blast
    next
      case (pass claim s3 mid out)
      have st: "settles nf p s1" using step.IH step.prems by blast
      show ?thesis by (rule pass_settles(1)[OF claim_pool_ok(1,2)[OF pass(1) st] pass(2,3)])
    qed
  qed
  then show ?thesis by (simp add: settles_def)
qed

lemma recalc_first_pass:
  "case claim_pool 4 recalc_db of Inr (claim, s1) \<Rightarrow>
     (case run_claimed_pass (\<lambda>s. s) claim s1 of Inr (out, s2) \<Rightarrow>
        settled_of s2 4 = Some (30, 2) \<and> floor_of s2 4 = None | _ \<Rightarrow> False) | _ \<Rightarrow> False"
  by code_simp

theorem engine_keeps_checkpoint_witness:
  "\<exists>s'. (engine_step 4)\<^sup>*\<^sup>* recalc_db s' \<and> settled_of s' 4 = Some (30, 2) \<and>
    holds 4 (strict_fold False [] (history (30, 2) 4 s')) s'"
proof -
  obtain claim s1 out s2 where r: "claim_pool 4 recalc_db = Inr (claim, s1)"
    "run_claimed_pass (\<lambda>s. s) claim s1 = Inr (out, s2)" "settled_of s2 4 = Some (30, 2)" "floor_of s2 4 = None"
    using recalc_first_pass
    by (cases "claim_pool 4 recalc_db"; simp split: prod.splits)
      (cases "run_claimed_pass (\<lambda>s. s) (fst (projr (claim_pool 4 recalc_db))) (snd (projr (claim_pool 4 recalc_db)))";
        auto)
  have st: "(engine_step 4)\<^sup>*\<^sup>* recalc_db s2" using engine_step.pass[OF r(1) interference_id r(2)] by blast
  from engine_keeps_checkpoint[OF st recalc_db_settles] r(3,4) have "holds 4 (strict_fold False [] (history (30, 2) 4 s2)) s2"
    by (simp add: checkpoint_def)
  then show ?thesis using st r(3) by blast
qed

text \<open>
  Draining ends, and at once: when nothing commits during the pass, the first pass leaves the
  pool clean or escalates, so the loop of a sound FIFO or LIFO pool makes exactly one pass and is
  nowhere near its bound of ten thousand; the drain fails only where the claim or that pass fails.
\<close>
theorem drain_one_pass:
  assumes "settles nf p s"
  shows "drain_pool_to_head (\<lambda>_ s. s) p s =
    tx_bind (claim_pool p) (\<lambda>claim. tx_bind (run_claimed_pass (\<lambda>s. s) claim) (\<lambda>out.
      tx_return (Drained \<lparr>dr_passes = 1, dr_settlements = int (pass_settlements out),
        dr_adjustments = int (pass_adjustments out), dr_generation = pass_generation out,
        dr_escalated = pass_escalated out\<rparr>))) s"
proof -
  obtain m where n: "MAX_DRAIN_PASSES = Suc m" by (simp add: MAX_DRAIN_PASSES_def)
  show ?thesis
  proof (cases "claim_pool p s")
    case (Inl e)
    then show ?thesis by (simp add: drain_pool_to_head_def n)
  next
    case (Inr y)
    obtain claim s1 where cl: "claim_pool p s = Inr (claim, s1)" using Inr by (cases y) auto
    note c = claim_pool_ok[OF cl assms]
    show ?thesis
    proof (cases "run_claimed_pass (\<lambda>s. s) claim s1")
      case (Inl e)
      then show ?thesis using cl c(5) by (simp add: drain_pool_to_head_def n)
    next
      case (Inr z)
      obtain out s2 where run: "run_claimed_pass (\<lambda>s. s) claim s1 = Inr (out, s2)" using Inr by (cases z) auto
      have "pass_escalated out \<noteq> None \<or> \<not> pass_requeued out"
        using undisturbed_pass_clean[OF c(1) _ _ run] c(2) by (auto simp: settles_def)
      then show ?thesis using cl c(5) run by (auto simp: drain_pool_to_head_def n Let_def)
    qed
  qed
qed

theorem drain_one_pass_witness:
  "\<exists>st s'. drain_pool_to_head (\<lambda>_ s. s) 4 recalc_db = Inr (Drained st, s') \<and> dr_passes st = 1"
proof (rule recalc_db_run)
  fix st s'
  assume run: "drain_pool_to_head (\<lambda>_ s. s) 4 recalc_db = Inr (Drained st, s')"
  from run[unfolded drain_one_pass[OF recalc_db_settles]] have "dr_passes st = 1" by (auto simp: tx_bind_Inr)
  then show ?thesis using run by blast
qed

text \<open>
  C8. No event is lost to a pass that runs while other transactions commit. Whatever they commit,
  the pass settles the pool through the last event it scanned; an event inside the replayed range
  that the scan did not see leaves a recost floor at or below it; the pool stays queued exactly when a
  floor is set or an event lies beyond the frontier; and a pool that leaves the queue has had every
  event of the range scanned.
\<close>
theorem pass_loses_no_event:
  assumes "run_claimed_pass mid claim s = Inr (out, s')" "pass_escalated out = None"
    "new_frontier claim (pass_scan claim s) = Some f"
  shows "settled_of s' (cl_pool_id claim) = Some f \<and>
    list_all (\<lambda>r. physical (cl_pool_id claim) r \<and> after (scan_from claim) r \<and> line_pos r \<le> f \<and>
        tl_id r \<notin> set (map sc_id (pass_scan claim s)) \<longrightarrow>
      (case floor_of s' (cl_pool_id claim) of None \<Rightarrow> False | Some fl \<Rightarrow> fl \<le> line_pos r)) (db_trx_line s') \<and>
    (pass_requeued out \<longleftrightarrow> floor_of s' (cl_pool_id claim) \<noteq> None \<or>
      list_ex (\<lambda>r. physical (cl_pool_id claim) r \<and> f < line_pos r) (db_trx_line s')) \<and>
    (\<not> pass_requeued out \<longrightarrow> cl_pool_id claim \<notin> set (map qu_pool_id (db_queue s')) \<and>
      list_all (\<lambda>r. physical (cl_pool_id claim) r \<and> after (scan_from claim) r \<longrightarrow>
        tl_id r \<in> set (map sc_id (pass_scan claim s))) (db_trx_line s'))"
proof (rule run_claimed_pass_ok[OF assms(1,2)])
  fix fo pending g n s1 u s2 v s3
  assume fin: "finish_pass mid claim (pass_scan claim s) pending g n s3 = Inr (out, s')"
  let ?p = "cl_pool_id claim" and ?ids = "map sc_id (pass_scan claim s)"
  obtain r where r: "settlement_of s' ?p = Some r" "se_settled_through r = Some f" "same_books (mid s3) s'"
    "se_recost_floor r = None \<Longrightarrow> missed_event ?p (scan_from claim) f ?ids (mid s3) = None \<and>
      (floor_of (mid s3) ?p = None \<or> floor_of (mid s3) ?p = cl_floor claim)"
    "\<And>pos. missed_event ?p (scan_from claim) f ?ids (mid s3) = Some pos \<Longrightarrow>
      \<exists>fl. se_recost_floor r = Some fl \<and> fl \<le> pos"
    "pass_requeued out \<longleftrightarrow> se_recost_floor r \<noteq> None \<or> tail_count ?p (Some f) (mid s3) \<noteq> 0"
    "\<not> pass_requeued out \<Longrightarrow> ?p \<notin> set (map qu_pool_id (db_queue s'))"
    by (rule finish_state[OF fin assms(3) refl]) (rule that)
  have lines: "db_trx_line (mid s3) = db_trx_line s'" using r(3) by (simp add: same_books_def)
  have fl: "floor_of s' ?p = se_recost_floor r" "settled_of s' ?p = Some f"
    using r(1,2) by (simp_all add: floor_of_def settled_of_def)
  have low: "case se_recost_floor r of None \<Rightarrow> False | Some fl \<Rightarrow> fl \<le> line_pos t"
    if t: "t \<in> set (db_trx_line s')" "physical ?p t" "after (scan_from claim) t" "line_pos t \<le> f" "tl_id t \<notin> set ?ids" for t
  proof (cases "missed_event ?p (scan_from claim) f ?ids (mid s3)")
    case None
    then show ?thesis using t lines by (auto simp: missed_event_None)
  next
    case (Some pos)
    obtain x where "se_recost_floor r = Some x" "x \<le> pos" using r(5)[OF Some] by blast
    moreover have "pos \<le> line_pos t" using missed_event_Some[OF Some] t lines by simp
    ultimately show ?thesis by simp
  qed
  have tail: "tail_count ?p (Some f) (mid s3) \<noteq> 0 \<longleftrightarrow> list_ex (\<lambda>r. physical ?p r \<and> f < line_pos r) (db_trx_line s')"
    by (auto simp: tail_count_0 lines after_def list_ex_iff)
  have seen: "tl_id t \<in> set ?ids" if q: "\<not> pass_requeued out"
    and t: "t \<in> set (db_trx_line s')" "physical ?p t" "after (scan_from claim) t" for t
  proof (rule ccontr)
    assume no: "tl_id t \<notin> set ?ids"
    have "se_recost_floor r = None" "\<not> list_ex (\<lambda>r. physical ?p r \<and> f < line_pos r) (db_trx_line s')"
      using q r(6) tail by blast+
    moreover from this(2) have "line_pos t \<le> f" using t by (auto simp: list_ex_iff)
    ultimately show False using low[OF t _ no] by simp
  qed
  have "list_all (\<lambda>r. physical ?p r \<and> after (scan_from claim) r \<and> line_pos r \<le> f \<and> tl_id r \<notin> set ?ids \<longrightarrow>
      (case floor_of s' ?p of None \<Rightarrow> False | Some fl \<Rightarrow> fl \<le> line_pos r)) (db_trx_line s')"
    unfolding list_all_iff fl(1) using low by blast
  moreover have "\<not> pass_requeued out \<longrightarrow> ?p \<notin> set (map qu_pool_id (db_queue s')) \<and>
      list_all (\<lambda>r. physical ?p r \<and> after (scan_from claim) r \<longrightarrow> tl_id r \<in> set ?ids) (db_trx_line s')"
    unfolding list_all_iff using seen r(7) by blast
  moreover have "pass_requeued out \<longleftrightarrow> floor_of s' ?p \<noteq> None \<or>
      list_ex (\<lambda>r. physical ?p r \<and> f < line_pos r) (db_trx_line s')"
    using r(6) unfolding fl(1) tail .
  ultimately show ?thesis using fl(2) by (intro conjI)
qed

definition late_receipt :: "db \<Rightarrow> db" where
  "late_receipt s = s\<lparr>db_trx_line := db_trx_line s @ [recalc_line (db_next_line s) ''po_receipt_line'' 7 80 15],
     db_next_line := db_next_line s + 1\<rparr>"

definition recalc_claim :: Claim where
  "recalc_claim = \<lparr>cl_pool_id = 4, cl_method = Fifo, cl_generation = 0, cl_settled = None, cl_floor = None\<rparr>"

lemma late_pass:
  "case run_claimed_pass late_receipt recalc_claim recalc_db of
     Inr (out, s') \<Rightarrow> pass_escalated out = None \<and> tl_id (last (db_trx_line s')) = 5 | Inl _ \<Rightarrow> False"
  "new_frontier recalc_claim (pass_scan recalc_claim recalc_db) = Some (30, 2)"
  by code_simp+

theorem pass_loses_no_event_witness:
  "\<exists>out s'. run_claimed_pass late_receipt recalc_claim recalc_db = Inr (out, s') \<and>
    settled_of s' 4 = Some (30, 2) \<and> (floor_of s' 4 \<noteq> None \<longrightarrow> pass_requeued out)"
proof -
  obtain out s' where run: "run_claimed_pass late_receipt recalc_claim recalc_db = Inr (out, s')"
    "pass_escalated out = None"
    using late_pass(1) by (auto split: sum.splits)
  from pass_loses_no_event[OF run late_pass(2)] have "settled_of s' 4 = Some (30, 2)"
    "floor_of s' 4 \<noteq> None \<longrightarrow> pass_requeued out"
    by (simp_all add: recalc_claim_def)
  then show ?thesis using run(1) by blast
qed

text \<open>
  C28. A pass moves the books by exactly the change of the costs. The aggregate row keeps its quantity,
  and its value plus the value of all depletions at their current costs, authoritative where settled
  and provisional otherwise, is the same before and after the pass; and the net balance of the
  inventory account in the general ledger changes by the same amount as the aggregate's value.
\<close>
theorem pass_moves_value:
  assumes claim: "claim_of nf p claim s" and st: "settles nf p s"
    and run: "run_claimed_pass (\<lambda>s. s) claim s = Inr (out, s')" "pass_escalated out = None"
    and agg: "state_of s p 0 = Some r"
    and acc: "pool_of s p = Some pl" "db_accounts s (pl_sku_id pl, pl_location_id pl) = Some a" "inventory_account a acct"
  shows "\<exists>r'. state_of s' p 0 = Some r' \<and> st_qty r' = st_qty r \<and>
    st_value_sum r' + depleted_value p s' = st_value_sum r + depleted_value p s \<and>
    gl_net acct s' - gl_net acct s = st_value_sum r' - st_value_sum r"
proof -
  have p: "cl_pool_id claim = p" using claim by (simp add: claim_of_def)
  have sound: "pool_sound p s" "checkpoint nf p s" using st by (simp_all add: settles_def)
  obtain fo pending g n s1 u s2 v s3 where f: "pass_fold claim s = Some fo"
    "pendings (pass_scan claim s) (load_priors (fold_costings fo) s) (fold_costings fo) = Inr pending"
    "g = cl_generation claim + (if pending \<noteq> [] then 1 else 0)"
    "(if pending \<noteq> [] then write_generation p g pending else tx_return 0) s = Inr (n, s1)"
    "(if pass_scan claim s \<noteq> [] then materialize_layers p (fold_layers fo) else tx_return ()) s1 = Inr (u, s2)"
    "(if sum_list (map pd_delta pending) \<noteq> 0
      then reconcile_aggregate_value p (sum_list (map pd_delta pending)) else tx_return ()) s2 = Inr (v, s3)"
    "finish_pass (\<lambda>s. s) claim (pass_scan claim s) pending g n s3 = Inr (out, s')"
    by (rule run_claimed_pass_ok[OF run]) (unfold p, rule that)
  obtain old where old: "strict_fold nf [] (stream p s) =
      Some \<lparr>fold_costings = old @ fold_costings fo, fold_layers = fold_layers fo\<rparr>"
    "list_all2 (costing_for 0 i64_max)
      (filter (\<lambda>e. ev_qty e < 0) (map strict_event_of (pass_scan claim s))) (fold_costings fo)"
    by (rule pass_fold_replay[OF claim sound f(1)])
  have pos: "list_all (\<lambda>l. 0 < lay_id l) (fold_layers fo)"
    using layer_ids_physical(2)[OF _ old(1)] sound by (auto simp: list_all_iff pool_sound_def books_sound_def)
  let ?ps = "filter (\<lambda>x. pd_delta x \<noteq> 0) pending @ filter (\<lambda>x. pd_delta x = 0) pending"
  obtain s1' where w: "written (map (pending_key g) ?ps) s s1'" "db_trx_line s3 = db_trx_line s1'"
    "db_cost_settlement s3 = db_cost_settlement s1'"
    using pass_writes_ok[OF f(4-6) pos] by (auto simp: pass_writes_def)
  have added: "adjustments_added s s1'" and ls: "lines_sound p s"
    using w(1) sound by (auto simp: written_def pool_sound_def books_sound_def)
  obtain adj where adj: "db_trx_line s1' = db_trx_line s @ adj" "list_all (\<lambda>r. \<not> physical p r) adj"
    by (rule adjustments_lines[OF added ls])
  have g: "pending \<noteq> [] \<Longrightarrow> generation_of s p < g" using f(3) claim by (simp add: claim_of_def)
  have ps: "mset ?ps = mset pending" by (induction pending) auto
  have dv: "depleted_value p s3 = depleted_value p s + sum_list (map pd_delta pending)"
    by (rule pass_depleted[OF claim sound(1) old(2) f(2) g w(1) ps _ adj(2) w(3)]) (simp_all add: w(2) adj(1))
  have sb: "same_books s3 s'" by (rule finish_same_books[OF f(7)])
  have agg1: "state_of s1 p 0 = state_of s p 0" "gl_net acct s1 = gl_net acct s - sum_list (map pd_delta pending)"
    using f(4) write_generation_written[of p g pending s n s1] write_generation_gl[OF _ acc]
    by (auto simp: state_of_def written_def engine_frame_def split: if_splits)
  have agg2: "state_of s2 p 0 = state_of s1 p 0" "db_posting s2 = db_posting s1"
    using f(5) aggregate_kept[OF pos, of s2 p s1] by (auto dest!: materialize_layers_ok split: if_splits)
  obtain r' where r': "state_of s3 p 0 = Some r'" "st_qty r' = st_qty r"
    "st_value_sum r' = st_value_sum r - sum_list (map pd_delta pending)" "db_posting s3 = db_posting s2"
    by (rule reconciled_aggregate[OF f(6)]) (use agg agg1 agg2 in auto)
  have "depleted_value p s' = depleted_value p s3" "state_of s' p 0 = state_of s3 p 0" "gl_net acct s' = gl_net acct s1"
    using sb agg2 r'(4)
    by (simp_all add: same_books_def depleted_value_def current_cost_def current_settlement_def state_of_def gl_net_def)
  then show ?thesis using r' dv agg1(2) by (intro exI[of _ r']) auto
qed

lemma recalc_claim_ok: "claim_of False 4 recalc_claim recalc_db"
  by (simp add: claim_of_def recalc_claim_def recalc_db_def demo_db_def settled_of_def floor_of_def
      generation_of_def settlement_of_def find_key_def)

lemma quiet_pass:
  "case run_claimed_pass (\<lambda>s. s) recalc_claim recalc_db of
     Inr (out, s') \<Rightarrow> pass_escalated out = None \<and> depleted_value 4 s' = 1176 | Inl _ \<Rightarrow> False"
  "depleted_value 4 recalc_db = 1440"
  by code_simp+

theorem pass_moves_value_witness:
  "\<exists>out s' r'. run_claimed_pass (\<lambda>s. s) recalc_claim recalc_db = Inr (out, s') \<and>
    state_of s' 4 0 = Some r' \<and> st_value_sum r' = 274 \<and> gl_net 10 s' - gl_net 10 recalc_db = 264"
proof -
  obtain out s' where run: "run_claimed_pass (\<lambda>s. s) recalc_claim recalc_db = Inr (out, s')"
    "pass_escalated out = None" and dv: "depleted_value 4 s' = 1176"
    using quiet_pass(1) by (auto split: sum.splits)
  have "state_of recalc_db 4 0 =
      Some \<lparr>st_pool_id = 4, st_layer_id = 0, st_qty = 3, st_unit_cost = 3, st_value_sum = 10\<rparr>"
    "pool_of recalc_db 4 =
      Some \<lparr>pl_id = 4, pl_sku_id = 4, pl_location_id = 1, pl_method = Fifo, pl_basis = RunningAvg\<rparr>"
    "db_accounts recalc_db (4, 1) = Some demo_accounts"
    by (simp_all add: recalc_db_def demo_db_def state_of_def pool_of_def find_key_def st_key_def)
  moreover have "inventory_account demo_accounts 10"
    unfolding inventory_account_def demo_accounts_def by (intro allI, case_tac l) simp_all
  ultimately show ?thesis
    using pass_moves_value[OF recalc_claim_ok recalc_db_settles run, of _ _ demo_accounts 10] dv quiet_pass(2) run(1)
    by fastforce
qed

definition recalc_pending :: Pending where
  "recalc_pending = \<lparr>pd_costing = \<lparr>dep_trx_line_id = 2, dep_qty = 12, dep_observed = 120,
       dep_authoritative = 98, dep_uncovered = 0, dep_draws = []\<rparr>,
     pd_line_type = ''wo_backflush'', pd_prior = 120, pd_delta = - 264\<rparr>"

definition closed_db :: db where
  "closed_db = recalc_db\<lparr>db_period := [\<lparr>pe_id = 1, pe_start = 0, pe_last = 0, pe_state = PeriodClosed,
     pe_closed_at = Some 50, pe_closed_by = Some ''ops''\<rparr>]\<rparr>"

text \<open>
  C29. The closed-period detector is exact: it lets a set of pending settlements through if and only
  if the trigger on the settlement table would accept every line they settle, so a pass never runs
  into the trigger with an anonymous error, and never halts a pool the trigger would let pass.
\<close>
theorem detector_mirrors_guard:
  "detect_closed_period_divergence p pending s = None \<longleftrightarrow>
    list_all (\<lambda>t. tl_id t \<in> set (map (dep_trx_line_id \<circ> pd_costing) pending) \<longrightarrow>
      period_guard s (tl_posted_at t) = Inr ()) (db_trx_line s)"
proof -
  let ?ids = "map (dep_trx_line_id \<circ> pd_costing) pending"
  have "frozen_lines s ?ids = [] \<longleftrightarrow> fst ` set (frozen_lines s ?ids) = {}" by simp
  then show ?thesis unfolding detect_None frozen_lines_ids list_all_iff by blast
qed

theorem detector_mirrors_guard_witness:
  "detect_closed_period_divergence 4 [recalc_pending] recalc_db = None \<and>
    detect_closed_period_divergence 4 [recalc_pending] closed_db \<noteq> None"
proof
  show "detect_closed_period_divergence 4 [recalc_pending] recalc_db = None"
    unfolding detector_mirrors_guard by code_simp
  show "detect_closed_period_divergence 4 [recalc_pending] closed_db \<noteq> None"
    unfolding detector_mirrors_guard by code_simp
qed

text \<open>
  The escalation row misreports its exemplar: for a pool in which nothing was ever settled and
  whose only depletion, in a closed period, re-folds to another cost than its provisional one, the
  pass records that the depletion had a settlement.
\<close>
theorem escalation_claims_settlement:
  "case run_claimed_pass (\<lambda>s. s) recalc_claim closed_db of
     Inl _ \<Rightarrow> False
   | Inr (out, s') \<Rightarrow> db_cost_settlement s' = [] \<and>
       map (\<lambda>e. (es_depletion e, es_frozen e, es_recomputed e, es_had_settlement e)) (db_escalation s') =
         [(2, 120, 98, True)]"
  by code_simp

end
