(* ===== verification/Close.thy ===== *)
theory Close
  imports Settlement
begin

text \<open>
  The period close, \<open>ledger-direct/src/close.rs\<close>: the gate over the pools active at or before the
  period's end, the drain and sweep of every pool in scope, the re-check under the fence, and the
  stamp that freezes the period.

  What the server's catalog says of the feed's replication slot when the gate is entered is the
  record \<open>FeedGate\<close>; \<open>mids\<close> is what other transactions commit during the passes of the drains, and
  \<open>between\<close> what they commit between the sweeps and before the fence. The advisory locks carry no data
  and are not modelled: the theorems on the close hold whatever \<open>mids\<close> and \<open>between\<close> do.
\<close>

section \<open>Data\<close>

definition MAX_RECHECK_ROUNDS :: nat where
  "MAX_RECHECK_ROUNDS = 64"

record GatePool =
  gp_pool_id :: i64
  gp_unsettled_events :: i64
  gp_unsettled_gross :: i64
  gp_floor_pending :: bool

definition lagging :: "GatePool \<Rightarrow> bool" where
  "lagging g \<longleftrightarrow> 0 < gp_unsettled_events g \<or> gp_floor_pending g"

record SweepResult =
  sw_pool_id :: i64
  sw_residue :: i64
  sw_posting :: "i64 option"
  sw_drain :: DrainStats

record FeedSlot =
  sl_lost :: bool
  sl_invalidation :: "string option"
  sl_confirmed :: "int option"

record FeedGate =
  fg_required :: "bool option"
  fg_slot :: "FeedSlot option"
  fg_lsn :: int
  fg_lag :: "i64 option"

datatype feed_reason = Slot_absent | Slot_invalidated string | Slot_no_cursor | Slot_behind int

record GateReport =
  gr_passed :: bool
  gr_scope :: nat
  gr_lagging :: "GatePool list"
  gr_gross :: i64
  gr_feed :: "feed_reason option"
  gr_halted :: "(i64 \<times> i64 option) list"
  gr_feed_lag :: "i64 option"

record CloseSummary =
  cs_forced :: bool
  cs_closed_at :: timestamp
  cs_closed_by :: string
  cs_pools :: nat
  cs_passes :: i64
  cs_settlements :: i64
  cs_adjustments :: i64
  cs_residues :: "SweepResult list"
  cs_residue_abs :: i64
  cs_rounds :: nat

datatype CloseReport =
    Already_closed "timestamp option" "string option"
  | Close_refused bool GateReport
  | Period_closed GateReport CloseSummary

datatype SettleReport = Settle_skipped PoolMethod | Settle_halted Escalation i64 | Settled DrainStats

section \<open>The gate\<close>

definition feed_currency :: "FeedGate \<Rightarrow> feed_reason option" where
  "feed_currency feed =
    (if fg_required feed = Some False then None
     else
       (case fg_slot feed of
          None \<Rightarrow> Some Slot_absent
        | Some slot \<Rightarrow>
            (case sl_invalidation slot of
               Some reason \<Rightarrow> Some (Slot_invalidated reason)
             | None \<Rightarrow>
                 if sl_lost slot then Some (Slot_invalidated ''wal_status=lost'')
                 else
                   (case sl_confirmed slot of
                      None \<Rightarrow> Some Slot_no_cursor
                    | Some confirmed \<Rightarrow>
                        if fg_lsn feed \<le> confirmed then None
                        else Some (Slot_behind (fg_lsn feed - confirmed))))))"

definition before_end :: "int \<Rightarrow> trx_line_row \<Rightarrow> bool" where
  "before_end e r \<longleftrightarrow> tl_posted_at r < day_start (e + 1)"

definition in_period_event_count :: "int \<Rightarrow> db \<Rightarrow> nat" where
  "in_period_event_count e s =
    length (filter (\<lambda>r. tl_line_type r \<noteq> cost_adjustment_line \<and> before_end e r \<and>
      (case pool_of s (tl_pool_id r) of None \<Rightarrow> False | Some p \<Rightarrow> strict_method (pl_method p))) (db_trx_line s))"

fun gross_value :: "trx_line_row list \<Rightarrow> pg_error + int" where
  "gross_value [] = Inr 0"
| "gross_value (r # rs) =
    and_then (to_bigint \<bar>tl_qty r\<bar>) (\<lambda>q.
    and_then (to_bigint (q * tl_unit_cost r)) (\<lambda>v.
    and_then (gross_value rs) (\<lambda>t. Inr (v + t))))"

definition gate_pool :: "int \<Rightarrow> db \<Rightarrow> i64 \<Rightarrow> pg_error + GatePool" where
  "gate_pool e s p =
    (let tail = filter (\<lambda>r. physical p r \<and> before_end e r \<and> after (settled_of s p) r) (db_trx_line s)
     in and_then (gross_value tail) (\<lambda>g.
        and_then (to_bigint g) (\<lambda>gross.
          Inr \<lparr>gp_pool_id = p, gp_unsettled_events = int (length tail), gp_unsettled_gross = gross,
            gp_floor_pending =
              (case floor_of s p of None \<Rightarrow> False | Some (at, _) \<Rightarrow> at < day_start (e + 1))\<rparr>)))"

fun collect :: "('a \<Rightarrow> pg_error + 'b) \<Rightarrow> 'a list \<Rightarrow> pg_error + 'b list" where
  "collect f [] = Inr []"
| "collect f (x # xs) = and_then (f x) (\<lambda>y. and_then (collect f xs) (\<lambda>ys. Inr (y # ys)))"

definition gate_scope :: "int \<Rightarrow> db \<Rightarrow> i64 list" where
  "gate_scope e s =
    map pl_id (sort_key pl_id (filter (\<lambda>p. strict_method (pl_method p) \<and>
      list_ex (\<lambda>r. physical (pl_id p) r \<and> before_end e r) (db_trx_line s)) (db_pool s)))"

definition gate_pools :: "int \<Rightarrow> db \<Rightarrow> pg_error + GatePool list" where
  "gate_pools e s = collect (gate_pool e s) (gate_scope e s)"

definition load_period :: "i64 \<Rightarrow> db \<Rightarrow> pg_error + period_row" where
  "load_period pid s =
    (case find (\<lambda>r. pe_id r = pid) (db_period s) of
       None \<Rightarrow> Inl (Raised ''42704'' ''ledger_close_period: accounting_period does not exist'')
     | Some r \<Rightarrow> Inr r)"

definition reject_out_of_order :: "period_row \<Rightarrow> db \<Rightarrow> pg_error + unit" where
  "reject_out_of_order period s =
    (if list_ex (\<lambda>r. pe_state r \<noteq> PeriodClosed \<and> pe_start r < pe_start period) (db_period s)
     then Inl (Raised ''55000'' ''ledger_close_period: an earlier accounting_period is still open'')
     else Inr ())"

definition advisory_key :: "i64 \<Rightarrow> pg_error + int" where
  "advisory_key pid =
    (if - (2 ^ 31) \<le> pid \<and> pid < 2 ^ 31 then Inr pid
     else Inl (Raised ''22003'' ''ledger_close_period: period id exceeds the advisory int4 keyspace''))"

section \<open>The state of a period\<close>

definition period_transition :: "period_state \<Rightarrow> period_state \<Rightarrow> bool" where
  "period_transition old new \<longleftrightarrow>
    (old = PeriodOpen \<and> new = PeriodClosing) \<or> (old = PeriodOpen \<and> new = PeriodClosed) \<or>
    (old = PeriodClosing \<and> new = PeriodClosed)"

text \<open>An update of the rows that satisfy \<open>sel\<close>, each through the transition trigger.\<close>

fun update_periods ::
  "(period_row \<Rightarrow> bool) \<Rightarrow> (period_row \<Rightarrow> period_row) \<Rightarrow> period_row list \<Rightarrow> pg_error + period_row list" where
  "update_periods sel f [] = Inr []"
| "update_periods sel f (r # rs) =
    and_then (if \<not> sel r then Inr r
              else if period_transition (pe_state r) (pe_state (f r)) then Inr (f r)
              else Inl (Raised ''55000'' ''PeriodClosed: accounting_period may not transition'')) (\<lambda>r'.
    and_then (update_periods sel f rs) (\<lambda>rs'. Inr (r' # rs')))"

definition mark_closing :: "i64 \<Rightarrow> unit tx" where
  "mark_closing pid s =
    and_then (update_periods (\<lambda>r. pe_id r = pid \<and> pe_state r = PeriodOpen)
      (\<lambda>r. r\<lparr>pe_state := PeriodClosing\<rparr>) (db_period s)) (\<lambda>rows. Inr ((), s\<lparr>db_period := rows\<rparr>))"

definition stamp_closed :: "i64 \<Rightarrow> string \<Rightarrow> timestamp tx" where
  "stamp_closed pid actor s =
    (let sel = (\<lambda>r. pe_id r = pid \<and> (pe_state r = PeriodOpen \<or> pe_state r = PeriodClosing)) in
     if \<not> list_ex sel (db_period s)
     then Inl (Raised ''XX000'' ''ledger_close_period: state changed underneath the closer mutex'')
     else
       and_then (update_periods sel
         (\<lambda>r. r\<lparr>pe_state := PeriodClosed, pe_closed_at := Some (db_now s), pe_closed_by := Some actor\<rparr>)
         (db_period s)) (\<lambda>rows. Inr (db_now s, s\<lparr>db_period := rows\<rparr>)))"

section \<open>The sweep\<close>

definition lock_aggregate :: "i64 \<Rightarrow> bool tx" where
  "lock_aggregate p s = Inr (state_of s p 0 \<noteq> None, s)"

definition open_value :: "i64 \<Rightarrow> db \<Rightarrow> int" where
  "open_value p s = sum_list (map st_value_sum (filter (open_layer_of p) (db_pool_state s)))"

definition apply_residue :: "i64 \<Rightarrow> i64 tx" where
  "apply_residue p s =
    and_then (to_bigint (open_value p s)) (\<lambda>v.
    case state_of s p 0 of
      None \<Rightarrow> Inr (0, s)
    | Some agg \<Rightarrow>
        if st_value_sum agg = v then Inr (0, s)
        else
          and_then (if st_qty agg > 0 then sql_banker_div (db_quot s) v (st_qty agg)
                    else Inr (st_unit_cost agg)) (\<lambda>c.
          and_then (to_bigint (st_value_sum agg - v)) (\<lambda>residue.
            Inr (residue, put_state (agg\<lparr>st_value_sum := v, st_unit_cost := c\<rparr>) s))))"

definition residue_line :: "i64 \<Rightarrow> i64 \<Rightarrow> timestamp \<Rightarrow> trx_line_row" where
  "residue_line p trx_id now =
    \<lparr>tl_id = 0, tl_trx_id = trx_id, tl_pool_id = p, tl_line_type = cost_adjustment_line,
      tl_source_id = None, tl_qty = 0, tl_unit_cost = 0, tl_source_trx_line_id = None, tl_posted_at = now\<rparr>"

definition residue_posting :: "i64 \<Rightarrow> i64 \<Rightarrow> i64 \<Rightarrow> i64 \<Rightarrow> i64 \<Rightarrow> timestamp \<Rightarrow> posting_row" where
  "residue_posting line amount inventory variance residue now =
    \<lparr>po_id = 0, po_trx_line_id = line, po_event_type = ''cost_adjustment'', po_amount = amount,
      po_debit_account = (if residue > 0 then variance else inventory),
      po_credit_account = (if residue > 0 then inventory else variance), po_posted_at = now\<rparr>"

definition post_residue_gl :: "i64 \<Rightarrow> i64 \<Rightarrow> i64 option \<Rightarrow> (i64 \<times> i64 option) tx" where
  "post_residue_gl p residue adjustment_trx =
    tx_bind (resolve_accounts p) (\<lambda>accounts.
    case variance_acct accounts of
      None \<Rightarrow> tx_fail (raise_ledger_error (MissingVarianceAccount p))
    | Some variance \<Rightarrow>
        (case checked_abs residue of
           None \<Rightarrow> tx_fail (Raised ''22003'' ''ledger_close_period: residue overflows bigint'')
         | Some amount \<Rightarrow>
             tx_bind (case adjustment_trx of Some i \<Rightarrow> tx_return i | None \<Rightarrow> insert_adjustment_trx) (\<lambda>trx_id.
             tx_bind (\<lambda>s. insert_line (residue_line p trx_id (db_now s)) s) (\<lambda>line.
             tx_bind (\<lambda>s. insert_posting (residue_posting line amount (fst (receipt_pair accounts)) variance
                residue (db_now s)) s) (\<lambda>posting.
             tx_return (posting, Some trx_id))))))"

definition sweep_pool ::
  "(nat \<Rightarrow> db \<Rightarrow> db) \<Rightarrow> i64 \<Rightarrow> i64 option \<Rightarrow> (SweepResult \<times> i64 option) tx" where
  "sweep_pool mids p adjustment_trx =
    tx_bind (claim_pool p) (\<lambda>claim.
    if \<not> strict_method (cl_method claim)
    then tx_fail (Raised ''XX000'' ''ledger_close_period: sweep reached non-strict pool'')
    else
      tx_bind (lock_aggregate p) (\<lambda>has_aggregate.
      tx_bind (drain_pool_to_head mids p) (\<lambda>outcome.
      case outcome of
        NonStrict _ \<Rightarrow> tx_fail (Rust_panic ''unreachable'')
      | Drained drain \<Rightarrow>
          if dr_escalated drain \<noteq> None
          then tx_fail (Raised ''55000'' ''RecalcHalted: close aborted'')
          else if \<not> has_aggregate
          then tx_return (\<lparr>sw_pool_id = p, sw_residue = 0, sw_posting = None, sw_drain = drain\<rparr>, adjustment_trx)
          else
            tx_bind (apply_residue p) (\<lambda>residue.
            if residue = 0
            then tx_return (\<lparr>sw_pool_id = p, sw_residue = 0, sw_posting = None, sw_drain = drain\<rparr>, adjustment_trx)
            else tx_bind (post_residue_gl p residue adjustment_trx) (\<lambda>(posting, trx').
              tx_return (\<lparr>sw_pool_id = p, sw_residue = residue, sw_posting = Some posting, sw_drain = drain\<rparr>,
                trx'))))))"

definition merge_sweep :: "SweepResult \<Rightarrow> SweepResult \<Rightarrow> SweepResult" where
  "merge_sweep prior result =
    prior\<lparr>sw_residue := wrap_i64 (sw_residue prior + sw_residue result),
      sw_posting := (if sw_posting result \<noteq> None then sw_posting result else sw_posting prior),
      sw_drain := (sw_drain prior)\<lparr>dr_passes := dr_passes (sw_drain prior) + dr_passes (sw_drain result),
        dr_settlements := dr_settlements (sw_drain prior) + dr_settlements (sw_drain result),
        dr_adjustments := dr_adjustments (sw_drain prior) + dr_adjustments (sw_drain result),
        dr_generation := dr_generation (sw_drain result)\<rparr>\<rparr>"

fun absorb_sweep :: "SweepResult list \<Rightarrow> SweepResult \<Rightarrow> SweepResult list" where
  "absorb_sweep [] result = [result]"
| "absorb_sweep (x # swept) result =
    (if sw_pool_id x = sw_pool_id result then merge_sweep x result # swept else x # absorb_sweep swept result)"

text \<open>The sweeps of one close are numbered; \<open>between k\<close> is what is committed before the \<open>k\<close>-th of
  them and \<open>mids k\<close> what is committed during its passes.\<close>

fun sweep_pools ::
  "(nat \<Rightarrow> nat \<Rightarrow> db \<Rightarrow> db) \<Rightarrow> (nat \<Rightarrow> db \<Rightarrow> db) \<Rightarrow> (SweepResult list \<Rightarrow> SweepResult \<Rightarrow> SweepResult list) \<Rightarrow>
    nat \<Rightarrow> i64 list \<Rightarrow> i64 option \<Rightarrow> SweepResult list \<Rightarrow> (i64 option \<times> SweepResult list) tx" where
  "sweep_pools mids between add k [] trx swept = tx_return (trx, swept)"
| "sweep_pools mids between add k (p # ps) trx swept =
    tx_bind (\<lambda>s. sweep_pool (mids k) p trx (between k s)) (\<lambda>(result, trx').
    sweep_pools mids between add (k + 1) ps trx' (add swept result))"

definition stragglers :: "int \<Rightarrow> SweepResult list \<Rightarrow> db \<Rightarrow> pg_error + i64 list" where
  "stragglers e swept s =
    and_then (gate_pools e s) (\<lambda>gate.
      Inr (map gp_pool_id (filter (\<lambda>g. lagging g \<or> \<not> list_ex (\<lambda>x. sw_pool_id x = gp_pool_id g) swept) gate)))"

fun recheck_loop ::
  "(nat \<Rightarrow> nat \<Rightarrow> db \<Rightarrow> db) \<Rightarrow> (nat \<Rightarrow> db \<Rightarrow> db) \<Rightarrow> int \<Rightarrow> nat \<Rightarrow> nat \<Rightarrow> i64 option \<Rightarrow> SweepResult list \<Rightarrow>
    nat \<Rightarrow> (SweepResult list \<times> nat) tx" where
  "recheck_loop mids between e fuel k trx swept rounds =
    tx_bind (\<lambda>s. tx_lift (stragglers e swept s) s) (\<lambda>ps.
    if ps = [] then tx_return (swept, rounds)
    else
      (case fuel of
         0 \<Rightarrow> tx_fail (Raised ''XX000'' ''ledger_close_period: gate did not quiesce'')
       | Suc fuel' \<Rightarrow>
           tx_bind (sweep_pools mids between absorb_sweep k ps trx swept) (\<lambda>(trx', swept').
           recheck_loop mids between e fuel' (k + length ps) trx' swept' (rounds + 1))))"

declare recheck_loop.simps [simp del]

section \<open>The close\<close>

definition halted_in_scope :: "GatePool list \<Rightarrow> db \<Rightarrow> (i64 \<times> i64 option) list" where
  "halted_in_scope gate s = filter (\<lambda>(p, _). list_ex (\<lambda>g. gp_pool_id g = p) gate) (escalated_pools s)"

definition gate_report :: "FeedGate \<Rightarrow> GatePool list \<Rightarrow> db \<Rightarrow> GateReport" where
  "gate_report feed gate s =
    (let lag = filter lagging gate; halted = halted_in_scope gate s; feed_state = feed_currency feed in
     \<lparr>gr_passed = (lag = [] \<and> feed_state = None \<and> halted = []), gr_scope = length gate,
       gr_lagging = lag, gr_gross = wrap_i64 (sum_list (map gp_unsettled_gross lag)),
       gr_feed = feed_state, gr_halted = halted, gr_feed_lag = fg_lag feed\<rparr>)"

definition refused :: "bool \<Rightarrow> GateReport \<Rightarrow> bool" where
  "refused force gate \<longleftrightarrow> gr_halted gate \<noteq> [] \<or> gr_feed gate \<noteq> None \<or> (\<not> gr_passed gate \<and> \<not> force)"

definition fence_recount :: "int \<Rightarrow> nat \<Rightarrow> unit tx" where
  "fence_recount e events_at_gate s =
    (if in_period_event_count e s \<noteq> events_at_gate
     then Inl (Raised ''55000'' ''ledger_close_period: physical event(s) landed during the close'')
     else Inr ((), s))"

definition close_summary ::
  "bool \<Rightarrow> GateReport \<Rightarrow> string \<Rightarrow> timestamp \<Rightarrow> SweepResult list \<Rightarrow> nat \<Rightarrow> CloseSummary" where
  "close_summary force gate actor closed_at swept rounds =
    \<lparr>cs_forced = (force \<and> \<not> gr_passed gate), cs_closed_at = closed_at, cs_closed_by = actor,
      cs_pools = length swept,
      cs_passes = sum_list (map (dr_passes \<circ> sw_drain) swept),
      cs_settlements = sum_list (map (dr_settlements \<circ> sw_drain) swept),
      cs_adjustments = sum_list (map (dr_adjustments \<circ> sw_drain) swept),
      cs_residues = filter (\<lambda>x. sw_residue x \<noteq> 0) swept,
      cs_residue_abs = wrap_i64 (sum_list (map (\<lambda>x. \<bar>sw_residue x\<bar>) swept)),
      cs_rounds = rounds\<rparr>"

definition finish_close ::
  "(nat \<Rightarrow> nat \<Rightarrow> db \<Rightarrow> db) \<Rightarrow> (nat \<Rightarrow> db \<Rightarrow> db) \<Rightarrow> period_row \<Rightarrow> string \<Rightarrow> bool \<Rightarrow> i64 list \<Rightarrow> nat \<Rightarrow>
    GateReport \<Rightarrow> CloseReport tx" where
  "finish_close mids between period actor force scope events_at_gate gate =
    tx_bind (sweep_pools mids between (\<lambda>swept result. swept @ [result]) 0 scope None []) (\<lambda>(trx, swept).
    tx_bind (\<lambda>s. recheck_loop mids between (pe_last period) MAX_RECHECK_ROUNDS (length scope + 1) trx swept 0
        (between (length scope) s)) (\<lambda>(swept', rounds).
    tx_bind (fence_recount (pe_last period) events_at_gate) (\<lambda>_.
    tx_bind (stamp_closed (pe_id period) actor) (\<lambda>closed_at.
    tx_return (Period_closed gate (close_summary force gate actor closed_at swept' rounds))))))"

definition ledger_close_period ::
  "FeedGate \<Rightarrow> (nat \<Rightarrow> nat \<Rightarrow> db \<Rightarrow> db) \<Rightarrow> (nat \<Rightarrow> db \<Rightarrow> db) \<Rightarrow> i64 \<Rightarrow> string \<Rightarrow> bool \<Rightarrow> CloseReport tx" where
  "ledger_close_period feed mids between pid actor force s =
    and_then (advisory_key pid) (\<lambda>_.
    and_then (load_period pid s) (\<lambda>period.
    if pe_state period = PeriodClosed
    then Inr (Already_closed (pe_closed_at period) (pe_closed_by period), s)
    else
      and_then (reject_out_of_order period s) (\<lambda>_.
      let events_at_gate = in_period_event_count (pe_last period) s in
      and_then (gate_pools (pe_last period) s) (\<lambda>pools.
      let gate = gate_report feed pools s in
      if refused force gate
      then tx_bind (mark_closing pid) (\<lambda>_. tx_return (Close_refused force gate)) s
      else finish_close mids between period actor force (map gp_pool_id pools) events_at_gate gate s))))"

definition ledger_settle_pool :: "(nat \<Rightarrow> db \<Rightarrow> db) \<Rightarrow> i64 \<Rightarrow> SettleReport tx" where
  "ledger_settle_pool mids p =
    tx_bind (drain_pool_to_head mids p) (\<lambda>outcome.
    tx_return (case outcome of
        NonStrict m \<Rightarrow> Settle_skipped m
      | Drained st \<Rightarrow>
          (case dr_escalated st of Some e \<Rightarrow> Settle_halted e (dr_passes st) | None \<Rightarrow> Settled st)))"

section \<open>The effect of a sweep\<close>

lemma adjusted_arrivals:
  assumes adj: "adjustments_added s s'" and ls: "lines_sound p s"
    and same: "filter (open_layer_of p) (db_pool_state s') = filter (open_layer_of p) (db_pool_state s)"
      "db_cost_settlement s' = db_cost_settlement s" "db_settlement s' = db_settlement s" "db_pool s' = db_pool s"
  shows "arrivals p s s'"
proof -
  obtain new where new: "db_trx_line s' = db_trx_line s @ new" "list_all (\<lambda>r. \<not> physical p r) new" "lines_sound p s'"
    by (rule adjustments_lines[OF adj ls]) (rule that)
  then have "list_all (\<lambda>r. physical p r \<longrightarrow> after (settled_of s p) r \<or> floor_of s' p \<noteq> None) new"
    by (auto simp: list_all_iff)
  then show ?thesis
    using new same settled_cong[OF same(3), of p] unfolding arrivals_def by (auto simp: pool_of_def)
qed

lemma apply_residue_ok:
  assumes "apply_residue p s = Inr (residue, s')" "state_of s p 0 = Some agg"
  obtains r where "s' = s \<or> s' = put_state r s" "st_key r = (p, 0)"
    "state_of s' p 0 = Some r" "st_qty r = st_qty agg"
    "st_value_sum r = open_value p s" "residue = st_value_sum agg - open_value p s"
proof -
  have k: "st_key agg = (p, 0)" using assms(2) by (auto simp: state_of_def dest: find_key_Some)
  show thesis
  proof (cases "st_value_sum agg = open_value p s")
    case True
    then show ?thesis using assms k by (intro that[of agg]) (auto simp: apply_residue_def and_then_Inr)
  next
    case False
    then obtain c where "s' = put_state (agg\<lparr>st_value_sum := open_value p s, st_unit_cost := c\<rparr>) s"
      "residue = st_value_sum agg - open_value p s"
      using assms by (auto simp: apply_residue_def and_then_Inr)
    then show ?thesis
      using k by (intro that[of "agg\<lparr>st_value_sum := open_value p s, st_unit_cost := c\<rparr>"]) (auto simp: st_key_def)
  qed
qed

lemma post_residue_gl_ok:
  assumes "post_residue_gl p residue trx s = Inr ((posting, trx'), s')"
  obtains r accounts variance where "pool_of s p = Some r"
    "db_accounts s (pl_sku_id r, pl_location_id r) = Some accounts" "variance_acct accounts = Some variance"
    "db_posting s' = db_posting s @ [(residue_posting (db_next_line s) \<bar>residue\<bar> (fst (receipt_pair accounts))
      variance residue (db_now s))\<lparr>po_id := db_next_posting s\<rparr>]"
    "adjustments_added s s'" "db_pool_state s' = db_pool_state s" "db_cost_settlement s' = db_cost_settlement s"
    "db_settlement s' = db_settlement s" "db_pool s' = db_pool s" "db_accounts s' = db_accounts s"
proof -
  obtain accounts variance trx_id s1 where a: "resolve_accounts p s = Inr (accounts, s)"
    "variance_acct accounts = Some variance" "checked_abs residue = Some \<bar>residue\<bar>"
    and tr: "(case trx of Some i \<Rightarrow> tx_return i | None \<Rightarrow> insert_adjustment_trx) s = Inr (trx_id, s1)"
    and s': "s' = s1\<lparr>db_trx_line := db_trx_line s1 @ [(residue_line p trx_id (db_now s1))\<lparr>tl_id := db_next_line s1\<rparr>],
        db_next_line := db_next_line s1 + 1,
        db_posting := db_posting s1 @ [(residue_posting (db_next_line s1) \<bar>residue\<bar> (fst (receipt_pair accounts))
          variance residue (db_now s1))\<lparr>po_id := db_next_posting s1\<rparr>],
        db_next_posting := db_next_posting s1 + 1\<rparr>"
    using assms
    by (auto simp: post_residue_gl_def tx_bind_Inr resolve_accounts_def checked_abs_def insert_posting_def
        split: option.splits if_splits dest!: insert_line_adds)
  have s1: "s1 = s\<lparr>db_trx := db_trx s1, db_next_trx := db_next_trx s1, db_next_adjustment := db_next_adjustment s1\<rparr>"
    using tr by (auto simp: insert_adjustment_trx_def insert_trx_def split: option.splits if_splits)
  have f: "db_trx_line s1 = db_trx_line s" "db_next_line s1 = db_next_line s" "db_posting s1 = db_posting s"
    "db_next_posting s1 = db_next_posting s" "db_now s1 = db_now s" "db_pool_state s1 = db_pool_state s"
    "db_cost_settlement s1 = db_cost_settlement s" "db_settlement s1 = db_settlement s" "db_pool s1 = db_pool s"
    "db_accounts s1 = db_accounts s"
    by (subst s1; simp)+
  obtain r where r: "pool_of s p = Some r" "db_accounts s (pl_sku_id r, pl_location_id r) = Some accounts"
    using a(1) by (auto simp: resolve_accounts_def split: option.splits)
  show thesis
    by (rule that[OF r a(2)]) (auto simp: s' f adjustments_added_def residue_line_def)
qed

lemma residue_posting_net:
  assumes "db_posting s' = db_posting s @ [(residue_posting line \<bar>residue\<bar> acct variance residue now)\<lparr>po_id := i\<rparr>]"
    "variance \<noteq> acct"
  shows "gl_net acct s' = gl_net acct s - residue"
  using assms(2) by (simp add: gl_net_def assms(1) residue_posting_def)

lemma open_rows_put_aggregate:
  assumes "st_key r = (p, 0)"
  shows "filter (open_layer_of q) (db_pool_state (put_state r s)) = filter (open_layer_of q) (db_pool_state s)"
  unfolding put_state_def
  by (simp, rule filter_put_key_other) (use assms in \<open>auto simp: st_key_def open_layer_of_def\<close>)

text \<open>The residue and its posting: the aggregate becomes the value of the open layers, the inventory
  account moves with it, and to the pool it is as if another transaction had committed a line.\<close>

lemma residue_step_ok:
  assumes r: "apply_residue p s2 = Inr (residue, s3)" and a2: "state_of s2 p 0 = Some agg2"
    and sound: "lines_sound p s2" and agg: "state_of s' p 0 = Some agg"
    and fin: "residue = 0 \<and> s' = s3 \<or> residue \<noteq> 0 \<and> (\<exists>posting t. post_residue_gl p residue trx s3 = Inr ((posting, t), s'))"
  shows "st_value_sum agg = open_value p s2" "residue = st_value_sum agg2 - st_value_sum agg"
    "arrivals p s2 s'" "stream p s' = stream p s2"
    "pool_of s' p = Some r \<Longrightarrow> db_accounts s' (pl_sku_id r, pl_location_id r) = Some a \<Longrightarrow>
      inventory_account a acct \<Longrightarrow> variance_acct a \<noteq> Some acct \<Longrightarrow> gl_net acct s' = gl_net acct s2 - residue"
proof -
  obtain row where row: "s3 = s2 \<or> s3 = put_state row s2" "st_key row = (p, 0)" "state_of s3 p 0 = Some row"
    "st_value_sum row = open_value p s2" "residue = st_value_sum agg2 - open_value p s2"
    by (rule apply_residue_ok[OF r a2]) (rule that)
  have s3: "db_trx_line s3 = db_trx_line s2" "db_next_line s3 = db_next_line s2" "db_posting s3 = db_posting s2"
    "db_cost_settlement s3 = db_cost_settlement s2" "db_settlement s3 = db_settlement s2" "db_pool s3 = db_pool s2"
    "filter (open_layer_of p) (db_pool_state s3) = filter (open_layer_of p) (db_pool_state s2)"
    using row(1) open_rows_put_aggregate[OF row(2)] by (auto simp: put_state_def)
  have gl3: "gl_net x s3 = gl_net x s2" for x by (simp add: gl_net_def s3(3))
  have "(residue = 0 \<and> s' = s3) \<or> (\<exists>r0 accounts variance. residue \<noteq> 0 \<and> pool_of s3 p = Some r0 \<and>
      db_accounts s3 (pl_sku_id r0, pl_location_id r0) = Some accounts \<and> variance_acct accounts = Some variance \<and>
      db_posting s' = db_posting s3 @ [(residue_posting (db_next_line s3) \<bar>residue\<bar>
        (fst (receipt_pair accounts)) variance residue (db_now s3))\<lparr>po_id := db_next_posting s3\<rparr>] \<and>
      db_accounts s' = db_accounts s3) \<and> adjustments_added s3 s' \<and> db_pool_state s' = db_pool_state s3 \<and>
      db_cost_settlement s' = db_cost_settlement s3 \<and> db_settlement s' = db_settlement s3 \<and> db_pool s' = db_pool s3"
    using fin by (auto elim!: post_residue_gl_ok)
  then have fr: "adjustments_added s3 s'" "db_pool_state s' = db_pool_state s3"
      "db_cost_settlement s' = db_cost_settlement s3" "db_settlement s' = db_settlement s3" "db_pool s' = db_pool s3"
    and post: "(residue = 0 \<and> s' = s3) \<or> (\<exists>r0 accounts variance. pool_of s3 p = Some r0 \<and>
      db_accounts s3 (pl_sku_id r0, pl_location_id r0) = Some accounts \<and> variance_acct accounts = Some variance \<and>
      db_posting s' = db_posting s3 @ [(residue_posting (db_next_line s3) \<bar>residue\<bar>
        (fst (receipt_pair accounts)) variance residue (db_now s3))\<lparr>po_id := db_next_posting s3\<rparr>] \<and>
      db_accounts s' = db_accounts s3)"
    by (auto intro: adjustments_added_refl)
  have adj: "adjustments_added s2 s'" using fr(1) s3 by (simp add: adjustments_added_def)
  have "agg = row" using agg row(3) fr(2) by (simp add: state_of_def)
  then show "st_value_sum agg = open_value p s2" "residue = st_value_sum agg2 - st_value_sum agg"
    using row(4,5) by simp_all
  show "arrivals p s2 s'" by (rule adjusted_arrivals[OF adj sound]) (use s3 fr in simp_all)
  show "stream p s' = stream p s2" by (rule adjustments_lines[OF adj sound]) (rule stream_cong)
  assume ac: "pool_of s' p = Some r" "db_accounts s' (pl_sku_id r, pl_location_id r) = Some a"
    "inventory_account a acct" "variance_acct a \<noteq> Some acct"
  have "fst (receipt_pair a) = acct" using ac(3) unfolding inventory_account_def by (metis pair_for.simps(1))
  then show "gl_net acct s' = gl_net acct s2 - residue"
    using post ac fr(5) gl3 residue_posting_net[of s' s3] by (auto simp: pool_of_def)
qed

lemma sweep_pool_ok:
  assumes st: "settles nf p s" and mids: "\<And>i. interference p (mids i)"
    and run: "sweep_pool mids p trx s = Inr ((result, trx'), s')"
    and agg: "state_of s p 0 \<noteq> None" "state_of s' p 0 = Some agg"
  obtains drain s2 agg2 where
    "drain_pool_to_head mids p (ensure_queued p s) = Inr (Drained drain, s2)" "dr_escalated drain = None"
    "sw_drain result = drain" "settles nf p s2" "holds p (strict_fold nf [] (stream p s2)) s2"
    "state_of s2 p 0 = Some agg2" "st_value_sum agg = open_value p s2"
    "sw_residue result = st_value_sum agg2 - st_value_sum agg" "arrivals p s2 s'" "stream p s' = stream p s2"
    "\<And>r a acct. pool_of s' p = Some r \<Longrightarrow> db_accounts s' (pl_sku_id r, pl_location_id r) = Some a \<Longrightarrow>
      inventory_account a acct \<Longrightarrow> variance_acct a \<noteq> Some acct \<Longrightarrow>
      gl_net acct s' = gl_net acct s2 - sw_residue result"
proof -
  obtain claim s1 where cl: "claim_pool p s = Inr (claim, s1)" using run by (auto simp: sweep_pool_def tx_bind_Inr)
  note c = claim_pool_ok[OF cl st]
  have s1: "s1 = ensure_queued p s"
    using cl by (auto simp: claim_pool_def read_claim_def split: if_splits option.splits)
  have has: "lock_aggregate p s1 = Inr (True, s1)"
    using agg(1) c(3) unfolding lock_aggregate_def same_books_def state_of_def by simp
  obtain outcome s2 where d: "drain_pool_to_head mids p s1 = Inr (outcome, s2)"
    using run cl has c(5) by (auto simp: sweep_pool_def tx_bind_Inr)
  obtain drain where o: "outcome = Drained drain" "dr_escalated drain = None"
    using run cl has c(5) d by (cases outcome) (auto simp: sweep_pool_def split: if_splits)
  note ex = drain_loop_exact[OF c(2) mids d[unfolded o drain_pool_to_head_def] o(2)]
  obtain residue s3 where r: "apply_residue p s2 = Inr (residue, s3)"
    using run cl has c(5) d o by (auto simp: sweep_pool_def tx_bind_Inr)
  have fin: "residue = 0 \<and> s' = s3 \<or> residue \<noteq> 0 \<and> (\<exists>posting t. post_residue_gl p residue trx s3 = Inr ((posting, t), s'))"
    and res: "sw_residue result = residue" "sw_drain result = drain"
    using run cl has c(5) d o r by (auto simp: sweep_pool_def tx_bind_Inr split: if_splits)
  have sound: "lines_sound p s2" using ex by (simp add: settles_def pool_sound_def books_sound_def)
  have "state_of s2 p 0 \<noteq> None"
  proof
    assume none: "state_of s2 p 0 = None"
    then have "residue = 0" "s3 = s2" using r by (auto simp: apply_residue_def and_then_Inr)
    then show False using fin none agg(2) by simp
  qed
  then obtain agg2 where a2: "state_of s2 p 0 = Some agg2" by blast
  note rs = residue_step_ok[OF r a2 sound agg(2) fin]
  show thesis
    by (rule that[of drain s2 agg2, OF d[unfolded o s1] o(2) res(2)]) (use ex a2 rs res(1) in auto)
qed

section \<open>Accounting periods through a close\<close>

text \<open>Another transaction may add periods while a close runs; it does not touch those there are.\<close>

definition keeps_periods :: "(db \<Rightarrow> db) \<Rightarrow> bool" where
  "keeps_periods f \<longleftrightarrow> (\<forall>s. set (db_period s) \<subseteq> set (db_period (f s)))"

lemma decide_queue_periods:
  "decide_queue p from f ids pending s = (b, s') \<Longrightarrow> db_period s' = db_period s"
  by (auto simp: decide_queue_def Let_def note_missed_def lower_floor_def reset_backlog_def
      restamp_queue_row_def consume_queue_row_def split: if_splits option.splits)

lemma pass_periods:
  assumes "keeps_periods mid" "run_claimed_pass mid claim s = Inr (out, s')"
  shows "set (db_period s) \<subseteq> set (db_period s')"
proof (cases "pass_escalated out = None")
  case True
  from assms(2) True show ?thesis
  proof (rule run_claimed_pass_ok)
    fix fo :: StrictFoldOutput and pending generation n s1 u s2 v s3
    assume w: "(if pending \<noteq> [] then write_generation (cl_pool_id claim) generation pending else tx_return 0) s = Inr (n, s1)"
      and m: "(if pass_scan claim s \<noteq> [] then materialize_layers (cl_pool_id claim) (fold_layers fo) else tx_return ()) s1
      = Inr (u, s2)"
      and r: "(if sum_list (map pd_delta pending) \<noteq> 0
      then reconcile_aggregate_value (cl_pool_id claim) (sum_list (map pd_delta pending)) else tx_return ()) s2 = Inr (v, s3)"
      and f: "finish_pass mid claim (pass_scan claim s) pending generation n s3 = Inr (out, s')"
    have 1: "db_period s1 = db_period s"
      using w by (auto simp: written_def engine_frame_def split: if_splits dest!: write_generation_written)
    have 2: "db_period s2 = db_period s1"
      using m by (auto split: if_splits dest!: materialize_layers_ok)
    have 3: "db_period s3 = db_period s2"
      using r by (auto split: if_splits elim!: reconcile_aggregate_ok)
    have 4: "set (db_period s3) \<subseteq> set (db_period (mid s3))" using assms(1) by (simp add: keeps_periods_def)
    have "db_period s' = db_period (mid s3)"
    proof (cases "new_frontier claim (pass_scan claim s)")
      case None
      then show ?thesis by (rule_tac finish_pass_none[OF f None]) (rule decide_queue_periods)
    next
      case (Some fr)
      obtain s4 fp b where st: "settle claim generation fr (mid s3) = Inr (fp, s4)"
        and dq: "decide_queue (cl_pool_id claim) (scan_from claim) (Some fr) (map sc_id (pass_scan claim s)) fp s4 = (b, s')"
        by (rule finish_pass_ok[OF f Some]) (rule that)
      have "s4 = (mid s3)\<lparr>db_settlement := db_settlement s4\<rparr>" by (rule settle_ok[OF st])
      from arg_cong[OF this, of db_period] show ?thesis using decide_queue_periods[OF dq] by simp
    qed
    then show ?thesis using 1 2 3 4 by simp
  qed
next
  case False
  then show ?thesis
    using assms(2)
    by (auto simp: run_claimed_pass_def finish_pass_def Let_def tx_bind_Inr record_escalation_def
        split: option.splits sum.splits if_splits)
qed

lemma drain_periods:
  assumes "\<And>i. keeps_periods (mids i)" "drain_loop mids n p st s = Inr (out, s')"
  shows "set (db_period s) \<subseteq> set (db_period s')"
  using assms(2)
proof (induction n arbitrary: s st)
  case (Suc n)
  obtain claim s1 where cl: "claim_pool p s = Inr (claim, s1)" using Suc.prems by (auto simp: tx_bind_Inr)
  have s1: "db_period s1 = db_period s"
    using cl by (auto simp: claim_pool_def read_claim_def ensure_queued_def split: if_splits option.splits)
  show ?case
  proof (cases "strict_method (cl_method claim)")
    case True
    then obtain o1 s2 where run: "run_claimed_pass (mids n) claim s1 = Inr (o1, s2)"
      using Suc.prems cl by (auto simp: tx_bind_Inr)
    have 2: "set (db_period s1) \<subseteq> set (db_period s2)" by (rule pass_periods[OF assms(1) run])
    have "s' = s2 \<or> (\<exists>st1. drain_loop mids n p st1 s2 = Inr (out, s'))"
      using Suc.prems cl run True by (auto simp: Let_def split: if_splits)
    then show ?thesis using 2 s1 Suc.IH by fastforce
  next
    case False
    then show ?thesis using Suc.prems cl s1 by (auto simp: tx_bind_Inr drop_queue_row_def consume_queue_row_def)
  qed
qed simp

lemma apply_residue_periods: "apply_residue p s = Inr (residue, s') \<Longrightarrow> db_period s' = db_period s"
  by (auto simp: apply_residue_def and_then_Inr split: option.splits if_splits)

lemma post_residue_periods:
  assumes "post_residue_gl p residue trx s = Inr (x, s')"
  shows "db_period s' = db_period s"
proof -
  have "db_period s2 = db_period s1" if "insert_adjustment_trx s1 = Inr (i, s2)" for i s1 s2
    using that by (auto simp: insert_adjustment_trx_def insert_trx_def split: if_splits)
  then show ?thesis
    using assms
    by (auto simp: post_residue_gl_def tx_bind_Inr resolve_accounts_def insert_posting_def
        split: option.splits if_splits dest!: insert_line_adds)
qed

lemma sweep_periods:
  assumes "\<And>i. keeps_periods (mids i)" "sweep_pool mids p trx s = Inr (out, s')"
  shows "set (db_period s) \<subseteq> set (db_period s')"
proof -
  obtain claim s1 where cl: "claim_pool p s = Inr (claim, s1)" using assms(2) by (auto simp: sweep_pool_def tx_bind_Inr)
  have strict: "strict_method (cl_method claim)" using assms(2) cl by (auto simp: sweep_pool_def split: if_splits)
  have lock: "lock_aggregate p s1 = Inr (state_of s1 p 0 \<noteq> None, s1)" by (simp add: lock_aggregate_def)
  obtain outcome s2 where d: "drain_pool_to_head mids p s1 = Inr (outcome, s2)"
    using assms(2) cl strict lock by (auto simp: sweep_pool_def tx_bind_Inr)
  obtain drain where o: "outcome = Drained drain"
    using assms(2) cl strict lock d by (cases outcome) (auto simp: sweep_pool_def)
  have "db_period s' = db_period s2"
    using assms(2) cl strict lock d o
    by (auto simp: sweep_pool_def tx_bind_Inr split: if_splits dest!: apply_residue_periods post_residue_periods)
  moreover have "db_period s1 = db_period s"
    using cl by (auto simp: claim_pool_def read_claim_def ensure_queued_def split: if_splits option.splits)
  ultimately show ?thesis using drain_periods[OF assms(1) d[unfolded drain_pool_to_head_def]] by simp
qed

lemma sweep_pools_periods:
  assumes "\<And>k i. keeps_periods (mids k i)" "\<And>k. keeps_periods (between k)"
    "sweep_pools mids between add k ps trx swept s = Inr (out, s')"
  shows "set (db_period s) \<subseteq> set (db_period s')"
  using assms(3)
proof (induction ps arbitrary: k trx swept s)
  case (Cons p ps)
  then obtain r t1 s1 where s1: "sweep_pool (mids k) p trx (between k s) = Inr ((r, t1), s1)"
    "sweep_pools mids between add (k + 1) ps t1 (add swept r) s1 = Inr (out, s')"
    by (auto simp: tx_bind_Inr)
  have "set (db_period s) \<subseteq> set (db_period (between k s))" using assms(2) by (simp add: keeps_periods_def)
  also have "\<dots> \<subseteq> set (db_period s1)" by (rule sweep_periods[OF assms(1) s1(1)])
  also have "\<dots> \<subseteq> set (db_period s')" by (rule Cons.IH[OF s1(2)])
  finally show ?case .
qed simp

lemma recheck_unfold:
  "recheck_loop mids between e fuel k trx swept rounds s =
    (case stragglers e swept s of
       Inl err \<Rightarrow> Inl err
     | Inr [] \<Rightarrow> Inr ((swept, rounds), s)
     | Inr (p # ps) \<Rightarrow>
         (case fuel of
            0 \<Rightarrow> Inl (Raised ''XX000'' ''ledger_close_period: gate did not quiesce'')
          | Suc fuel' \<Rightarrow> tx_bind (sweep_pools mids between absorb_sweep k (p # ps) trx swept) (\<lambda>(trx', swept').
              recheck_loop mids between e fuel' (k + length (p # ps)) trx' swept' (rounds + 1)) s))"
  by (subst recheck_loop.simps) (auto simp: tx_bind_def split: sum.split list.split nat.split)

lemma recheck_step:
  assumes "recheck_loop mids between e fuel k trx swept rounds s = Inr ((swept', rounds'), s')"
  obtains "stragglers e swept s = Inr []" "swept' = swept" "rounds' = rounds" "s' = s"
  | fuel' ps t1 sw1 s1 where "fuel = Suc fuel'"
      "sweep_pools mids between absorb_sweep k ps trx swept s = Inr ((t1, sw1), s1)"
      "recheck_loop mids between e fuel' (k + length ps) t1 sw1 (rounds + 1) s1 = Inr ((swept', rounds'), s')"
  using assms unfolding recheck_unfold[of mids between e fuel]
  by (simp only: tx_bind_Inr split: sum.splits list.splits nat.splits prod.splits)
    (auto simp del: sweep_pools.simps)

lemma recheck_loop_ok:
  assumes "recheck_loop mids between e fuel k trx swept rounds s = Inr ((swept', rounds'), s')"
  shows "stragglers e swept' s' = Inr [] \<and> rounds' \<le> rounds + fuel"
  using assms
proof (induction fuel arbitrary: k trx swept rounds s)
  case 0
  then show ?case by (rule recheck_step) simp_all
next
  case (Suc fuel)
  from Suc.prems show ?case by (rule recheck_step) (use Suc.IH in fastforce)+
qed

lemma recheck_periods:
  assumes "\<And>k i. keeps_periods (mids k i)" "\<And>k. keeps_periods (between k)"
    "recheck_loop mids between e fuel k trx swept rounds s = Inr ((swept', rounds'), s')"
  shows "set (db_period s) \<subseteq> set (db_period s')"
  using assms(3)
proof (induction fuel arbitrary: k trx swept rounds s)
  case 0
  then show ?case by (rule recheck_step) simp_all
next
  case (Suc fuel)
  from Suc.prems show ?case
  proof (rule recheck_step)
    fix fuel' ps t1 sw1 s1
    assume s1: "Suc fuel = Suc fuel'" "sweep_pools mids between absorb_sweep k ps trx swept s = Inr ((t1, sw1), s1)"
      "recheck_loop mids between e fuel' (k + length ps) t1 sw1 (rounds + 1) s1 = Inr ((swept', rounds'), s')"
    have "set (db_period s) \<subseteq> set (db_period s1)" by (rule sweep_pools_periods[OF assms(1,2) s1(2)])
    also have "\<dots> \<subseteq> set (db_period s')" using Suc.IH s1(1,3) by blast
    finally show ?thesis .
  qed simp
qed

lemma update_periods_ok:
  "update_periods sel f rows = Inr rows' \<Longrightarrow> rows' = map (\<lambda>r. if sel r then f r else r) rows"
  by (induction rows arbitrary: rows') (auto simp: and_then_Inr split: if_splits)

lemma stamp_closed_ok:
  assumes "stamp_closed pid actor s = Inr (at, s')"
  shows "s' = s\<lparr>db_period := map (\<lambda>r. if pe_id r = pid \<and> (pe_state r = PeriodOpen \<or> pe_state r = PeriodClosing)
    then r\<lparr>pe_state := PeriodClosed, pe_closed_at := Some at, pe_closed_by := Some actor\<rparr> else r) (db_period s)\<rparr>"
  using assms by (auto simp: stamp_closed_def Let_def and_then_Inr split: if_splits dest!: update_periods_ok)

lemma gate_periods [simp]:
  "gate_pools e (s\<lparr>db_period := rows\<rparr>) = gate_pools e s"
  "in_period_event_count e (s\<lparr>db_period := rows\<rparr>) = in_period_event_count e s"
proof -
  have "gate_pool e (s\<lparr>db_period := rows\<rparr>) = gate_pool e s"
    by (rule ext) (simp add: gate_pool_def settled_of_def floor_of_def settlement_of_def)
  then show "gate_pools e (s\<lparr>db_period := rows\<rparr>) = gate_pools e s" by (simp add: gate_pools_def gate_scope_def)
  show "in_period_event_count e (s\<lparr>db_period := rows\<rparr>) = in_period_event_count e s"
    by (simp add: in_period_event_count_def pool_of_def)
qed

lemma stragglers_none:
  assumes "stragglers e swept s = Inr []"
  obtains pools where "gate_pools e s = Inr pools" "list_all (\<lambda>g. \<not> lagging g) pools"
  using assms by (auto simp: stragglers_def and_then_Inr filter_empty_conv list_all_iff)

lemma finish_close_ok:
  assumes env: "\<And>k i. keeps_periods (mids k i)" "\<And>k. keeps_periods (between k)"
    and run: "finish_close mids between period actor force scope n gate s = Inr (report, s')"
    and period: "period \<in> set (db_period s)" "pe_state period \<noteq> PeriodClosed"
  obtains summary pools where "report = Period_closed gate summary" "cs_closed_by summary = actor"
    "cs_forced summary = (force \<and> \<not> gr_passed gate)" "cs_rounds summary \<le> MAX_RECHECK_ROUNDS"
    "period\<lparr>pe_state := PeriodClosed, pe_closed_at := Some (cs_closed_at summary), pe_closed_by := Some actor\<rparr>
      \<in> set (db_period s')"
    "gate_pools (pe_last period) s' = Inr pools" "list_all (\<lambda>g. \<not> lagging g) pools"
    "in_period_event_count (pe_last period) s' = n"
proof -
  obtain trx swept s1 swept' rounds s2 s3 at where
    sw: "sweep_pools mids between (\<lambda>swept result. swept @ [result]) 0 scope None [] s = Inr ((trx, swept), s1)"
    and re: "recheck_loop mids between (pe_last period) MAX_RECHECK_ROUNDS (length scope + 1) trx swept 0
        (between (length scope) s1) = Inr ((swept', rounds), s2)"
    and fe: "fence_recount (pe_last period) n s2 = Inr ((), s3)"
    and st: "stamp_closed (pe_id period) actor s3 = Inr (at, s')"
    and rp: "report = Period_closed gate (close_summary force gate actor at swept' rounds)"
    using run by (auto simp: finish_close_def tx_bind_Inr)
  have s3: "s3 = s2" "in_period_event_count (pe_last period) s2 = n"
    using fe by (auto simp: fence_recount_def split: if_splits)
  have "period \<in> set (db_period s1)" using sweep_pools_periods[OF env sw] period(1) by blast
  then have "period \<in> set (db_period (between (length scope) s1))" using env(2) unfolding keeps_periods_def by blast
  then have mem: "period \<in> set (db_period s3)" using recheck_periods[OF env re] s3(1) by blast
  have state: "pe_state period = PeriodOpen \<or> pe_state period = PeriodClosing"
    using period(2) by (cases "pe_state period") auto
  let ?f = "\<lambda>r. if pe_id r = pe_id period \<and> (pe_state r = PeriodOpen \<or> pe_state r = PeriodClosing)
      then r\<lparr>pe_state := PeriodClosed, pe_closed_at := Some at, pe_closed_by := Some actor\<rparr> else r"
  have s': "s' = s3\<lparr>db_period := map ?f (db_period s3)\<rparr>" by (rule stamp_closed_ok[OF st])
  obtain pools where pools: "gate_pools (pe_last period) s2 = Inr pools" "list_all (\<lambda>g. \<not> lagging g) pools"
    using recheck_loop_ok[OF re] by (auto elim: stragglers_none)
  have "?f period \<in> ?f ` set (db_period s3)" using mem by (rule imageI)
  then have closed: "?f period \<in> set (db_period s')" by (simp add: s')
  show thesis
    by (rule that[OF rp, of pools])
      (use closed state recheck_loop_ok[OF re] pools s3 in \<open>simp_all add: close_summary_def s'\<close>)
qed

lemma load_period_ok: "load_period pid s = Inr period \<Longrightarrow> period \<in> set (db_period s) \<and> pe_id period = pid"
  by (auto simp: load_period_def find_Some_iff split: option.splits)

lemma close_period_cases:
  assumes "ledger_close_period feed mids between pid actor force s = Inr (report, s')"
  obtains (already) period where "load_period pid s = Inr period" "pe_state period = PeriodClosed" "s' = s"
      "report = Already_closed (pe_closed_at period) (pe_closed_by period)"
  | (gated) period pools where "load_period pid s = Inr period" "pe_state period \<noteq> PeriodClosed"
      "\<forall>r\<in>set (db_period s). pe_start r < pe_start period \<longrightarrow> pe_state r = PeriodClosed"
      "gate_pools (pe_last period) s = Inr pools"
      "(if refused force (gate_report feed pools s)
        then tx_bind (mark_closing pid) (\<lambda>_. tx_return (Close_refused force (gate_report feed pools s))) s
        else finish_close mids between period actor force (map gp_pool_id pools)
          (in_period_event_count (pe_last period) s) (gate_report feed pools s) s) = Inr (report, s')"
proof -
  obtain key where key: "advisory_key pid = Inr key"
    using assms unfolding ledger_close_period_def and_then_Inr by blast
  obtain period where pe: "load_period pid s = Inr period"
    using assms unfolding ledger_close_period_def and_then_Inr by blast
  show thesis
  proof (cases "pe_state period = PeriodClosed")
    case True
    have "report = Already_closed (pe_closed_at period) (pe_closed_by period)" "s' = s"
      using assms key pe True by (simp_all add: ledger_close_period_def)
    then show ?thesis using already[OF pe True] by simp
  next
    case False
    note eq = assms[unfolded ledger_close_period_def key pe and_then_simps if_not_P[OF False] Let_def]
    obtain pools where order: "reject_out_of_order period s = Inr ()"
      and pools: "gate_pools (pe_last period) s = Inr pools"
      using eq unfolding and_then_Inr by auto
    have "\<forall>r\<in>set (db_period s). pe_start r < pe_start period \<longrightarrow> pe_state r = PeriodClosed"
      using order by (auto simp: reject_out_of_order_def list_ex_iff split: if_splits)
    from gated[OF pe False this pools eq[unfolded order pools and_then_simps]] show ?thesis .
  qed
qed

section \<open>What the gate says of a pool\<close>

definition period_history :: "int \<Rightarrow> i64 \<Rightarrow> db \<Rightarrow> StrictEvent list" where
  "period_history e p s = map (strict_event_of \<circ> scan_of)
    (sort_key line_pos (filter (\<lambda>r. physical p r \<and> before_end e r) (db_trx_line s)))"

lemma collect_member: "collect f xs = Inr ys \<Longrightarrow> x \<in> set xs \<Longrightarrow> \<exists>y\<in>set ys. f x = Inr y"
  by (induction xs arbitrary: ys) (auto simp: and_then_Inr)

lemma gate_pool_clear:
  assumes "gate_pool e s p = Inr g" "\<not> lagging g" "r \<in> set (db_trx_line s)" "physical p r" "before_end e r"
  shows "\<not> after (settled_of s p) r"
  using assms by (auto simp: gate_pool_def Let_def and_then_Inr lagging_def filter_empty_conv)

lemma sorted_down_split:
  fixes k :: "'a \<Rightarrow> 'b :: linorder"
  assumes "sorted (map k xs)" "\<And>x y. k x \<le> k y \<Longrightarrow> P y \<Longrightarrow> P x"
  shows "filter P xs @ filter (\<lambda>x. \<not> P x) xs = xs"
  using assms(1)
proof (induction xs)
  case (Cons x xs)
  have "filter P xs = []" if "\<not> P x" using Cons.prems that assms(2)[of x] by (auto simp: filter_empty_conv)
  then show ?case using Cons by (cases "P x") auto
qed simp

lemma history_period_split:
  assumes "\<And>r. r \<in> set (db_trx_line s) \<Longrightarrow> physical p r \<Longrightarrow> before_end e r \<Longrightarrow> line_pos r \<le> f"
  shows "\<exists>rest. history f p s = period_history e p s @ rest"
proof -
  let ?H = "sort_key line_pos (filter (\<lambda>r. physical p r \<and> line_pos r \<le> f) (db_trx_line s))"
  have "?H = filter (before_end e) ?H @ filter (\<lambda>r. \<not> before_end e r) ?H"
    by (rule sorted_down_split[of line_pos, symmetric]) (auto simp: before_end_def line_pos_def less_eq_prod_def)
  moreover have "filter (before_end e) ?H = sort_key line_pos (filter (\<lambda>r. physical p r \<and> before_end e r) (db_trx_line s))"
    unfolding filter_sort filter_filter
    by (intro arg_cong[of _ _ "sort_key line_pos"] filter_cong) (use assms in auto)
  ultimately have "?H = sort_key line_pos (filter (\<lambda>r. physical p r \<and> before_end e r) (db_trx_line s)) @
      filter (\<lambda>r. \<not> before_end e r) ?H" by simp
  from arg_cong[OF this, of "map (strict_event_of \<circ> scan_of)"] show ?thesis
    unfolding history_lines period_history_def map_append by blast
qed

lemma period_costs:
  assumes "pool_sound p s" "checkpoint nf p s" "floor_of s p = None"
    "gate_pool e s p = Inr g" "\<not> lagging g" "period_history e p s \<noteq> []"
  obtains out where "strict_fold nf [] (period_history e p s) = Some out"
    "list_all (\<lambda>c. map_option cs_authoritative (current_settlement s (dep_trx_line_id c)) =
      Some (dep_authoritative c)) (fold_costings out)"
proof -
  have ls: "lines_sound p s" using assms(1) by (simp add: pool_sound_def books_sound_def)
  obtain r where "r \<in> set (db_trx_line s)" "physical p r" "before_end e r"
    using assms(6) by (auto simp: period_history_def filter_empty_conv)
  then obtain f where f: "settled_of s p = Some f"
    using gate_pool_clear[OF assms(4,5)] by (cases "settled_of s p") (auto simp: after_def)
  then obtain rest where rest: "history f p s = period_history e p s @ rest"
    using history_period_split[of s p e f] gate_pool_clear[OF assms(4,5)] by (auto simp: after_def not_less)
  obtain out where out: "strict_fold nf [] (history f p s) = Some out" "holds_replay p out s"
    using assms(2,3) f by (auto simp: checkpoint_def holds_def split: option.splits)
  have "list_all (event_in 0 i64_max) (period_history e p s)" using history_wf[OF ls, of f] rest by simp
  then obtain a where a: "strict_fold nf [] (period_history e p s) = Some a" by (rule strict_fold_run)
  have "set (fold_costings a) \<subseteq> set (fold_costings out)"
    using out(1) unfolding rest strict_fold_two_parts[OF a] by auto
  then show thesis using out(2) by (intro that[OF a]) (auto simp: holds_replay_def list_all_iff)
qed

section \<open>A period to close\<close>

definition january :: period_row where
  "january = \<lparr>pe_id = 1, pe_start = 0, pe_last = 0, pe_state = PeriodOpen, pe_closed_at = None, pe_closed_by = None\<rparr>"

definition close_db :: db where
  "close_db = recalc_db\<lparr>db_period := [january]\<rparr>"

definition current_feed :: FeedGate where
  "current_feed = \<lparr>fg_required = Some True, fg_slot = Some \<lparr>sl_lost = False, sl_invalidation = None,
     sl_confirmed = Some 500\<rparr>, fg_lsn = 500, fg_lag = Some 0\<rparr>"

definition close_january :: "bool \<Rightarrow> CloseReport tx" where
  "close_january force = ledger_close_period current_feed (\<lambda>_ _ s. s) (\<lambda>_ s. s) 1 ''controller'' force"

definition outcome_of :: "(pg_error + 'a \<times> db) \<Rightarrow> ('a \<Rightarrow> db \<Rightarrow> bool) \<Rightarrow> bool" where
  "outcome_of r P = (case r of Inl _ \<Rightarrow> False | Inr (x, s') \<Rightarrow> P x s')"

lemma outcome_ofE: "outcome_of r P \<Longrightarrow> (\<And>x s'. r = Inr (x, s') \<Longrightarrow> P x s' \<Longrightarrow> thesis) \<Longrightarrow> thesis"
  by (auto simp: outcome_of_def split: sum.splits)

lemma close_db_forced:
  "outcome_of (close_january True close_db) (\<lambda>report s'.
    (case report of Period_closed gate summary \<Rightarrow> cs_forced summary \<and> cs_residue_abs summary = 4 | _ \<Rightarrow> False) \<and>
    settles False 4 s' \<and> floor_of s' 4 = None \<and> gate_scope 0 s' = [4])"
  by code_simp

lemma close_db_waits:
  "outcome_of (close_january False close_db) (\<lambda>report s'.
    (case report of Close_refused force gate \<Rightarrow> map gp_unsettled_events (gr_lagging gate) = [3] | _ \<Rightarrow> False))"
  by code_simp

lemma sweep_db_runs:
  "outcome_of (sweep_pool (\<lambda>_ s. s) 4 None recalc_db) (\<lambda>(result, trx) s'.
    sw_residue result = 4 \<and> (case state_of s' 4 0 of Some agg \<Rightarrow> st_value_sum agg = 270 | None \<Rightarrow> False) \<and>
    pool_of s' 4 \<noteq> None \<and> db_accounts s' (pl_sku_id (the (pool_of s' 4)), pl_location_id (the (pool_of s' 4))) = Some demo_accounts)"
  by code_simp

section \<open>Properties\<close>



text \<open>
  C4. A close that reports success has made the period final. Whatever others commit while it runs,
  as long as they leave existing periods alone: every earlier period was already closed, the feed was
  current and no pool in scope was halted, the pools were settled through the period's end or the close
  was forced; in the final state no pool with activity up to the period's end has unsettled events or a
  recost floor there, the number of such events is the one the gate counted, the period's row is
  stamped closed, and the admission guard refuses every physical line up to the period's end.
\<close>
theorem close_finalizes:
  assumes "\<And>k i. keeps_periods (mids k i)" "\<And>k. keeps_periods (between k)"
    "ledger_close_period feed mids between pid actor force s = Inr (Period_closed gate summary, s')"
  shows "\<exists>period pools pools'. load_period pid s = Inr period \<and> pe_state period \<noteq> PeriodClosed \<and>
    (\<forall>r\<in>set (db_period s). pe_start r < pe_start period \<longrightarrow> pe_state r = PeriodClosed) \<and>
    gate_pools (pe_last period) s = Inr pools \<and> feed_currency feed = None \<and> halted_in_scope pools s = [] \<and>
    (force \<or> list_all (\<lambda>g. \<not> lagging g) pools) \<and>
    gate_pools (pe_last period) s' = Inr pools' \<and> list_all (\<lambda>g. \<not> lagging g) pools' \<and>
    in_period_event_count (pe_last period) s' = in_period_event_count (pe_last period) s \<and>
    period\<lparr>pe_state := PeriodClosed, pe_closed_at := Some (cs_closed_at summary), pe_closed_by := Some actor\<rparr>
      \<in> set (db_period s') \<and>
    (\<forall>t < day_start (pe_last period + 1). period_guard s' t \<noteq> Inr ())"
  using assms(3)
proof (cases rule: close_period_cases)
  case (gated period pools)
  let ?gate = "gate_report feed pools s"
  have ok: "\<not> refused force ?gate" using gated(5) by (auto simp: tx_bind_Inr split: if_splits)
  have fin: "finish_close mids between period actor force (map gp_pool_id pools)
      (in_period_event_count (pe_last period) s) ?gate s = Inr (Period_closed gate summary, s')"
    using gated(5) ok by simp
  note lp = load_period_ok[OF gated(1)]
  obtain summary1 pools' where f: "Period_closed gate summary = Period_closed ?gate summary1"
    "period\<lparr>pe_state := PeriodClosed, pe_closed_at := Some (cs_closed_at summary1), pe_closed_by := Some actor\<rparr>
      \<in> set (db_period s')"
    "gate_pools (pe_last period) s' = Inr pools'" "list_all (\<lambda>g. \<not> lagging g) pools'"
    "in_period_event_count (pe_last period) s' = in_period_event_count (pe_last period) s"
    by (rule finish_close_ok[OF assms(1,2) fin lp[THEN conjunct1] gated(2)]) (rule that)
  have "\<forall>t < day_start (pe_last period + 1). period_guard s' t \<noteq> Inr ()"
    using f(2) by (force simp: period_guard_iff list_all_iff)
  moreover have "feed_currency feed = None" "halted_in_scope pools s = []" "force \<or> list_all (\<lambda>g. \<not> lagging g) pools"
    using ok by (auto simp: refused_def gate_report_def Let_def filter_empty_conv list_all_iff)
  ultimately show ?thesis using gated(1-4) f by auto
qed simp

theorem close_finalizes_witness:
  "\<exists>gate summary s'. close_january True close_db = Inr (Period_closed gate summary, s') \<and> cs_forced summary \<and>
    (\<forall>t < day_start 1. period_guard s' t \<noteq> Inr ())"
proof -
  obtain gate summary s' where run: "close_january True close_db = Inr (Period_closed gate summary, s')" "cs_forced summary"
    by (rule outcome_ofE[OF close_db_forced]) (auto split: CloseReport.splits)
  have keeps: "keeps_periods (\<lambda>s. s)" by (simp add: keeps_periods_def)
  have "load_period 1 close_db = Inr january" by (simp add: load_period_def close_db_def january_def)
  with close_finalizes[OF keeps keeps run(1)[unfolded close_january_def]] show ?thesis
    using run by (auto simp: january_def)
qed

text \<open>
  C27. A close that is refused changes nothing but its own marker. The report names a halted pool in
  scope, a feed that is not current, or, without force, a pool that lags; force never bypasses the first
  two. The only change of the database is that an open period becomes closing, which the admission
  guard does not distinguish from an open one, so the period keeps taking lines until a later attempt.
\<close>
theorem close_refusal:
  assumes "ledger_close_period feed mids between pid actor force s = Inr (Close_refused requested gate, s')"
  shows "\<exists>period pools. load_period pid s = Inr period \<and> gate_pools (pe_last period) s = Inr pools \<and>
    requested = force \<and> gate = gate_report feed pools s \<and> \<not> gr_passed gate \<and>
    (halted_in_scope pools s \<noteq> [] \<or> feed_currency feed \<noteq> None \<or> (\<not> force \<and> list_ex lagging pools)) \<and>
    s' = s\<lparr>db_period := map (\<lambda>r. if pe_id r = pid \<and> pe_state r = PeriodOpen
      then r\<lparr>pe_state := PeriodClosing\<rparr> else r) (db_period s)\<rparr> \<and>
    (\<forall>t. period_guard s' t = Inr () \<longleftrightarrow> period_guard s t = Inr ())"
  using assms
proof (cases rule: close_period_cases)
  case (gated period pools)
  let ?gate = "gate_report feed pools s"
  have ref: "refused force ?gate"
  proof (rule ccontr)
    assume "\<not> refused force ?gate"
    then show False using gated(5) by (auto simp: finish_close_def tx_bind_Inr)
  qed
  then have run: "requested = force" "gate = ?gate" "mark_closing pid s = Inr ((), s')"
    using gated(5) by (auto simp: tx_bind_Inr)
  have s': "s' = s\<lparr>db_period := map (\<lambda>r. if pe_id r = pid \<and> pe_state r = PeriodOpen
      then r\<lparr>pe_state := PeriodClosing\<rparr> else r) (db_period s)\<rparr>"
    using run(3) by (auto simp: mark_closing_def and_then_Inr dest!: update_periods_ok)
  have "period_guard s' t = Inr () \<longleftrightarrow> period_guard s t = Inr ()" for t
    unfolding period_guard_iff s' by (auto simp: list_all_iff)
  moreover have "\<not> gr_passed gate \<and>
      (halted_in_scope pools s \<noteq> [] \<or> feed_currency feed \<noteq> None \<or> (\<not> force \<and> list_ex lagging pools))"
    using ref run(2) by (auto simp: refused_def gate_report_def Let_def filter_empty_conv list_ex_iff)
  ultimately show ?thesis using gated(1,4) run(1,2) s' by blast
qed simp

theorem close_refusal_witness:
  "\<exists>gate s'. close_january False close_db = Inr (Close_refused False gate, s') \<and> \<not> gr_passed gate \<and>
    period_guard s' 50 = Inr ()"
proof -
  obtain requested gate s' where run: "close_january False close_db = Inr (Close_refused requested gate, s')"
    by (rule outcome_ofE[OF close_db_waits]) (auto split: CloseReport.splits)
  have "period_guard close_db 50 = Inr ()" by code_simp
  then show ?thesis using close_refusal[OF run[unfolded close_january_def]] run by auto
qed



end
