(* ===== verification/Pgoutput.thy ===== *)
theory Pgoutput
  imports Prelude "HOL-Library.Word"
begin

unbundle bit_operations_syntax

text \<open>
  The parser of logical replication messages, \<open>ledger-feed/src/pgoutput.rs\<close>. Bytes are 8-bit words and
  a Rust \<open>String\<close> is the HOL string of its bytes; \<open>from_utf8\<close> is the check of the standard library. A
  slice that is out of range, an index past the end or a failing conversion of a slice into an array
  is the error \<open>Panic\<close>, so that its absence is a theorem.
\<close>

type_synonym byte = "8 word"

section \<open>Messages and errors\<close>

record Relation =
  rel_id :: "32 word"
  rel_namespace :: string
  rel_name :: string
  rel_column_names :: "string list"

datatype Message =
    Begin
  | Commit
  | Relation_msg Relation
  | Insert "32 word" "string option list"
  | Other byte

datatype ParseError =
    Overflow
  | Truncated nat nat nat
  | Unterminated_cstring
  | Non_utf8_cstring
  | Non_utf8_value
  | Bad_tuple_kind byte
  | Negative_length int
  | Unsupported_kind byte
  | Unknown_tag byte
  | Panic

section \<open>Text\<close>

definition continuation :: "byte \<Rightarrow> bool" where
  "continuation b \<longleftrightarrow> 0x80 \<le> b \<and> b \<le> 0xBF"

definition lead_range :: "byte \<Rightarrow> (nat \<times> byte \<times> byte) option" where
  "lead_range a =
    (if a < 0x80 then Some (0, 0, 0)
     else if 0xC2 \<le> a \<and> a \<le> 0xDF then Some (1, 0x80, 0xBF)
     else if a = 0xE0 then Some (2, 0xA0, 0xBF)
     else if a = 0xED then Some (2, 0x80, 0x9F)
     else if 0xE1 \<le> a \<and> a \<le> 0xEF then Some (2, 0x80, 0xBF)
     else if a = 0xF0 then Some (3, 0x90, 0xBF)
     else if 0xF1 \<le> a \<and> a \<le> 0xF3 then Some (3, 0x80, 0xBF)
     else if a = 0xF4 then Some (3, 0x80, 0x8F)
     else None)"

text \<open>Well-formed UTF-8: no overlong forms, no surrogates, nothing above U+10FFFF.\<close>

fun utf8_valid :: "byte list \<Rightarrow> bool" where
  "utf8_valid [] = True"
| "utf8_valid (a # rest) =
    (case lead_range a of
       None \<Rightarrow> False
     | Some (0, _, _) \<Rightarrow> utf8_valid rest
     | Some (Suc n, lo, hi) \<Rightarrow>
         (case rest of
            [] \<Rightarrow> False
          | b # tail \<Rightarrow> lo \<le> b \<and> b \<le> hi \<and> n \<le> length tail \<and> list_all continuation (take n tail) \<and>
              utf8_valid (drop n tail)))"

definition char_of_byte :: "byte \<Rightarrow> char" where
  "char_of_byte b = char_of (unat b)"

definition byte_of_char :: "char \<Rightarrow> byte" where
  "byte_of_char c = of_nat (of_char c)"

definition from_utf8 :: "byte list \<Rightarrow> string option" where
  "from_utf8 bs = (if utf8_valid bs then Some (map char_of_byte bs) else None)"

section \<open>The reader\<close>

record Reader =
  rd_buf :: "byte list"
  rd_pos :: nat

type_synonym 'a reader = "Reader \<Rightarrow> ParseError + 'a \<times> Reader"

definition usize_max :: int where
  "usize_max = 2 ^ 64 - 1"

definition read_return :: "'a \<Rightarrow> 'a reader" where
  "read_return x r = Inr (x, r)"

definition read_fail :: "ParseError \<Rightarrow> 'a reader" where
  "read_fail e r = Inl e"

definition read_bind :: "'a reader \<Rightarrow> ('a \<Rightarrow> 'b reader) \<Rightarrow> 'b reader" where
  "read_bind f g r = (case f r of Inl e \<Rightarrow> Inl e | Inr (x, r') \<Rightarrow> g x r')"

definition slice :: "'a list \<Rightarrow> nat \<Rightarrow> nat \<Rightarrow> ParseError + 'a list" where
  "slice xs a b = (if a \<le> b \<and> b \<le> length xs then Inr (take (b - a) (drop a xs)) else Inl Panic)"

fun find_position :: "('a \<Rightarrow> bool) \<Rightarrow> 'a list \<Rightarrow> nat option" where
  "find_position P [] = None"
| "find_position P (x # xs) = (if P x then Some 0 else map_option Suc (find_position P xs))"

definition new_reader :: "byte list \<Rightarrow> Reader" where
  "new_reader buf = \<lparr>rd_buf = buf, rd_pos = 0\<rparr>"

definition read_take :: "nat \<Rightarrow> byte list reader" where
  "read_take n r =
    (let e = rd_pos r + n in
     if int e > usize_max then Inl Overflow
     else if e > length (rd_buf r) then Inl (Truncated n (rd_pos r) (length (rd_buf r) - rd_pos r))
     else and_then (slice (rd_buf r) (rd_pos r) e) (\<lambda>out. Inr (out, r\<lparr>rd_pos := e\<rparr>)))"

definition from_be_bytes :: "byte list \<Rightarrow> 'a :: len word" where
  "from_be_bytes = foldl (\<lambda>acc b. push_bit 8 acc OR ucast b) 0"

definition array :: "nat \<Rightarrow> byte list \<Rightarrow> byte list reader" where
  "array n bs = (if length bs = n then read_return bs else read_fail Panic)"

definition read_u8 :: "byte reader" where
  "read_u8 = read_bind (read_take 1) (\<lambda>bs. case bs of [] \<Rightarrow> read_fail Panic | b # _ \<Rightarrow> read_return b)"

definition read_u16 :: "16 word reader" where
  "read_u16 = read_bind (read_take 2) (\<lambda>bs. read_bind (array 2 bs) (\<lambda>a. read_return (from_be_bytes a)))"

definition read_u32 :: "32 word reader" where
  "read_u32 = read_bind (read_take 4) (\<lambda>bs. read_bind (array 4 bs) (\<lambda>a. read_return (from_be_bytes a)))"

definition read_i32 :: "int reader" where
  "read_i32 = read_bind (read_take 4) (\<lambda>bs. read_bind (array 4 bs) (\<lambda>a.
    read_return (sint (from_be_bytes a :: 32 word))))"

definition read_cstr :: "string reader" where
  "read_cstr r =
    and_then (slice (rd_buf r) (rd_pos r) (length (rd_buf r))) (\<lambda>rest.
    case find_position (\<lambda>b. b = 0) rest of
      None \<Rightarrow> Inl Unterminated_cstring
    | Some nul \<Rightarrow>
        (case from_utf8 (take nul rest) of
           None \<Rightarrow> Inl Non_utf8_cstring
         | Some s \<Rightarrow> Inr (s, r\<lparr>rd_pos := rd_pos r + (nul + 1)\<rparr>)))"

text \<open>A counted loop that pushes what each round reads.\<close>

fun read_many :: "nat \<Rightarrow> 'a reader \<Rightarrow> 'a list reader" where
  "read_many 0 f = read_return []"
| "read_many (Suc n) f = read_bind f (\<lambda>x. read_bind (read_many n f) (\<lambda>xs. read_return (x # xs)))"

section \<open>Parsing\<close>

definition read_relation_column :: "string reader" where
  "read_relation_column =
    read_bind read_u8 (\<lambda>_. read_bind read_cstr (\<lambda>name.
    read_bind read_u32 (\<lambda>_. read_bind read_i32 (\<lambda>_. read_return name))))"

definition read_relation :: "Message reader" where
  "read_relation =
    read_bind read_u32 (\<lambda>i.
    read_bind read_cstr (\<lambda>namespace.
    read_bind read_cstr (\<lambda>name.
    read_bind read_u8 (\<lambda>_.
    read_bind read_u16 (\<lambda>ncols.
    read_bind (read_many (unat ncols) read_relation_column) (\<lambda>names.
    read_return (Relation_msg \<lparr>rel_id = i, rel_namespace = namespace, rel_name = name,
      rel_column_names = names\<rparr>)))))))"

definition read_column :: "string option reader" where
  "read_column =
    read_bind read_u8 (\<lambda>kind.
    if kind = 0x6E \<or> kind = 0x75 then read_return None
    else if kind = 0x74 then
      read_bind read_i32 (\<lambda>len.
      if len < 0 then read_fail (Negative_length len)
      else
        read_bind (read_take (nat len)) (\<lambda>bytes.
        case from_utf8 bytes of None \<Rightarrow> read_fail Non_utf8_value | Some s \<Rightarrow> read_return (Some s)))
    else read_fail (Unsupported_kind kind))"

definition read_insert :: "Message reader" where
  "read_insert =
    read_bind read_u32 (\<lambda>i.
    read_bind read_u8 (\<lambda>tuple_kind.
    if tuple_kind \<noteq> 0x4E then read_fail (Bad_tuple_kind tuple_kind)
    else
      read_bind read_u16 (\<lambda>ncols.
      read_bind (read_many (unat ncols) read_column) (\<lambda>columns.
      read_return (Insert i columns)))))"

definition read_message :: "Message reader" where
  "read_message =
    read_bind read_u8 (\<lambda>tag.
    if tag = 0x42 then read_return Begin
    else if tag = 0x43 then read_return Commit
    else if tag = 0x52 then read_relation
    else if tag = 0x49 then read_insert
    else if tag = 0x59 \<or> tag = 0x4F \<or> tag = 0x4D \<or> tag = 0x54 then read_return (Other tag)
    else read_fail (Unknown_tag tag))"

definition parse :: "byte list \<Rightarrow> ParseError + Message" where
  "parse data = and_then (read_message (new_reader data)) (\<lambda>(m, _). Inr m)"

section \<open>No read goes out of bounds\<close>

text \<open>A reader is in range when its position is within the buffer. Every operation keeps it there,
  leaves the buffer alone, only moves forward and never panics; \<open>P\<close> is what its result satisfies.\<close>

definition in_range :: "Reader \<Rightarrow> bool" where
  "in_range r \<longleftrightarrow> rd_pos r \<le> length (rd_buf r)"

definition read_result :: "('a \<Rightarrow> bool) \<Rightarrow> Reader \<Rightarrow> ParseError + 'a \<times> Reader \<Rightarrow> bool" where
  "read_result P r res =
    (case res of
       Inl e \<Rightarrow> e \<noteq> Panic
     | Inr (x, r') \<Rightarrow> P x \<and> in_range r' \<and> rd_buf r' = rd_buf r \<and> rd_pos r \<le> rd_pos r')"

lemma read_result_simps [simp]:
  "read_result P r (Inl e) \<longleftrightarrow> e \<noteq> Panic"
  "read_result P r (Inr (x, r')) \<longleftrightarrow> P x \<and> in_range r' \<and> rd_buf r' = rd_buf r \<and> rd_pos r \<le> rd_pos r'"
  by (simp_all add: read_result_def)

definition reads_safely :: "'a reader \<Rightarrow> ('a \<Rightarrow> bool) \<Rightarrow> bool" where
  "reads_safely f P \<longleftrightarrow> (\<forall>r. in_range r \<longrightarrow> read_result P r (f r))"

lemma reads_safelyI: "(\<And>r. in_range r \<Longrightarrow> read_result P r (f r)) \<Longrightarrow> reads_safely f P"
  by (simp add: reads_safely_def)

lemma reads_safelyD: "reads_safely f P \<Longrightarrow> in_range r \<Longrightarrow> read_result P r (f r)"
  by (simp add: reads_safely_def)

lemma safe_return: "P x \<Longrightarrow> reads_safely (read_return x) P"
  by (simp add: reads_safely_def read_return_def)

lemma safe_fail: "e \<noteq> Panic \<Longrightarrow> reads_safely (read_fail e) P"
  by (simp add: reads_safely_def read_fail_def)

lemma safe_bind:
  assumes "reads_safely f Q" "\<And>x. Q x \<Longrightarrow> reads_safely (g x) P"
  shows "reads_safely (read_bind f g) P"
proof (rule reads_safelyI)
  fix r assume r: "in_range r"
  note f = reads_safelyD[OF assms(1) r]
  show "read_result P r (read_bind f g r)"
  proof (cases "f r")
    case (Inl e)
    then show ?thesis using f by (simp add: read_bind_def)
  next
    case (Inr y)
    obtain x r1 where y: "y = (x, r1)" by (cases y)
    have r1: "Q x" "in_range r1" "rd_buf r1 = rd_buf r" "rd_pos r \<le> rd_pos r1" using f Inr y by simp_all
    have "read_result P r1 (g x r1)" by (rule reads_safelyD[OF assms(2)[OF r1(1)] r1(2)])
    then have "read_result P r (g x r1)" using r1(3,4) by (cases "g x r1") auto
    then show ?thesis using Inr y by (simp add: read_bind_def)
  qed
qed

lemma safe_take: "reads_safely (read_take n) (\<lambda>bs. length bs = n)"
  by (auto simp: reads_safely_def read_take_def Let_def slice_def in_range_def)

lemma safe_array: "length bs = n \<Longrightarrow> reads_safely (array n bs) (\<lambda>_. True)"
  by (simp add: array_def safe_return)

lemma safe_fixed: "reads_safely (read_bind (read_take n) (\<lambda>bs. read_bind (array n bs) (\<lambda>a. read_return (f a)))) (\<lambda>_. True)"
  by (rule safe_bind[OF safe_take], rule safe_bind[OF safe_array]) (auto intro: safe_return)

lemma safe_ints:
  "reads_safely read_u8 (\<lambda>_. True)" "reads_safely read_u16 (\<lambda>_. True)"
  "reads_safely read_u32 (\<lambda>_. True)" "reads_safely read_i32 (\<lambda>_. True)"
proof -
  show "reads_safely read_u8 (\<lambda>_. True)"
    unfolding read_u8_def by (rule safe_bind[OF safe_take]) (auto intro: safe_return split: list.split)
  show "reads_safely read_u16 (\<lambda>_. True)" "reads_safely read_u32 (\<lambda>_. True)" "reads_safely read_i32 (\<lambda>_. True)"
    unfolding read_u16_def read_u32_def read_i32_def by (rule safe_fixed)+
qed

lemma position_bound: "find_position P xs = Some i \<Longrightarrow> i < length xs \<and> P (xs ! i) \<and> list_all (\<lambda>x. \<not> P x) (take i xs)"
  by (induction xs arbitrary: i) (auto split: if_splits)

lemma char_byte [simp]: "char_of_byte (byte_of_char c) = c" "byte_of_char (char_of_byte b) = b"
proof -
  have "unat (of_nat (of_char c) :: byte) = of_char c" for c
    by (simp add: unat_of_nat)
  then show "char_of_byte (byte_of_char c) = c" by (simp add: char_of_byte_def byte_of_char_def)
  have "of_char (char_of (unat b)) = unat b" using unsigned_less[of b, where 'a = nat] by simp
  then show "byte_of_char (char_of_byte b) = b" by (simp add: char_of_byte_def byte_of_char_def)
qed

text \<open>A string that Rust can hold, and one that fits between the NUL bytes of the protocol.\<close>

definition rust_string :: "string \<Rightarrow> bool" where
  "rust_string s \<longleftrightarrow> utf8_valid (map byte_of_char s)"

definition c_string :: "string \<Rightarrow> bool" where
  "c_string s \<longleftrightarrow> rust_string s \<and> list_all (\<lambda>c. byte_of_char c \<noteq> 0) s"

lemma from_utf8_Some: "from_utf8 bs = Some s \<longleftrightarrow> bs = map byte_of_char s \<and> rust_string s"
  by (auto simp: from_utf8_def rust_string_def comp_def)

lemma safe_cstr: "reads_safely read_cstr c_string"
proof (rule reads_safelyI)
  fix r assume r: "in_range r"
  let ?rest = "drop (rd_pos r) (rd_buf r)"
  have sl: "slice (rd_buf r) (rd_pos r) (length (rd_buf r)) = Inr ?rest" using r by (simp add: slice_def in_range_def)
  show "read_result c_string r (read_cstr r)"
  proof (cases "find_position (\<lambda>b. b = 0) ?rest")
    case None
    then show ?thesis by (simp add: read_cstr_def sl)
  next
    case pos: (Some nul)
    note nul = position_bound[OF pos]
    show ?thesis
    proof (cases "from_utf8 (take nul ?rest)")
      case None
      then show ?thesis using pos by (simp add: read_cstr_def sl)
    next
      case (Some s)
      then have "take nul ?rest = map byte_of_char s" "rust_string s" by (simp_all add: from_utf8_Some)
      then have "c_string s" using nul by (simp add: c_string_def list_all_length)
      then show ?thesis using Some pos nul by (auto simp: read_cstr_def sl in_range_def)
    qed
  qed
qed

lemma safe_many:
  assumes "reads_safely f P"
  shows "reads_safely (read_many n f) (\<lambda>xs. length xs = n \<and> list_all P xs)"
proof (induction n)
  case (Suc n)
  show ?case
    unfolding read_many.simps
    by (rule safe_bind[OF assms], rule safe_bind[OF Suc.IH]) (auto intro: safe_return)
qed (auto intro: safe_return)

definition column_ok :: "string option \<Rightarrow> bool" where
  "column_ok v = (case v of None \<Rightarrow> True | Some s \<Rightarrow> rust_string s \<and> length s < 2 ^ 31)"

fun message_ok :: "Message \<Rightarrow> bool" where
  "message_ok Begin = True"
| "message_ok Commit = True"
| "message_ok (Relation_msg rel) \<longleftrightarrow>
    c_string (rel_namespace rel) \<and> c_string (rel_name rel) \<and> list_all c_string (rel_column_names rel) \<and>
    length (rel_column_names rel) < 2 ^ 16"
| "message_ok (Insert i columns) \<longleftrightarrow> list_all column_ok columns \<and> length columns < 2 ^ 16"
| "message_ok (Other tag) \<longleftrightarrow> tag = 0x59 \<or> tag = 0x4F \<or> tag = 0x4D \<or> tag = 0x54"

lemma u16_bound: "unat (w :: 16 word) < 65536"
  using unsigned_less[of w, where 'a = nat] by simp

lemma i32_bound: "sint (w :: 32 word) < 2147483648"
  using sint_lt[of w] by simp

lemma safe_i32: "reads_safely read_i32 (\<lambda>i. i < 2 ^ 31)"
  unfolding read_i32_def
  by (rule safe_bind[OF safe_take], rule safe_bind[OF safe_array], assumption, rule safe_return)
    (simp add: i32_bound)

lemma safe_relation_column: "reads_safely read_relation_column c_string"
  unfolding read_relation_column_def
  by (rule safe_bind[OF safe_ints(1)], rule safe_bind[OF safe_cstr], rule safe_bind[OF safe_ints(3)],
      rule safe_bind[OF safe_ints(4)]) (auto intro: safe_return)

lemma safe_column: "reads_safely read_column column_ok"
proof -
  have val: "reads_safely (read_bind (read_take (nat len)) (\<lambda>bytes.
      case from_utf8 bytes of None \<Rightarrow> read_fail Non_utf8_value | Some s \<Rightarrow> read_return (Some s))) column_ok"
    if "len < 2 ^ 31" for len
    by (rule safe_bind[OF safe_take])
      (use that in \<open>auto simp: column_ok_def from_utf8_Some nat_less_iff intro!: safe_return safe_fail split: option.split\<close>)
  show ?thesis
    unfolding read_column_def
    by (rule safe_bind[OF safe_ints(1)])
      (auto simp: column_ok_def[of None] intro!: safe_return safe_fail safe_bind[OF safe_i32] val)
qed

lemma safe_message: "reads_safely read_message message_ok"
proof -
  have rel: "reads_safely read_relation message_ok"
    unfolding read_relation_def
    by (rule safe_bind[OF safe_ints(3)], rule safe_bind[OF safe_cstr], rule safe_bind[OF safe_cstr],
        rule safe_bind[OF safe_ints(1)], rule safe_bind[OF safe_ints(2)],
        rule safe_bind[OF safe_many[OF safe_relation_column]]) (auto intro!: safe_return simp: u16_bound)
  have ins: "reads_safely read_insert message_ok"
    unfolding read_insert_def
    by (rule safe_bind[OF safe_ints(3)], rule safe_bind[OF safe_ints(1)])
      (auto intro!: safe_fail safe_return safe_bind[OF safe_ints(2)] safe_bind[OF safe_many[OF safe_column]]
        simp: u16_bound)
  show ?thesis
    unfolding read_message_def
    by (rule safe_bind[OF safe_ints(1)]) (auto intro!: rel ins safe_return safe_fail)
qed

section \<open>The protocol\<close>

text \<open>What the server sends, as the protocol documents it, and what the consumer should see of it: the
  parameters of a relation's columns and the rest of a structural message are there to be skipped.\<close>

datatype wire_value = W_null | W_unchanged | W_text string

record attribute =
  at_flags :: byte
  at_name :: string
  at_oid :: "32 word"
  at_mod :: "32 word"

datatype wire =
    W_begin "byte list"
  | W_commit "byte list"
  | W_relation "32 word" string string byte "attribute list"
  | W_insert "32 word" "wire_value list"
  | W_other byte "byte list"

definition u16_be :: "16 word \<Rightarrow> byte list" where
  "u16_be w = [ucast (drop_bit 8 w), ucast w]"

definition u32_be :: "32 word \<Rightarrow> byte list" where
  "u32_be w = [ucast (drop_bit 24 w), ucast (drop_bit 16 w), ucast (drop_bit 8 w), ucast w]"

definition encode_cstr :: "string \<Rightarrow> byte list" where
  "encode_cstr s = map byte_of_char s @ [0]"

definition encode_attribute :: "attribute \<Rightarrow> byte list" where
  "encode_attribute a = at_flags a # encode_cstr (at_name a) @ u32_be (at_oid a) @ u32_be (at_mod a)"

fun encode_value :: "wire_value \<Rightarrow> byte list" where
  "encode_value W_null = [0x6E]"
| "encode_value W_unchanged = [0x75]"
| "encode_value (W_text s) = 0x74 # u32_be (of_nat (length s)) @ map byte_of_char s"

fun encode :: "wire \<Rightarrow> byte list" where
  "encode (W_begin rest) = 0x42 # rest"
| "encode (W_commit rest) = 0x43 # rest"
| "encode (W_relation i namespace name identity attrs) =
    0x52 # u32_be i @ encode_cstr namespace @ encode_cstr name @ [identity] @
      u16_be (of_nat (length attrs)) @ concat (map encode_attribute attrs)"
| "encode (W_insert i values) =
    0x49 # u32_be i @ [0x4E] @ u16_be (of_nat (length values)) @ concat (map encode_value values)"
| "encode (W_other tag rest) = tag # rest"

fun value_meaning :: "wire_value \<Rightarrow> string option" where
  "value_meaning (W_text s) = Some s"
| "value_meaning _ = None"

fun meaning :: "wire \<Rightarrow> Message" where
  "meaning (W_begin _) = Begin"
| "meaning (W_commit _) = Commit"
| "meaning (W_relation i namespace name _ attrs) =
    Relation_msg \<lparr>rel_id = i, rel_namespace = namespace, rel_name = name, rel_column_names = map at_name attrs\<rparr>"
| "meaning (W_insert i values) = Insert i (map value_meaning values)"
| "meaning (W_other tag _) = Other tag"

definition wire_ok :: "wire \<Rightarrow> bool" where
  "wire_ok w \<longleftrightarrow> message_ok (meaning w) \<and> int (length (encode w)) \<le> usize_max"

section \<open>Reading what was written\<close>

text \<open>A reader at the start of \<open>bs\<close>, anywhere in a buffer, returns \<open>x\<close> and stops behind \<open>bs\<close>.\<close>

definition reads :: "'a reader \<Rightarrow> byte list \<Rightarrow> 'a \<Rightarrow> bool" where
  "reads f bs x \<longleftrightarrow> (\<forall>pre post. int (length (pre @ bs @ post)) \<le> usize_max \<longrightarrow>
    f \<lparr>rd_buf = pre @ bs @ post, rd_pos = length pre\<rparr> =
      Inr (x, \<lparr>rd_buf = pre @ bs @ post, rd_pos = length pre + length bs\<rparr>))"

lemma readsD:
  "reads f bs x \<Longrightarrow> int (length (pre @ bs @ post)) \<le> usize_max \<Longrightarrow>
    f \<lparr>rd_buf = pre @ bs @ post, rd_pos = length pre\<rparr> =
      Inr (x, \<lparr>rd_buf = pre @ bs @ post, rd_pos = length pre + length bs\<rparr>)"
  unfolding reads_def by blast

lemma reads_return: "reads (read_return x) [] x"
  by (simp add: reads_def read_return_def)

lemma reads_bind:
  assumes "reads f bs x" "reads (g x) cs y"
  shows "reads (read_bind f g) (bs @ cs) y"
  unfolding reads_def
proof (intro allI impI)
  fix pre post assume n: "int (length (pre @ (bs @ cs) @ post)) \<le> usize_max"
  have "f \<lparr>rd_buf = pre @ bs @ (cs @ post), rd_pos = length pre\<rparr> =
      Inr (x, \<lparr>rd_buf = pre @ bs @ (cs @ post), rd_pos = length pre + length bs\<rparr>)"
    by (rule readsD[OF assms(1)]) (use n in simp)
  moreover have "g x \<lparr>rd_buf = (pre @ bs) @ cs @ post, rd_pos = length (pre @ bs)\<rparr> =
      Inr (y, \<lparr>rd_buf = (pre @ bs) @ cs @ post, rd_pos = length (pre @ bs) + length cs\<rparr>)"
    by (rule readsD[OF assms(2)]) (use n in simp)
  ultimately show "read_bind f g \<lparr>rd_buf = pre @ (bs @ cs) @ post, rd_pos = length pre\<rparr> =
      Inr (y, \<lparr>rd_buf = pre @ (bs @ cs) @ post, rd_pos = length pre + length (bs @ cs)\<rparr>)"
    by (simp add: read_bind_def)
qed

lemma reads_map: "reads f bs x \<Longrightarrow> reads (read_bind f (\<lambda>x. read_return (h x))) bs (h x)"
  using reads_bind[of f bs x "\<lambda>x. read_return (h x)" "[]" "h x"] by (simp add: reads_return)

lemma reads_take: "length bs = n \<Longrightarrow> reads (read_take n) bs bs"
  by (auto simp: reads_def read_take_def slice_def Let_def)

text \<open>An encoding \<open>enc\<close> of values that the reader \<open>rd\<close> takes back to \<open>val\<close>.\<close>

locale codec =
  fixes rd :: "'a reader" and enc :: "'w \<Rightarrow> byte list" and val :: "'w \<Rightarrow> 'a" and ok :: "'w \<Rightarrow> bool"
  assumes reads_enc: "ok w \<Longrightarrow> reads rd (enc w) (val w)"
begin

lemma reads_then: "ok w \<Longrightarrow> reads (g (val w)) cs y \<Longrightarrow> reads (read_bind rd g) (enc w @ cs) y"
  by (rule reads_bind[OF reads_enc])

lemma reads_many: "list_all ok ws \<Longrightarrow> reads (read_many (length ws) rd) (concat (map enc ws)) (map val ws)"
proof (induction ws)
  case (Cons w ws)
  then have "reads (read_bind (read_many (length ws) rd) (\<lambda>xs. read_return (val w # xs)))
      (concat (map enc ws)) (val w # map val ws)"
    by (intro reads_map) simp
  then show ?case using Cons.prems by (simp add: reads_then)
qed (simp add: reads_return)

lemma reads_many_then:
  "list_all ok ws \<Longrightarrow> n = length ws \<Longrightarrow> reads (g (map val ws)) cs y \<Longrightarrow>
    reads (read_bind (read_many n rd) g) (concat (map enc ws) @ cs) y"
  by (simp add: reads_bind[OF reads_many])

end

lemma from_be_u16: "from_be_bytes (u16_be w) = w"
  by (rule bit_word_eqI) (auto simp: from_be_bytes_def u16_be_def bit_simps)

lemma from_be_u32: "from_be_bytes (u32_be w) = w"
proof (rule bit_word_eqI)
  fix n :: nat assume "n < LENGTH(32)"
  then show "bit (from_be_bytes (u32_be w) :: 32 word) n = bit w n"
    by (cases "n < 8"; cases "n < 16"; cases "n < 24") (auto simp: from_be_bytes_def u32_be_def bit_simps)
qed

lemma bind_return: "read_bind (read_return x) g = g x"
  by (rule ext) (simp add: read_bind_def read_return_def)

lemma reads_array:
  assumes "length bs = n"
  shows "reads (read_bind (read_take n) (\<lambda>bs. read_bind (array n bs) (\<lambda>a. read_return (f a)))) bs (f bs)"
proof -
  have "read_bind (array n bs) (\<lambda>a. read_return (f a)) = read_return (f bs)"
    using assms by (simp add: array_def bind_return)
  from reads_bind[OF reads_take[OF assms], of "\<lambda>bs. read_bind (array n bs) (\<lambda>a. read_return (f a))" "[]" "f bs"] this
  show ?thesis by (simp add: reads_return)
qed

interpretation u8: codec read_u8 "\<lambda>b. [b]" "\<lambda>b. b" "\<lambda>_. True"
proof
  fix w :: byte
  show "reads read_u8 [w] w"
    using reads_bind[OF reads_take, of "[w]" 1 "\<lambda>bs. case bs of [] \<Rightarrow> read_fail Panic | b # _ \<Rightarrow> read_return b" "[]" w]
    by (simp add: read_u8_def reads_return)
qed

interpretation u16: codec read_u16 u16_be "\<lambda>w. w" "\<lambda>_. True"
proof
  fix w :: "16 word"
  have "length (u16_be w) = 2" by (simp add: u16_be_def)
  from reads_array[OF this, of "from_be_bytes :: byte list \<Rightarrow> 16 word"] show "reads read_u16 (u16_be w) w"
    by (simp only: read_u16_def from_be_u16)
qed

lemma length_u32_be: "length (u32_be w) = 4"
  by (simp add: u32_be_def)

interpretation u32: codec read_u32 u32_be "\<lambda>w. w" "\<lambda>_. True"
proof
  fix w :: "32 word"
  from reads_array[OF length_u32_be, of "from_be_bytes :: byte list \<Rightarrow> 32 word" w] show "reads read_u32 (u32_be w) w"
    by (simp only: read_u32_def from_be_u32)
qed

interpretation i32: codec read_i32 u32_be sint "\<lambda>_. True"
proof
  fix w :: "32 word"
  from reads_array[OF length_u32_be, of "\<lambda>a. sint (from_be_bytes a :: 32 word)" w]
  show "reads read_i32 (u32_be w) (sint w)" by (simp only: read_i32_def from_be_u32)
qed

lemma position_append: "list_all (\<lambda>x. \<not> P x) xs \<Longrightarrow> P y \<Longrightarrow> find_position P (xs @ y # ys) = Some (length xs)"
  by (induction xs) auto

interpretation cstr: codec read_cstr encode_cstr "\<lambda>s. s" c_string
proof
  fix s assume s: "c_string s"
  then have nz: "list_all (\<lambda>b. b \<noteq> 0) (map byte_of_char s)" and u: "from_utf8 (map byte_of_char s) = Some s"
    by (auto simp: c_string_def list_all_iff from_utf8_Some)
  have "find_position (\<lambda>b. b = 0) (map byte_of_char s @ 0 # post) = Some (length s)" for post
    using position_append[of "\<lambda>b. b = 0" "map byte_of_char s" 0 post] nz by simp
  then show "reads read_cstr (encode_cstr s) s"
    using u by (simp add: reads_def read_cstr_def slice_def encode_cstr_def)
qed

interpretation attribute: codec read_relation_column encode_attribute at_name "\<lambda>a. c_string (at_name a)"
proof
  fix a :: attribute assume a: "c_string (at_name a)"
  have "reads read_relation_column
      ([at_flags a] @ encode_cstr (at_name a) @ u32_be (at_oid a) @ u32_be (at_mod a) @ []) (at_name a)"
    unfolding read_relation_column_def
    by (intro u8.reads_then cstr.reads_then u32.reads_then i32.reads_then reads_return a TrueI)
  then show "reads read_relation_column (encode_attribute a) (at_name a)" by (simp add: encode_attribute_def)
qed

lemma sint_length: "n < 2 ^ 31 \<Longrightarrow> sint (of_nat n :: 32 word) = int n"
  by (simp add: signed_of_nat signed_take_bit_int_eq_self)

interpretation column: codec read_column encode_value value_meaning "\<lambda>v. column_ok (value_meaning v)"
proof
  fix v assume ok: "column_ok (value_meaning v)"
  show "reads read_column (encode_value v) (value_meaning v)"
  proof (cases v)
    case (W_text s)
    let ?n = "of_nat (length s) :: 32 word"
    have s: "from_utf8 (map byte_of_char s) = Some s" "sint ?n = int (length s)"
      using ok W_text by (simp_all add: column_ok_def from_utf8_Some sint_length)
    have "reads (read_bind (read_take (nat (sint ?n))) (\<lambda>bytes.
        case from_utf8 bytes of None \<Rightarrow> read_fail Non_utf8_value | Some s \<Rightarrow> read_return (Some s)))
      (map byte_of_char s @ []) (Some s)"
      by (rule reads_bind[OF reads_take]) (simp_all add: s reads_return)
    then have "reads read_column ([0x74] @ u32_be ?n @ (map byte_of_char s @ [])) (Some s)"
      unfolding read_column_def by (intro u8.reads_then TrueI) (simp, intro i32.reads_then TrueI, simp add: s)
    then show ?thesis using W_text by simp
  qed (auto simp: read_column_def reads_return intro!: u8.reads_then[of _ _ "[]", simplified])
qed

text \<open>A structural message is read up to its tag, the others to their end.\<close>

fun payload :: "wire \<Rightarrow> byte list" where
  "payload (W_begin _) = [0x42]"
| "payload (W_commit _) = [0x43]"
| "payload (W_other tag _) = [tag]"
| "payload w = encode w"

lemma reads_relation:
  assumes "message_ok (meaning (W_relation i namespace name identity attrs))"
  shows "reads read_message (encode (W_relation i namespace name identity attrs))
    (meaning (W_relation i namespace name identity attrs))"
proof -
  have ok: "c_string namespace" "c_string name" "list_all (\<lambda>a. c_string (at_name a)) attrs"
    "unat (of_nat (length attrs) :: 16 word) = length attrs"
    using assms by (simp_all add: list_all_iff unsigned_of_nat take_bit_nat_eq_self)
  have "reads read_relation (u32_be i @ encode_cstr namespace @ encode_cstr name @ [identity] @
      u16_be (of_nat (length attrs)) @ concat (map encode_attribute attrs) @ [])
    (meaning (W_relation i namespace name identity attrs))"
    unfolding read_relation_def meaning.simps
    by (intro u32.reads_then cstr.reads_then u8.reads_then u16.reads_then attribute.reads_many_then
        ok reads_return TrueI)
  then have "reads read_message ([0x52] @ u32_be i @ encode_cstr namespace @ encode_cstr name @ [identity] @
      u16_be (of_nat (length attrs)) @ concat (map encode_attribute attrs) @ [])
    (meaning (W_relation i namespace name identity attrs))"
    unfolding read_message_def by (intro u8.reads_then TrueI) simp
  then show ?thesis by simp
qed

lemma reads_insert:
  assumes "message_ok (meaning (W_insert i values))"
  shows "reads read_message (encode (W_insert i values)) (meaning (W_insert i values))"
proof -
  have ok: "list_all (\<lambda>v. column_ok (value_meaning v)) values"
    "unat (of_nat (length values) :: 16 word) = length values"
    using assms by (simp_all add: list_all_iff unsigned_of_nat take_bit_nat_eq_self)
  have tail: "reads (read_bind read_u16 (\<lambda>ncols. read_bind (read_many (unat ncols) read_column) (\<lambda>columns.
      read_return (Insert i columns))))
    (u16_be (of_nat (length values)) @ concat (map encode_value values) @ []) (Insert i (map value_meaning values))"
    by (intro u16.reads_then column.reads_many_then ok reads_return TrueI)
  have "reads read_insert (u32_be i @ [0x4E] @ u16_be (of_nat (length values)) @ concat (map encode_value values) @ [])
      (Insert i (map value_meaning values))"
    unfolding read_insert_def by (intro u32.reads_then u8.reads_then TrueI) (use tail in simp)
  then have "reads read_message ([0x49] @ u32_be i @ [0x4E] @ u16_be (of_nat (length values)) @
      concat (map encode_value values) @ []) (Insert i (map value_meaning values))"
    unfolding read_message_def by (intro u8.reads_then TrueI) simp
  then show ?thesis by simp
qed

lemma reads_message:
  assumes "message_ok (meaning w)"
  shows "reads read_message (payload w) (meaning w)"
proof -
  have tag: "reads read_message [t] m" if "(if t = 0x42 then read_return Begin
      else if t = 0x43 then read_return Commit else if t = 0x52 then read_relation else if t = 0x49 then read_insert
      else if t = 0x59 \<or> t = 0x4F \<or> t = 0x4D \<or> t = 0x54 then read_return (Other t)
      else read_fail (Unknown_tag t)) = read_return m" for t m
    using u8.reads_then[where w = t and cs = "[]" and y = m] that unfolding read_message_def by (simp add: reads_return)
  show ?thesis
  proof (cases w)
    case (W_relation i namespace name identity attrs)
    then show ?thesis using reads_relation assms by simp
  next
    case (W_insert i vs)
    then show ?thesis using reads_insert assms by simp
  qed (use assms in \<open>auto intro!: tag\<close>)
qed

section \<open>Properties\<close>

text \<open>
  C25. The parser never reads out of bounds. Whatever bytes arrive, it neither panics on a slice, an
  index or an array conversion, and when it returns a message every string in it is valid UTF-8, the
  names hold no NUL, a relation or a tuple has fewer than 65536 columns and a column value fewer than
  2 to the 31 bytes.
\<close>
theorem parse_in_bounds:
  "case parse data of Inl e \<Rightarrow> e \<noteq> Panic | Inr m \<Rightarrow> message_ok m"
proof -
  have "in_range (new_reader data)" by (simp add: in_range_def new_reader_def)
  from reads_safelyD[OF safe_message this] show ?thesis
    by (cases "read_message (new_reader data)") (auto simp: parse_def)
qed

text \<open>
  C26. Parsing inverts the protocol's encoding: for every message the server can send, the parser
  returns the relation with the names of its columns, the tuple with NULL for a null or unchanged
  value, or the structural message, and skips the rest.
\<close>
theorem parse_encode:
  assumes "wire_ok w"
  shows "parse (encode w) = Inr (meaning w)"
proof -
  have ok: "message_ok (meaning w)" "int (length (encode w)) \<le> usize_max" using assms by (simp_all add: wire_ok_def)
  obtain rest where rest: "encode w = [] @ payload w @ rest" by (cases w) auto
  show ?thesis
    using readsD[OF reads_message[OF ok(1)], of "[]" rest] ok(2) rest by (simp add: parse_def new_reader_def)
qed

theorem parse_encode_witness:
  "parse (encode (W_insert 100 [W_text ''7'', W_null])) = Inr (Insert 100 [Some ''7'', None])"
proof -
  have "utf8_valid (map byte_of_char ''7'')" by code_simp
  then have "wire_ok (W_insert 100 [W_text ''7'', W_null])"
    by (simp add: wire_ok_def column_ok_def rust_string_def u32_be_def u16_be_def usize_max_def)
  from parse_encode[OF this] show ?thesis by simp
qed

end
