(* ===== verification/Consumer.thy ===== *)
theory Consumer
  imports Close Pgoutput
begin

text \<open>
  The feed consumer, \<open>ledger-feed/src/consumer.rs\<close>, and the reseed of migration 0028: read the changes
  of the replication slot, record them in the dirty set of the engine, then move the cursor.

  What the server does outside the tables is a parameter: the row of the view \<open>feed_slot_health\<close>, the
  rows that \<open>pg_logical_slot_peek_binary_changes\<close> returns, the current WAL position, the cast
  \<open>to_ts\<close> from text to \<open>timestamptz\<close>, and \<open>slot_advance\<close>, the call that moves the cursor and that may
  fail after the batch is committed. A WAL position is an integer.
\<close>

type_synonym lsn = int

section \<open>Data\<close>

datatype FeedError =
    Feed_db pg_error
  | Feed_parse ParseError
  | Feed_protocol string string
  | Feed_slot_lost string

record TrxLineEvent =
  te_line_id :: i64
  te_pool_id :: i64
  te_posted_at :: string
  te_line_type :: string

record PeekBatch =
  pb_messages :: nat
  pb_events :: "TrxLineEvent list"
  pb_last_lsn :: "lsn option"

record IngestReport =
  ir_messages :: nat
  ir_inserts :: nat
  ir_marked :: nat
  ir_lowered :: nat
  ir_throttled :: nat
  ir_advanced :: "lsn option"

record SlotHealth =
  sh_present :: bool
  sh_lost :: bool
  sh_invalidation :: "string option"

text \<open>The database and the confirmed position of the slot.\<close>

record Feed =
  fd_db :: db
  fd_confirmed :: lsn

section \<open>Decoding\<close>

text \<open>\<open>str::parse::<i64>\<close>: an optional sign, then at least one digit and nothing else, in range.\<close>

definition digit :: "char \<Rightarrow> nat option" where
  "digit c = (let n = of_char c :: nat in if 48 \<le> n \<and> n \<le> 57 then Some (n - 48) else None)"

fun digits :: "string \<Rightarrow> nat \<Rightarrow> nat option" where
  "digits [] acc = Some acc"
| "digits (c # cs) acc = (case digit c of None \<Rightarrow> None | Some d \<Rightarrow> digits cs (10 * acc + d))"

definition parse_i64 :: "string \<Rightarrow> i64 option" where
  "parse_i64 s =
    (let (sign, body) = (case s of
        [] \<Rightarrow> (1, [])
      | c # cs \<Rightarrow> if c = CHR ''-'' then (- 1, cs) else if c = CHR ''+'' then (1, cs) else (1, s))
     in if body = [] then None
        else Option.bind (digits body 0) (\<lambda>n. try_i64 (sign * int n)))"

definition event_column :: "Relation \<Rightarrow> string option list \<Rightarrow> string \<Rightarrow> FeedError + string" where
  "event_column rel columns name =
    (case find_position (\<lambda>c. c = name) (rel_column_names rel) of
       None \<Rightarrow> Inl (Feed_protocol ''trx_line has no column'' name)
     | Some idx \<Rightarrow>
         (case if idx < length columns then columns ! idx else None of
            None \<Rightarrow> Inl (Feed_protocol ''trx_line column is null'' name)
          | Some v \<Rightarrow> Inr v))"

definition event_int :: "Relation \<Rightarrow> string option list \<Rightarrow> string \<Rightarrow> FeedError + i64" where
  "event_int rel columns name =
    and_then (event_column rel columns name) (\<lambda>v.
    case parse_i64 v of None \<Rightarrow> Inl (Feed_protocol ''trx_line column not an int'' name) | Some i \<Rightarrow> Inr i)"

definition decode_trx_line :: "Relation \<Rightarrow> string option list \<Rightarrow> FeedError + TrxLineEvent" where
  "decode_trx_line rel columns =
    and_then (event_int rel columns ''id'') (\<lambda>i.
    and_then (event_int rel columns ''pool_id'') (\<lambda>p.
    and_then (event_column rel columns ''posted_at'') (\<lambda>t.
    and_then (event_column rel columns ''line_type'') (\<lambda>l.
    Inr \<lparr>te_line_id = i, te_pool_id = p, te_posted_at = t, te_line_type = l\<rparr>))))"

fun peek_loop ::
  "(lsn \<times> byte list) list \<Rightarrow> (32 word \<rightharpoonup> Relation) \<Rightarrow> TrxLineEvent list \<Rightarrow> lsn option \<Rightarrow>
    FeedError + TrxLineEvent list \<times> lsn option" where
  "peek_loop [] relations events last_lsn = Inr (events, last_lsn)"
| "peek_loop ((lsn, data) # rows) relations events last_lsn =
    (case parse data of
       Inl e \<Rightarrow> Inl (Feed_parse e)
     | Inr (Relation_msg rel) \<Rightarrow> peek_loop rows (relations(rel_id rel \<mapsto> rel)) events (Some lsn)
     | Inr (Insert i columns) \<Rightarrow>
         (case relations i of
            None \<Rightarrow> Inl (Feed_protocol ''insert for unknown relation'' [])
          | Some rel \<Rightarrow>
              if rel_name rel = ''trx_line''
              then and_then (decode_trx_line rel columns) (\<lambda>ev. peek_loop rows relations (events @ [ev]) (Some lsn))
              else peek_loop rows relations events (Some lsn))
     | Inr _ \<Rightarrow> peek_loop rows relations events (Some lsn))"

definition peek :: "(lsn \<times> byte list) list \<Rightarrow> FeedError + PeekBatch" where
  "peek rows =
    and_then (peek_loop rows Map.empty [] None) (\<lambda>(events, last_lsn).
      Inr \<lparr>pb_messages = length rows, pb_events = events, pb_last_lsn = last_lsn\<rparr>)"

section \<open>Recording a batch\<close>

definition counts :: "TrxLineEvent \<Rightarrow> bool" where
  "counts e \<longleftrightarrow> te_line_type e \<noteq> cost_adjustment_line"

text \<open>The common table expressions \<open>ev\<close> and \<open>mins\<close>: the physical events of the batch, cast, and the
  least position of each pool.\<close>

fun cast_events :: "(string \<Rightarrow> timestamp option) \<Rightarrow> TrxLineEvent list \<Rightarrow> pg_error + (i64 \<times> position) list" where
  "cast_events to_ts [] = Inr []"
| "cast_events to_ts (e # es) =
    (case to_ts (te_posted_at e) of
       None \<Rightarrow> Inl (Invalid_text ''timestamptz'')
     | Some t \<Rightarrow> and_then (cast_events to_ts es) (\<lambda>ps. Inr ((te_pool_id e, (t, te_line_id e)) # ps)))"

definition batch_min :: "(i64 \<times> position) list \<Rightarrow> i64 \<Rightarrow> position option" where
  "batch_min ps p =
    (case sort (map snd (filter (\<lambda>x. fst x = p) ps)) of [] \<Rightarrow> None | m # _ \<Rightarrow> Some m)"

definition floor_target :: "(i64 \<times> position) list \<Rightarrow> settlement_row \<Rightarrow> position option" where
  "floor_target ps r =
    Option.bind (batch_min ps (se_pool_id r)) (\<lambda>m.
      case se_settled_through r of
        None \<Rightarrow> None
      | Some f \<Rightarrow>
          if m < f \<and> (case se_recost_floor r of None \<Rightarrow> True | Some fl \<Rightarrow> m < fl) then Some m else None)"

definition lower_floors :: "(string \<Rightarrow> timestamp option) \<Rightarrow> TrxLineEvent list \<Rightarrow> nat tx" where
  "lower_floors to_ts events s =
    and_then (cast_events to_ts (filter counts events)) (\<lambda>ps.
      Inr (length (filter (\<lambda>r. floor_target ps r \<noteq> None) (db_settlement s)),
        s\<lparr>db_settlement := map (\<lambda>r. case floor_target ps r of
            None \<Rightarrow> r | Some m \<Rightarrow> r\<lparr>se_recost_floor := Some m\<rparr>) (db_settlement s)\<rparr>))"

definition counted :: "TrxLineEvent list \<Rightarrow> db \<Rightarrow> (i64 \<times> nat) list" where
  "counted events s =
    (let es = filter (\<lambda>e. counts e \<and> (case pool_of s (te_pool_id e) of
            None \<Rightarrow> False | Some r \<Rightarrow> strict_method (pl_method r))) events
     in map (\<lambda>p. (p, length (filter (\<lambda>e. te_pool_id e = p) es))) (sort (remdups (map te_pool_id es))))"

definition bump_pool :: "i64 \<times> nat \<Rightarrow> (i64 \<times> i64) tx" where
  "bump_pool x s =
    and_then (to_bigint ((case find_key fst (db_backlog s) (fst x) of None \<Rightarrow> 0 | Some (_, n) \<Rightarrow> n) + int (snd x)))
      (\<lambda>n. Inr ((fst x, n), s\<lparr>db_backlog := put_key fst (fst x, n) (db_backlog s)\<rparr>))"

definition engage_pool :: "i64 \<times> i64 \<Rightarrow> bool tx" where
  "engage_pool x s =
    (if snd x < db_bound_events s \<or> find_key fst (db_backpressure s) (fst x) \<noteq> None then Inr (False, s)
     else Inr (True, s\<lparr>db_backpressure := db_backpressure s @ [x]\<rparr>))"

definition bump_backlog :: "TrxLineEvent list \<Rightarrow> nat tx" where
  "bump_backlog events =
    tx_bind (\<lambda>s. tx_map bump_pool (counted events s) s) (\<lambda>bumped.
    tx_bind (tx_map engage_pool bumped) (\<lambda>engaged.
    tx_return (length (filter (\<lambda>b. b) engaged))))"

definition mark_pool :: "i64 \<Rightarrow> bool tx" where
  "mark_pool p s =
    (if find_key qu_pool_id (db_queue s) p \<noteq> None then Inr (False, s)
     else if pool_of s p = None then Inl (Foreign_key_violation ''recalc_queue_pool_id_fkey'')
     else Inr (True, s\<lparr>db_queue := db_queue s @ [\<lparr>qu_pool_id = p, qu_enqueued_at = db_now s\<rparr>]\<rparr>))"

definition mark_pools :: "i64 list \<Rightarrow> nat tx" where
  "mark_pools ps = tx_bind (tx_map mark_pool (remdups ps)) (\<lambda>ms. tx_return (length (filter (\<lambda>b. b) ms)))"

definition apply_events :: "(string \<Rightarrow> timestamp option) \<Rightarrow> TrxLineEvent list \<Rightarrow> (nat \<times> nat \<times> nat) tx" where
  "apply_events to_ts events =
    tx_bind (lower_floors to_ts events) (\<lambda>lowered.
    tx_bind (bump_backlog events) (\<lambda>throttled.
    tx_bind (mark_pools (map te_pool_id events)) (\<lambda>marked.
    tx_return (marked, lowered, throttled))))"

section \<open>The tick\<close>

definition check_slot_usable :: "SlotHealth option \<Rightarrow> FeedError + unit" where
  "check_slot_usable health =
    (case health of
       None \<Rightarrow> Inr ()
     | Some h \<Rightarrow>
         if \<not> sh_present h then Inl (Feed_slot_lost ''slot absent'')
         else
           (case sh_invalidation h of
              Some reason \<Rightarrow> Inl (Feed_slot_lost reason)
            | None \<Rightarrow> if sh_lost h then Inl (Feed_slot_lost ''wal_status=lost'') else Inr ()))"

definition advance :: "(lsn \<Rightarrow> lsn \<Rightarrow> pg_error + lsn) \<Rightarrow> lsn \<Rightarrow> lsn \<Rightarrow> pg_error + lsn option \<times> lsn" where
  "advance slot_advance target confirmed =
    (if confirmed < target
     then and_then (slot_advance confirmed target) (\<lambda>l. Inr (Some l, l))
     else Inr (None, confirmed))"

text \<open>The batch is one transaction, the move of the cursor another: a failure of the second leaves the
  first committed.\<close>

definition ingest_once ::
  "(string \<Rightarrow> timestamp option) \<Rightarrow> (lsn \<Rightarrow> lsn \<Rightarrow> pg_error + lsn) \<Rightarrow> SlotHealth option \<Rightarrow> lsn \<Rightarrow>
    (lsn \<times> byte list) list \<Rightarrow> Feed \<Rightarrow> (FeedError + IngestReport) \<times> Feed" where
  "ingest_once to_ts slot_advance health pre_lsn rows feed =
    (case and_then (check_slot_usable health) (\<lambda>_. peek rows) of
       Inl e \<Rightarrow> (Inl e, feed)
     | Inr batch \<Rightarrow>
         (case if pb_events batch = [] then Inr ((0, 0, 0), fd_db feed)
               else apply_events to_ts (pb_events batch) (fd_db feed) of
            Inl e \<Rightarrow> (Inl (Feed_db e), feed)
          | Inr ((marked, lowered, throttled), s') \<Rightarrow>
              (let target = (case pb_last_lsn batch of None \<Rightarrow> pre_lsn | Some l \<Rightarrow> l) in
               case advance slot_advance target (fd_confirmed feed) of
                 Inl e \<Rightarrow> (Inl (Feed_db e), feed\<lparr>fd_db := s'\<rparr>)
               | Inr (advanced, confirmed) \<Rightarrow>
                   (Inr \<lparr>ir_messages = pb_messages batch, ir_inserts = length (pb_events batch),
                      ir_marked = marked, ir_lowered = lowered, ir_throttled = throttled, ir_advanced = advanced\<rparr>,
                    \<lparr>fd_db = s', fd_confirmed = confirmed\<rparr>))))"

section \<open>Recovery\<close>

definition reseed_scope :: "db \<Rightarrow> (i64 \<times> position) list" where
  "reseed_scope s =
    concat (map (\<lambda>p. if strict_method (pl_method p)
        then (case sort (map line_pos (filter (physical (pl_id p)) (db_trx_line s))) of
                [] \<Rightarrow> [] | m # _ \<Rightarrow> [(pl_id p, m)])
        else []) (db_pool s))"

definition reseed_floor :: "i64 \<times> position \<Rightarrow> unit tx" where
  "reseed_floor x s =
    Inr ((), s\<lparr>db_settlement := put_key se_pool_id
      (case settlement_of s (fst x) of
         None \<Rightarrow> \<lparr>se_pool_id = fst x, se_generation = 0, se_settled_through = None, se_recost_floor = Some (snd x)\<rparr>
       | Some r \<Rightarrow> r\<lparr>se_recost_floor := Some (case se_recost_floor r of
           None \<Rightarrow> snd x | Some fl \<Rightarrow> if snd x < fl then snd x else fl)\<rparr>) (db_settlement s)\<rparr>)"

definition ledger_feed_reseed :: "i64 tx" where
  "ledger_feed_reseed s =
    (let scope = reseed_scope s in
     tx_bind (tx_iter reseed_floor scope) (\<lambda>_.
     tx_bind (tx_map mark_pool (map fst scope)) (\<lambda>_.
     tx_return (int (length scope)))) s)"

definition ensure_slot_with_recovery :: "bool \<Rightarrow> (bool \<times> i64 option) tx" where
  "ensure_slot_with_recovery created s =
    (if \<not> created then Inr ((False, None), s)
     else if \<not> list_ex (\<lambda>r. tl_line_type r \<noteq> cost_adjustment_line) (db_trx_line s) then Inr ((True, None), s)
     else tx_bind ledger_feed_reseed (\<lambda>n. tx_return (True, Some n)) s)"

section \<open>What recording a batch changes\<close>

lemma tx_map_frame:
  assumes "tx_map f xs s = Inr (ys, s')" "\<And>x s y s'. f x s = Inr (y, s') \<Longrightarrow> h s' = h s"
  shows "h s' = h s"
  using assms(1) by (induction xs arbitrary: s ys) (auto simp: tx_bind_Inr dest!: assms(2))

definition lowered :: "(i64 \<times> position) list \<Rightarrow> settlement_row \<Rightarrow> settlement_row" where
  "lowered ps r = (case floor_target ps r of None \<Rightarrow> r | Some m \<Rightarrow> r\<lparr>se_recost_floor := Some m\<rparr>)"

lemma lowered_simps [simp]:
  "se_pool_id (lowered ps r) = se_pool_id r" "se_generation (lowered ps r) = se_generation r"
  "se_settled_through (lowered ps r) = se_settled_through r"
  by (simp_all add: lowered_def split: option.split)

lemma lower_floors_ok:
  assumes "lower_floors to_ts events s = Inr (n, s')"
  obtains ps where "cast_events to_ts (filter counts events) = Inr ps"
    "s' = s\<lparr>db_settlement := map (lowered ps) (db_settlement s)\<rparr>"
  using assms by (auto simp: lower_floors_def and_then_Inr lowered_def[abs_def])

lemma bump_pool_frame:
  "bump_pool x s = Inr (y, s') \<Longrightarrow> s'\<lparr>db_backlog := [], db_backpressure := []\<rparr> = s\<lparr>db_backlog := [], db_backpressure := []\<rparr>"
  by (auto simp: bump_pool_def and_then_Inr)

lemma engage_pool_frame:
  "engage_pool x s = Inr (y, s') \<Longrightarrow> s'\<lparr>db_backlog := [], db_backpressure := []\<rparr> = s\<lparr>db_backlog := [], db_backpressure := []\<rparr>"
  by (auto simp: engage_pool_def split: if_splits)

lemma bump_backlog_ok:
  assumes "bump_backlog events s = Inr (n, s')"
  shows "s' = s\<lparr>db_backlog := db_backlog s', db_backpressure := db_backpressure s'\<rparr>"
proof -
  let ?h = "\<lambda>s. s\<lparr>db_backlog := [], db_backpressure := []\<rparr>"
  obtain bumped engaged s1 where 1: "tx_map bump_pool (counted events s) s = Inr (bumped, s1)"
    and 2: "tx_map engage_pool bumped s1 = Inr (engaged, s')"
    using assms by (auto simp: bump_backlog_def tx_bind_Inr)
  have "?h s1 = ?h s" by (rule tx_map_frame[OF 1]) (rule bump_pool_frame)
  moreover have "?h s' = ?h s1" by (rule tx_map_frame[OF 2]) (rule engage_pool_frame)
  ultimately have "?h s' = ?h s" by simp
  from arg_cong[OF this, of "\<lambda>x. x\<lparr>db_backlog := db_backlog s', db_backpressure := db_backpressure s'\<rparr>"]
  show ?thesis by simp
qed

definition queued :: "db \<Rightarrow> i64 \<Rightarrow> bool" where
  "queued s p \<longleftrightarrow> p \<in> qu_pool_id ` set (db_queue s)"

lemma queued_find: "queued s p \<longleftrightarrow> find_key qu_pool_id (db_queue s) p \<noteq> None"
  by (auto simp: queued_def find_key_None)

lemma mark_pool_ok:
  assumes "mark_pool p s = Inr (m, s')"
  shows "s' = s\<lparr>db_queue := db_queue s'\<rparr>" "queued s' q \<longleftrightarrow> queued s q \<or> q = p" "queued s p \<Longrightarrow> s' = s \<and> \<not> m"
  using assms by (auto simp: mark_pool_def queued_find[symmetric] simp del: not_None_eq split: if_splits)
    (auto simp: queued_def)

lemma mark_all_ok:
  assumes "tx_map mark_pool ps s = Inr (ms, s')"
  shows "s' = s\<lparr>db_queue := db_queue s'\<rparr> \<and> (\<forall>q. queued s' q \<longleftrightarrow> queued s q \<or> q \<in> set ps) \<and>
    ((\<forall>p\<in>set ps. queued s p) \<longrightarrow> s' = s \<and> list_all Not ms)"
  using assms
proof (induction ps arbitrary: s ms)
  case (Cons p ps)
  obtain m s1 ms' where m: "mark_pool p s = Inr (m, s1)" and rest: "tx_map mark_pool ps s1 = Inr (ms', s')"
    and ms: "ms = m # ms'"
    using Cons.prems by (auto simp: tx_bind_Inr)
  note step = mark_pool_ok[OF m] and ih = Cons.IH[OF rest]
  have "s' = s\<lparr>db_queue := db_queue s'\<rparr>"
  proof -
    have "s1\<lparr>db_queue := db_queue s'\<rparr> = s\<lparr>db_queue := db_queue s'\<rparr>" by (subst step(1)) simp
    then show ?thesis using ih by simp
  qed
  then show ?case using step(2,3) ih ms by auto
qed simp

text \<open>The whole batch: floors, counters, marks, and nothing else.\<close>

lemma apply_events_ok:
  assumes "apply_events to_ts events s = Inr ((marked, lowered_n, throttled), s')"
  obtains ps where "cast_events to_ts (filter counts events) = Inr ps"
    "s' = s\<lparr>db_settlement := map (lowered ps) (db_settlement s), db_backlog := db_backlog s',
      db_backpressure := db_backpressure s', db_queue := db_queue s'\<rparr>"
    "\<And>q. queued s' q \<longleftrightarrow> queued s q \<or> q \<in> te_pool_id ` set events"
    "\<forall>e\<in>set events. queued s (te_pool_id e) \<Longrightarrow> db_queue s' = db_queue s \<and> marked = 0"
    "lowered_n = length (filter (\<lambda>r. floor_target ps r \<noteq> None) (db_settlement s))"
proof -
  obtain s1 s2 where 1: "lower_floors to_ts events s = Inr (lowered_n, s1)"
    and 2: "bump_backlog events s1 = Inr (throttled, s2)" and 3: "mark_pools (map te_pool_id events) s2 = Inr (marked, s')"
    using assms by (auto simp: apply_events_def tx_bind_Inr)
  obtain ps where ps: "cast_events to_ts (filter counts events) = Inr ps"
    "s1 = s\<lparr>db_settlement := map (lowered ps) (db_settlement s)\<rparr>"
    by (rule lower_floors_ok[OF 1])
  obtain ms where ms: "tx_map mark_pool (remdups (map te_pool_id events)) s2 = Inr (ms, s')"
    "marked = length (filter (\<lambda>b. b) ms)"
    using 3 by (auto simp: mark_pools_def tx_bind_Inr)
  note s2 = bump_backlog_ok[OF 2] and m = mark_all_ok[OF ms(1)]
  have q: "db_queue s2 = db_queue s" by (subst s2) (simp add: ps(2))
  have b: "db_backlog s' = db_backlog s2" "db_backpressure s' = db_backpressure s2"
    by (subst m[THEN conjunct1], simp)+
  have "s' = s2\<lparr>db_queue := db_queue s'\<rparr>" using m by simp
  also have "\<dots> = s\<lparr>db_settlement := map (lowered ps) (db_settlement s), db_backlog := db_backlog s',
      db_backpressure := db_backpressure s', db_queue := db_queue s'\<rparr>"
    by (subst s2) (simp add: ps(2) b)
  finally show thesis
    by (rule that[OF ps(1)])
      (use m q ms(2) 1 ps(1) in \<open>auto simp: queued_def list_all_iff filter_empty_conv lower_floors_def and_then_Inr\<close>)
qed

lemma find_key_map: "(\<And>r. key (f r) = key r) \<Longrightarrow> find_key key (map f rows) k = map_option f (find_key key rows k)"
  unfolding find_key_def by (induction rows) auto

lemma batch_min_le:
  assumes "(p, m) \<in> set ps"
  obtains x where "batch_min ps p = Some x" "x \<le> m" "(p, x) \<in> set ps"
proof -
  let ?xs = "map snd (filter (\<lambda>x. fst x = p) ps)"
  have "m \<in> set ?xs" using assms by force
  then have "sort_key (\<lambda>x. x) ?xs \<noteq> []" by (metis empty_iff empty_set sort_key_Nil)
  then obtain x xs where x: "sort_key (\<lambda>x. x) ?xs = x # xs" by (meson list.exhaust)
  have "x \<in> set ?xs" "x \<le> m" using hd_sort_key[OF x] \<open>m \<in> _\<close> by blast+
  then show thesis using x by (intro that[of x]) (auto simp: batch_min_def)
qed

lemma cast_events_set:
  "cast_events to_ts es = Inr ps \<Longrightarrow> e \<in> set es \<Longrightarrow>
    \<exists>t. to_ts (te_posted_at e) = Some t \<and> (te_pool_id e, (t, te_line_id e)) \<in> set ps"
  by (induction es arbitrary: ps) (auto simp: and_then_Inr split: option.splits)

lemma applied_settlement:
  assumes "s' = s\<lparr>db_settlement := map (lowered ps) (db_settlement s), db_backlog := b, db_backpressure := bp, db_queue := q\<rparr>"
  shows "settlement_of s' p = map_option (lowered ps) (settlement_of s p)"
    "settled_of s' p = settled_of s p" "generation_of s' p = generation_of s p"
    "floor_of s p \<noteq> None \<Longrightarrow> floor_of s' p \<noteq> None"
proof -
  show st: "settlement_of s' p = map_option (lowered ps) (settlement_of s p)"
    by (simp add: settlement_of_def assms find_key_map)
  show "settled_of s' p = settled_of s p" "generation_of s' p = generation_of s p"
    by (cases "settlement_of s p"; simp add: settled_of_def generation_of_def st)+
  show "floor_of s p \<noteq> None \<Longrightarrow> floor_of s' p \<noteq> None"
    by (cases "settlement_of s p") (auto simp: floor_of_def st lowered_def split: option.split)
qed

text \<open>An event of a batch is on record: its pool is queued, and if it lies behind the frontier the
  pool has a floor no higher than it.\<close>

definition recorded :: "(string \<Rightarrow> timestamp option) \<Rightarrow> db \<Rightarrow> TrxLineEvent \<Rightarrow> bool" where
  "recorded to_ts s e \<longleftrightarrow> queued s (te_pool_id e) \<and>
    (counts e \<longrightarrow> (case (to_ts (te_posted_at e), settled_of s (te_pool_id e)) of
      (Some t, Some f) \<Rightarrow> (t, te_line_id e) < f \<longrightarrow>
        (case floor_of s (te_pool_id e) of None \<Rightarrow> False | Some fl \<Rightarrow> fl \<le> (t, te_line_id e))
    | _ \<Rightarrow> True))"

lemma lowered_floor:
  assumes "(se_pool_id r, m) \<in> set ps" "se_settled_through r = Some f" "m < f"
  shows "\<exists>fl. se_recost_floor (lowered ps r) = Some fl \<and> fl \<le> m"
proof (rule batch_min_le[OF assms(1)])
  fix x assume x: "batch_min ps (se_pool_id r) = Some x" "x \<le> m"
  then have f: "x < f" using assms(3) by simp
  show ?thesis
  proof (cases "case se_recost_floor r of None \<Rightarrow> True | Some fl \<Rightarrow> x < fl")
    case True
    then have "floor_target ps r = Some x" using x f assms(2) by (simp add: floor_target_def)
    then show ?thesis using x(2) by (simp add: lowered_def)
  next
    case False
    then obtain fl where fl: "se_recost_floor r = Some fl" "fl \<le> x" by (auto split: option.splits)
    then have "\<not> x < fl" by simp
    then have "lowered ps r = r" using fl(1) x(1) assms(2) by (simp add: lowered_def floor_target_def)
    then show ?thesis using fl x(2) by simp
  qed
qed

lemma apply_records:
  assumes "apply_events to_ts events s = Inr (report, s')" "e \<in> set events"
  shows "recorded to_ts s' e"
proof -
  obtain a b c where rep: "report = (a, b, c)" by (cases report) auto
  from assms(1)[unfolded rep] show ?thesis
  proof (rule apply_events_ok)
    fix ps
    assume cast: "cast_events to_ts (filter counts events) = Inr ps"
      and s': "s' = s\<lparr>db_settlement := map (lowered ps) (db_settlement s), db_backlog := db_backlog s',
        db_backpressure := db_backpressure s', db_queue := db_queue s'\<rparr>"
      and q: "\<And>q. queued s' q \<longleftrightarrow> queued s q \<or> q \<in> te_pool_id ` set events"
    note st = applied_settlement[OF s', of "te_pool_id e"]
    have "\<exists>fl. floor_of s' (te_pool_id e) = Some fl \<and> fl \<le> (t, te_line_id e)"
      if c: "counts e" "to_ts (te_posted_at e) = Some t" "settled_of s' (te_pool_id e) = Some f" "(t, te_line_id e) < f" for t f
    proof -
      obtain r where r: "settlement_of s (te_pool_id e) = Some r" "se_settled_through r = Some f"
        using c(3) st(2) by (auto simp: settled_of_def split: bind_splits)
      then have k: "se_pool_id r = te_pool_id e" by (auto simp: settlement_of_def dest: find_key_Some)
      have "(se_pool_id r, (t, te_line_id e)) \<in> set ps"
        using cast_events_set[OF cast, of e] assms(2) c(1,2) k by auto
      from lowered_floor[OF this r(2) c(4)] show ?thesis using r(1) st(1) by (simp add: floor_of_def)
    qed
    moreover have "queued s' (te_pool_id e)" using q assms(2) by blast
    ultimately show ?thesis by (fastforce simp: recorded_def split: option.split)
  qed
qed

text \<open>The invariant the order of the statements is for: a pool with a floor has a queue row.\<close>

definition floors_queued :: "db \<Rightarrow> bool" where
  "floors_queued s \<longleftrightarrow> list_all (\<lambda>r. se_recost_floor r \<noteq> None \<longrightarrow> queued s (se_pool_id r)) (db_settlement s)"

lemma cast_events_pools:
  "cast_events to_ts es = Inr ps \<Longrightarrow> (p, m) \<in> set ps \<Longrightarrow> p \<in> te_pool_id ` set es"
  by (induction es arbitrary: ps) (auto simp: and_then_Inr split: option.splits)

lemma floor_target_pool:
  assumes "floor_target ps r = Some m"
  shows "(se_pool_id r, m) \<in> set ps"
proof -
  obtain x where "batch_min ps (se_pool_id r) = Some x" "x = m"
    using assms by (auto simp: floor_target_def split: bind_splits option.splits if_splits)
  then obtain xs where x: "sort_key (\<lambda>x. x) (map snd (filter (\<lambda>y. fst y = se_pool_id r) ps)) = m # xs"
    by (auto simp: batch_min_def split: list.splits)
  show ?thesis using hd_sort_key[OF x] by auto
qed

lemma apply_floors_queued:
  assumes "apply_events to_ts events s = Inr (report, s')" "floors_queued s"
  shows "floors_queued s'"
proof -
  obtain a b c where rep: "report = (a, b, c)" by (cases report) auto
  from assms(1)[unfolded rep] show ?thesis
  proof (rule apply_events_ok)
    fix ps
    assume cast: "cast_events to_ts (filter counts events) = Inr ps"
      and s': "s' = s\<lparr>db_settlement := map (lowered ps) (db_settlement s), db_backlog := db_backlog s',
        db_backpressure := db_backpressure s', db_queue := db_queue s'\<rparr>"
      and q: "\<And>q. queued s' q \<longleftrightarrow> queued s q \<or> q \<in> te_pool_id ` set events"
    have "queued s' (se_pool_id r)" if r: "r \<in> set (db_settlement s)" "se_recost_floor (lowered ps r) \<noteq> None" for r
    proof (cases "floor_target ps r")
      case None
      then show ?thesis using assms(2) r q by (auto simp: floors_queued_def list_all_iff lowered_def)
    next
      case (Some m)
      then show ?thesis using cast_events_pools[OF cast floor_target_pool[OF Some]] q by auto
    qed
    moreover have "db_settlement s' = map (lowered ps) (db_settlement s)" by (subst s') simp
    ultimately show ?thesis by (auto simp: floors_queued_def list_all_iff)
  qed
qed

section \<open>Delivering a batch twice\<close>

lemma tx_map_rel:
  assumes "tx_map f xs s = Inr (ys, s')" "\<And>s. R s s" "\<And>a b c. R a b \<Longrightarrow> R b c \<Longrightarrow> R a c"
    "\<And>x s y s'. f x s = Inr (y, s') \<Longrightarrow> R s s'"
  shows "R s s'"
  using assms(1) by (induction xs arbitrary: s ys) (auto simp: tx_bind_Inr intro: assms(2,3) dest!: assms(4))

definition pending :: "db \<Rightarrow> i64 \<Rightarrow> i64" where
  "pending s p = (case find_key fst (db_backlog s) p of None \<Rightarrow> 0 | Some (_, n) \<Rightarrow> n)"

definition no_less_pressure :: "db \<Rightarrow> db \<Rightarrow> bool" where
  "no_less_pressure s s' \<longleftrightarrow> (\<forall>p. pending s p \<le> pending s' p) \<and> set (db_backpressure s) \<subseteq> set (db_backpressure s')"

lemma bump_backlog_pressure:
  assumes "bump_backlog events s = Inr (n, s')"
  shows "no_less_pressure s s'"
proof -
  obtain bumped engaged s1 where 1: "tx_map bump_pool (counted events s) s = Inr (bumped, s1)"
    and 2: "tx_map engage_pool bumped s1 = Inr (engaged, s')"
    using assms by (auto simp: bump_backlog_def tx_bind_Inr)
  have refl: "no_less_pressure s s" for s by (simp add: no_less_pressure_def)
  have trans: "no_less_pressure a b \<Longrightarrow> no_less_pressure b c \<Longrightarrow> no_less_pressure a c" for a b c
    unfolding no_less_pressure_def by (meson order_trans)
  have "no_less_pressure s s'" if "bump_pool x s = Inr (y, s')" for x y s s'
    using that
    by (auto simp: bump_pool_def and_then_Inr no_less_pressure_def pending_def find_put_key split: option.splits if_splits)
  then have "no_less_pressure s s1" using tx_map_rel[OF 1, of no_less_pressure] refl trans by blast
  moreover have "no_less_pressure s s'" if "engage_pool x s = Inr (y, s')" for x y s s'
    using that by (auto simp: engage_pool_def no_less_pressure_def pending_def split: if_splits)
  then have "no_less_pressure s1 s'" using tx_map_rel[OF 2, of no_less_pressure] refl trans by blast
  ultimately show ?thesis by (rule trans)
qed

lemma floor_target_idem: "floor_target ps (lowered ps r) = None"
  by (cases "batch_min ps (se_pool_id r)"; cases "se_settled_through r"; cases "se_recost_floor r")
    (auto simp: lowered_def floor_target_def)

lemma lowered_idem: "lowered ps (lowered ps r) = lowered ps r"
  using floor_target_idem[of ps r] by (simp add: lowered_def[of ps "lowered ps r"])

section \<open>Reseeding\<close>

lemma reseed_floor_ok:
  assumes "reseed_floor x s = Inr (u, s')"
  shows "s' = s\<lparr>db_settlement := db_settlement s'\<rparr>" "settled_of s' p = settled_of s p"
    "generation_of s' p = generation_of s p" "floor_of s p \<noteq> None \<Longrightarrow> floor_of s' p \<noteq> None"
    "floor_of s' (fst x) \<noteq> None"
proof -
  let ?r = "case settlement_of s (fst x) of
      None \<Rightarrow> \<lparr>se_pool_id = fst x, se_generation = 0, se_settled_through = None, se_recost_floor = Some (snd x)\<rparr>
    | Some r \<Rightarrow> r\<lparr>se_recost_floor := Some (case se_recost_floor r of
        None \<Rightarrow> snd x | Some fl \<Rightarrow> if snd x < fl then snd x else fl)\<rparr>"
  have s': "s' = s\<lparr>db_settlement := put_key se_pool_id ?r (db_settlement s)\<rparr>"
    using assms unfolding reseed_floor_def by simp
  then show "s' = s\<lparr>db_settlement := db_settlement s'\<rparr>" by simp
  have k: "se_pool_id ?r = fst x" by (auto simp: settlement_of_def dest: find_key_Some split: option.split)
  have st: "settlement_of s' p = (if p = fst x then Some ?r else settlement_of s p)" for p
    unfolding s' using k by (simp add: settlement_of_def find_put_key)
  show "settled_of s' p = settled_of s p" "generation_of s' p = generation_of s p"
    "floor_of s p \<noteq> None \<Longrightarrow> floor_of s' p \<noteq> None" "floor_of s' (fst x) \<noteq> None"
    by (auto simp: settled_of_def generation_of_def floor_of_def st split: option.split)
qed

lemma reseed_floors_ok:
  assumes "tx_iter reseed_floor xs s = Inr (u, s')"
  shows "s' = s\<lparr>db_settlement := db_settlement s'\<rparr> \<and> settled_of s' p = settled_of s p \<and>
    generation_of s' p = generation_of s p \<and> (floor_of s p \<noteq> None \<or> p \<in> fst ` set xs \<longrightarrow> floor_of s' p \<noteq> None)"
  using assms
proof (induction xs arbitrary: s)
  case (Cons x xs)
  obtain s1 where 1: "reseed_floor x s = Inr ((), s1)" and rest: "tx_iter reseed_floor xs s1 = Inr (u, s')"
    using Cons.prems by (auto simp: tx_bind_Inr)
  note step = reseed_floor_ok[OF 1] and ih = Cons.IH[OF rest]
  have "s1\<lparr>db_settlement := db_settlement s'\<rparr> = s\<lparr>db_settlement := db_settlement s'\<rparr>" by (subst step(1)) simp
  then have fr: "s' = s\<lparr>db_settlement := db_settlement s'\<rparr>" using ih by simp
  have "floor_of s1 p \<noteq> None" if "floor_of s p \<noteq> None \<or> p = fst x" using that step(4,5) by blast
  then have fl: "floor_of s p \<noteq> None \<or> p \<in> fst ` set (x # xs) \<longrightarrow> floor_of s' p \<noteq> None"
    using ih unfolding list.set image_insert insert_iff by blast
  have "settled_of s' p = settled_of s p" "generation_of s' p = generation_of s p"
    using ih step(2,3)[of p] by simp_all
  then show ?case using fr fl by blast
qed simp

lemma reseed_scope_pools:
  assumes "pool_of s p = Some r" "strict_method (pl_method r)" "t \<in> set (db_trx_line s)" "physical p t"
  shows "p \<in> fst ` set (reseed_scope s)"
proof -
  let ?xs = "map line_pos (filter (physical p) (db_trx_line s))"
  have r: "r \<in> set (db_pool s)" "pl_id r = p" using assms(1) by (auto simp: pool_of_def dest: find_key_Some)
  have "sort_key (\<lambda>x. x) ?xs \<noteq> []" using assms(3,4) unfolding sort_key_Nil by (auto simp: filter_empty_conv)
  then obtain m ms where "sort_key (\<lambda>x. x) ?xs = m # ms" by (meson list.exhaust)
  then have "(p, m) \<in> set (reseed_scope s)"
    using r assms(2) unfolding reseed_scope_def by (cases m) (auto intro!: bexI[of _ r])
  then show ?thesis by force
qed

text \<open>Whatever its frontier says of the past, a sound pool is in the engine's invariant again.\<close>

lemma reseed_settles:
  assumes sound: "pool_sound p s" and pool: "pool_of s p = Some r" "pl_method r = (if nf then Lifo else Fifo)"
    and run: "ledger_feed_reseed s = Inr (n, s')"
  shows "settles nf p s'"
proof -
  obtain s1 ms where 1: "tx_iter reseed_floor (reseed_scope s) s = Inr ((), s1)"
    and 2: "tx_map mark_pool (map fst (reseed_scope s)) s1 = Inr (ms, s')"
    using run by (auto simp: ledger_feed_reseed_def Let_def tx_bind_Inr)
  note f = reseed_floors_ok[OF 1, of p] and m = mark_all_ok[OF 2]
  have s1: "s1 = s\<lparr>db_settlement := db_settlement s1\<rparr>" using f by blast
  have s': "s' = s1\<lparr>db_queue := db_queue s'\<rparr>" using m by blast
  have books: "same_books s s'" unfolding same_books_def by (subst s', subst s1, simp)+
  have st: "db_settlement s' = db_settlement s1" by (subst s') simp
  note cong = settled_cong[OF st, of p]
  have ps: "pool_sound p s'" using sound f cong books_cong(1)[OF books] by (simp add: pool_sound_def)
  have "checkpoint nf p s'"
  proof (cases "\<exists>t\<in>set (db_trx_line s). physical p t")
    case True
    have "strict_method (pl_method r)" using pool(2) by (simp add: strict_method_def split: if_splits)
    then have "p \<in> fst ` set (reseed_scope s)" using True reseed_scope_pools[OF pool(1)] by blast
    then have "floor_of s' p \<noteq> None" using f cong by simp
    then show ?thesis by (simp add: checkpoint_def split: option.split)
  next
    case False
    have lines: "db_trx_line s' = db_trx_line s" using books by (simp add: same_books_def)
    have np: "\<And>r. r \<in> set (db_trx_line s') \<Longrightarrow> \<not> physical p r" using False lines by auto
    have "history fr p s' = stream p s'" for fr
      using np by (simp add: history_lines stream_lines filter_empty_conv cong: filter_cong)
    then show ?thesis
      using no_physical_holds[OF ps[unfolded pool_sound_def] np, of nf] by (simp add: checkpoint_def split: option.split)
  qed
  moreover have "pool_of s' p = pool_of s p" using books by (simp add: same_books_def pool_of_def)
  ultimately show ?thesis using ps pool by (simp add: settles_def)
qed

section \<open>Late lines\<close>

text \<open>Other transactions commit the lines \<open>new\<close>; the tables of the engine are as they were.\<close>

definition commits :: "i64 \<Rightarrow> db \<Rightarrow> trx_line_row list \<Rightarrow> db \<Rightarrow> bool" where
  "commits p s new s' \<longleftrightarrow>
    db_trx_line s' = db_trx_line s @ new \<and> list_all (\<lambda>r. db_next_line s \<le> tl_id r) new \<and> lines_sound p s' \<and>
    filter (open_layer_of p) (db_pool_state s') = filter (open_layer_of p) (db_pool_state s) \<and>
    db_cost_settlement s' = db_cost_settlement s \<and> db_settlement s' = db_settlement s \<and>
    pool_of s' p = pool_of s p"

definition delivered :: "(string \<Rightarrow> timestamp option) \<Rightarrow> TrxLineEvent list \<Rightarrow> trx_line_row \<Rightarrow> bool" where
  "delivered to_ts events r \<longleftrightarrow> list_ex (\<lambda>e. te_line_id e = tl_id r \<and> te_pool_id e = tl_pool_id r \<and>
    te_line_type e = tl_line_type r \<and> to_ts (te_posted_at e) = Some (tl_posted_at r)) events"

lemma delivered_floor:
  assumes "apply_events to_ts events s = Inr (report, s')" "delivered to_ts events r" "physical p r"
    "settled_of s' p = Some f" "line_pos r < f"
  shows "floor_of s' p \<noteq> None"
proof -
  obtain e where e: "e \<in> set events" "te_line_id e = tl_id r" "te_pool_id e = p" "counts e"
    "to_ts (te_posted_at e) = Some (tl_posted_at r)"
    using assms(2,3) by (auto simp: delivered_def list_ex_iff physical_def counts_def)
  have "recorded to_ts s' e" by (rule apply_records[OF assms(1) e(1)])
  then show ?thesis using e assms(4,5) by (auto simp: recorded_def line_pos_def split: option.splits)
qed

lemma commits_arrivals:
  assumes commits: "commits p s new s1" and known: "\<And>f. settled_of s p = Some f \<Longrightarrow> snd f < db_next_line s"
    and deliv: "\<And>r. r \<in> set new \<Longrightarrow> physical p r \<Longrightarrow> \<not> after (settled_of s p) r \<Longrightarrow> delivered to_ts events r"
    and run: "apply_events to_ts events s1 = Inr (report, s2)"
  shows "arrivals p s s2"
proof -
  obtain a b c where rep: "report = (a, b, c)" by (cases report) auto
  from run[unfolded rep] show ?thesis
  proof (rule apply_events_ok)
    fix ps
    assume s2: "s2 = s1\<lparr>db_settlement := map (lowered ps) (db_settlement s1), db_backlog := db_backlog s2,
        db_backpressure := db_backpressure s2, db_queue := db_queue s2\<rparr>"
    have fr: "db_trx_line s2 = db_trx_line s1" "db_next_line s2 = db_next_line s1" "db_pool_state s2 = db_pool_state s1"
      "db_cost_settlement s2 = db_cost_settlement s1" "pool_of s2 p = pool_of s1 p"
      unfolding pool_of_def by (subst s2, simp)+
    have cong: "settled_of s1 p = settled_of s p" "floor_of s1 p = floor_of s p" "generation_of s1 p = generation_of s p"
      using commits settled_cong[of s1 s p] by (simp_all add: commits_def)
    note st = applied_settlement[OF s2, of p]
    have "after (settled_of s p) r \<or> floor_of s2 p \<noteq> None" if r: "r \<in> set new" "physical p r" for r
    proof (cases "after (settled_of s p) r")
      case na: False
      then obtain f where f: "settled_of s p = Some f" "line_pos r \<le> f"
        by (cases "settled_of s p") (auto simp: after_def)
      have "db_next_line s \<le> tl_id r" using commits r by (auto simp: commits_def list_all_iff)
      then have "line_pos r \<noteq> f" using known[OF f(1)] by (auto simp: line_pos_def)
      then have "line_pos r < f" using f(2) by simp
      then have "floor_of s2 p \<noteq> None"
        using delivered_floor[OF run deliv[OF r na] r(2)] st(2) cong(1) f(1) by simp
      then show ?thesis by blast
    qed blast
    then show ?thesis
      using commits fr st cong lines_sound_cong[of s2 s1 p] unfolding arrivals_def commits_def
      by (auto simp: list_all_iff)
  qed
qed

section \<open>A slot to read\<close>

definition clock_text :: "string \<Rightarrow> timestamp option" where
  "clock_text s = parse_i64 s"

definition line_columns :: "string list" where
  "line_columns = [''id'', ''pool_id'', ''line_type'', ''posted_at'']"

definition slot_rows :: "(lsn \<times> byte list) list" where
  "slot_rows =
    [(500, encode (W_begin [])),
     (500, encode (W_relation 7 ''public'' ''trx_line'' 0x64
        (map (\<lambda>c. \<lparr>at_flags = 0, at_name = c, at_oid = 20, at_mod = - 1\<rparr>) line_columns))),
     (500, encode (W_insert 7 [W_text ''4'', W_text ''4'', W_text ''po_receipt_line'', W_text ''15''])),
     (510, encode (W_commit []))]"

definition late_event :: TrxLineEvent where
  "late_event = \<lparr>te_line_id = 4, te_pool_id = 4, te_posted_at = ''15'', te_line_type = ''po_receipt_line''\<rparr>"

text \<open>The pool of \<open>recalc_db\<close> after its drain, and with a receipt committed behind its frontier.\<close>

definition drained_db :: db where
  "drained_db = recalc_db\<lparr>
     db_pool_state := [\<lparr>st_pool_id = 4, st_layer_id = 0, st_qty = 3, st_unit_cost = 91, st_value_sum = 274\<rparr>,
       \<lparr>st_pool_id = 4, st_layer_id = 3, st_qty = 3, st_unit_cost = 90, st_value_sum = 270\<rparr>],
     db_cost_settlement := [\<lparr>cs_depletion = 2, cs_generation = 1, cs_authoritative = 98, cs_prior = 120,
       cs_posting = None\<rparr>],
     db_settlement := [\<lparr>se_pool_id = 4, se_generation = 1, se_settled_through = Some (30, 2), se_recost_floor = None\<rparr>],
     db_queue := []\<rparr>"

definition late_db :: db where
  "late_db = drained_db\<lparr>db_trx_line := db_trx_line drained_db @ [recalc_line 4 ''po_receipt_line'' 2 80 15],
     db_next_line := 5\<rparr>"

lemma slot_rows_peek: "peek slot_rows = Inr \<lparr>pb_messages = 4, pb_events = [late_event], pb_last_lsn = Some 510\<rparr>"
  by code_simp

lemma drained_settles: "settles False 4 drained_db" "\<not> settles False 4 late_db" "pool_sound 4 late_db"
  by code_simp+

lemma late_apply:
  "outcome_of (apply_events clock_text [late_event] late_db) (\<lambda>report s'. report = (1, 1, 0) \<and> floor_of s' 4 = Some (15, 4))"
  by code_simp

section \<open>Properties\<close>

text \<open>
  C23. The cursor of the slot never passes an event that is not on record. Whatever a tick does, whether
  it returns or fails and at which step, either the cursor stays where it was, or every message of the
  batch was decoded, every line event in it is recorded in the committed state (its pool is queued and,
  if the event lies behind the settled frontier, the pool has a recost floor no higher than the event),
  and the cursor is what the server made of the last position of the batch. A pool with a floor has a
  queue row before and after.
\<close>
theorem ingest_records:
  assumes "ingest_once to_ts slot_advance health pre_lsn rows feed = (result, feed')" "floors_queued (fd_db feed)"
  shows "(fd_confirmed feed' = fd_confirmed feed \<or>
      (\<exists>batch. peek rows = Inr batch \<and> list_all (recorded to_ts (fd_db feed')) (pb_events batch) \<and>
        slot_advance (fd_confirmed feed) (case pb_last_lsn batch of None \<Rightarrow> pre_lsn | Some l \<Rightarrow> l) =
          Inr (fd_confirmed feed'))) \<and>
    floors_queued (fd_db feed')"
proof (cases "and_then (check_slot_usable health) (\<lambda>_. peek rows)")
  case (Inl e)
  then show ?thesis using assms by (simp add: ingest_once_def)
next
  case (Inr batch)
  then have pk: "peek rows = Inr batch" by (auto simp: and_then_Inr)
  let ?apply = "if pb_events batch = [] then Inr ((0, 0, 0), fd_db feed)
      else apply_events to_ts (pb_events batch) (fd_db feed)"
  let ?target = "case pb_last_lsn batch of None \<Rightarrow> pre_lsn | Some l \<Rightarrow> l"
  show ?thesis
  proof (cases ?apply)
    case (Inl e)
    then show ?thesis using assms Inr by (simp add: ingest_once_def)
  next
    case ap: (Inr y)
    obtain rep s' where y: "y = (rep, s')" by (cases y)
    have rec: "list_all (recorded to_ts s') (pb_events batch)"
      using ap y apply_records[of to_ts "pb_events batch" "fd_db feed" rep s'] by (auto simp: list_all_iff split: if_splits)
    have fq: "floors_queued s'"
      using ap y assms(2) apply_floors_queued[of to_ts "pb_events batch" "fd_db feed" rep s'] by (auto split: if_splits)
    show ?thesis
    proof (cases "advance slot_advance ?target (fd_confirmed feed)")
      case (Inl e)
      then have "feed' = feed\<lparr>fd_db := s'\<rparr>"
        using assms(1) Inr ap y by (simp add: ingest_once_def Let_def split: prod.splits)
      then show ?thesis using fq by simp
    next
      case adv: (Inr z)
      then have "fd_db feed' = s'" "fd_confirmed feed' = snd z"
        using assms(1) Inr ap y by (auto simp: ingest_once_def Let_def split: prod.splits)
      moreover have "snd z = fd_confirmed feed \<or> slot_advance (fd_confirmed feed) ?target = Inr (snd z)"
        using adv by (auto simp: advance_def and_then_Inr split: if_splits)
      ultimately show ?thesis using rec fq pk by auto
    qed
  qed
qed

definition to_target :: "lsn \<Rightarrow> lsn \<Rightarrow> pg_error + lsn" where
  "to_target confirmed target = Inr target"

lemma late_tick:
  "ingest_once clock_text to_target None 600 slot_rows \<lparr>fd_db = late_db, fd_confirmed = 0\<rparr> =
    (Inr \<lparr>ir_messages = 4, ir_inserts = 1, ir_marked = 1, ir_lowered = 1, ir_throttled = 0, ir_advanced = Some 510\<rparr>,
     \<lparr>fd_db = snd (projr (apply_events clock_text [late_event] late_db)), fd_confirmed = 510\<rparr>)"
proof (rule outcome_ofE[OF late_apply])
  fix x s'
  assume "apply_events clock_text [late_event] late_db = Inr (x, s')" "x = (1, 1, 0) \<and> floor_of s' 4 = Some (15, 4)"
  then show ?thesis
    by (simp add: ingest_once_def check_slot_usable_def slot_rows_peek advance_def to_target_def)
qed

theorem ingest_records_witness:
  "\<exists>result feed'. ingest_once clock_text to_target None 600 slot_rows \<lparr>fd_db = late_db, fd_confirmed = 0\<rparr> =
      (result, feed') \<and> fd_confirmed feed' = 510 \<and> list_all (recorded clock_text (fd_db feed')) [late_event] \<and>
    floors_queued (fd_db feed')"
proof -
  let ?feed = "\<lparr>fd_db = late_db, fd_confirmed = 0\<rparr>"
    and ?feed' = "\<lparr>fd_db = snd (projr (apply_events clock_text [late_event] late_db)), fd_confirmed = 510\<rparr>"
  have "floors_queued late_db" by code_simp
  then have fq: "floors_queued (fd_db ?feed)" by simp
  from ingest_records[OF late_tick fq]
  have "fd_confirmed ?feed' = 510 \<and> list_all (recorded clock_text (fd_db ?feed')) [late_event] \<and> floors_queued (fd_db ?feed')"
    by (simp add: slot_rows_peek)
  then show ?thesis using late_tick by blast
qed

text \<open>
  C24. Delivering a batch again does no harm. After a crash between the commit of a batch and the move of
  the cursor the same events arrive again; recording them a second time marks no pool, lowers no floor
  and changes no table but the backpressure counters, which only grow, so that a throttle can engage
  early and is never missed.
\<close>
theorem redelivery_idempotent:
  assumes "apply_events to_ts events s = Inr (report, s1)" "apply_events to_ts events s1 = Inr (report', s2)"
  shows "s2 = s1\<lparr>db_backlog := db_backlog s2, db_backpressure := db_backpressure s2\<rparr> \<and>
    fst report' = 0 \<and> fst (snd report') = 0 \<and> no_less_pressure s1 s2"
proof -
  obtain a b c where rep: "report = (a, b, c)" by (cases report) auto
  obtain a' b' c' where rep': "report' = (a', b', c')" by (cases report') auto
  obtain ps where p1: "cast_events to_ts (filter counts events) = Inr ps"
    "s1 = s\<lparr>db_settlement := map (lowered ps) (db_settlement s), db_backlog := db_backlog s1,
      db_backpressure := db_backpressure s1, db_queue := db_queue s1\<rparr>"
    "\<And>q. queued s1 q \<longleftrightarrow> queued s q \<or> q \<in> te_pool_id ` set events"
    by (rule apply_events_ok[OF assms(1)[unfolded rep]]) (rule that)
  obtain ps' where p2: "cast_events to_ts (filter counts events) = Inr ps'"
    "s2 = s1\<lparr>db_settlement := map (lowered ps') (db_settlement s1), db_backlog := db_backlog s2,
      db_backpressure := db_backpressure s2, db_queue := db_queue s2\<rparr>"
    "\<forall>e\<in>set events. queued s1 (te_pool_id e) \<Longrightarrow> db_queue s2 = db_queue s1 \<and> a' = 0"
    "b' = length (filter (\<lambda>r. floor_target ps' r \<noteq> None) (db_settlement s1))"
    by (rule apply_events_ok[OF assms(2)[unfolded rep']]) (rule that)
  have ps: "ps' = ps" using p1(1) p2(1) by simp
  have rows: "db_settlement s1 = map (lowered ps) (db_settlement s)" by (subst p1(2)) simp
  have same: "map (lowered ps') (db_settlement s1) = db_settlement s1" "b' = 0"
    using p2(4) unfolding rows ps by (simp_all add: lowered_idem floor_target_idem filter_empty_conv)
  have q: "db_queue s2 = db_queue s1" "a' = 0" using p2(3) p1(3) by auto
  obtain t1 t2 where t: "lower_floors to_ts events s1 = Inr (b', t1)" "bump_backlog events t1 = Inr (c', t2)"
    "mark_pools (map te_pool_id events) t2 = Inr (a', s2)"
    using assms(2) rep' by (auto simp: apply_events_def tx_bind_Inr)
  have "no_less_pressure t1 t2" by (rule bump_backlog_pressure[OF t(2)])
  moreover have "db_backlog t1 = db_backlog s1" "db_backpressure t1 = db_backpressure s1"
    using t(1) by (auto simp: lower_floors_def and_then_Inr)
  moreover have "db_backlog s2 = db_backlog t2" "db_backpressure s2 = db_backpressure t2"
  proof -
    obtain ms where "tx_map mark_pool (remdups (map te_pool_id events)) t2 = Inr (ms, s2)"
      using t(3) by (auto simp: mark_pools_def tx_bind_Inr)
    note t2 = mark_all_ok[OF this, THEN conjunct1]
    show "db_backlog s2 = db_backlog t2" "db_backpressure s2 = db_backpressure t2" by (subst t2, simp)+
  qed
  ultimately have "no_less_pressure s1 s2" by (simp add: no_less_pressure_def pending_def)
  moreover have "s2 = s1\<lparr>db_backlog := db_backlog s2, db_backpressure := db_backpressure s2\<rparr>"
    by (rule trans[OF p2(2)]) (simp add: same(1) q(1))
  ultimately show ?thesis using same(2) q(2) unfolding rep' fst_conv snd_conv by blast
qed

lemma late_twice:
  "outcome_of (apply_events clock_text [late_event] late_db) (\<lambda>_ s1.
    outcome_of (apply_events clock_text [late_event] s1) (\<lambda>report _. report = (0, 0, 0)))"
  by code_simp

theorem redelivery_idempotent_witness:
  "\<exists>report s1 report' s2. apply_events clock_text [late_event] late_db = Inr (report, s1) \<and>
    apply_events clock_text [late_event] s1 = Inr (report', s2) \<and>
    db_settlement s2 = db_settlement s1 \<and> db_queue s2 = db_queue s1"
proof -
  obtain report s1 report' s2 where run: "apply_events clock_text [late_event] late_db = Inr (report, s1)"
    "apply_events clock_text [late_event] s1 = Inr (report', s2)"
    using late_twice by (auto elim!: outcome_ofE)
  note s2 = redelivery_idempotent[OF run, THEN conjunct1]
  have "db_settlement s2 = db_settlement s1" "db_queue s2 = db_queue s1" by (subst s2, simp)+
  then show ?thesis using run by blast
qed

text \<open>
  C7. The feed closes the gap that a late line opens. Other transactions commit lines of a pool, some of
  them behind its settled frontier, so that the stored costs are no longer those of a replay; once the
  consumer has recorded a batch with the events of those lines, what happened since the lines were
  committed is an arrival the engine's invariant admits, and the pool satisfies that invariant again: its
  floor makes the next pass a full replay. The cast of the text of a time is the one the server's own
  output goes through.
\<close>
theorem feed_restores_invariant:
  assumes "settles nf p s" "commits p s new s1"
    "\<And>f. settled_of s p = Some f \<Longrightarrow> snd f < db_next_line s"
    "\<And>r. r \<in> set new \<Longrightarrow> physical p r \<Longrightarrow> \<not> after (settled_of s p) r \<Longrightarrow> delivered to_ts events r"
    "apply_events to_ts events s1 = Inr (report, s2)"
  shows "arrivals p s s2 \<and> settles nf p s2 \<and>
    (list_ex (\<lambda>r. physical p r \<and> \<not> after (settled_of s p) r) new \<longrightarrow> floor_of s2 p \<noteq> None)"
proof -
  have arr: "arrivals p s s2" by (rule commits_arrivals[OF assms(2-5)])
  moreover have "settles nf p s2" by (rule arrivals_settles[OF assms(1) arr])
  moreover obtain new' where new': "db_trx_line s2 = db_trx_line s @ new'"
    "list_all (\<lambda>r. physical p r \<longrightarrow> after (settled_of s p) r \<or> floor_of s2 p \<noteq> None) new'"
    using arr by (auto simp: arrivals_def)
  moreover have "new' = new"
  proof -
    obtain a b c where "report = (a, b, c)" by (cases report) auto
    then have "db_trx_line s2 = db_trx_line s1"
      using assms(5) by (auto elim!: apply_events_ok dest: arg_cong[of _ _ db_trx_line])
    then show ?thesis using assms(2) new'(1) by (simp add: commits_def)
  qed
  ultimately show ?thesis by (auto simp: list_all_iff list_ex_iff)
qed

theorem feed_restores_invariant_witness:
  "\<not> settles False 4 late_db \<and> (\<exists>report s2. apply_events clock_text [late_event] late_db = Inr (report, s2) \<and>
    arrivals 4 drained_db s2 \<and> settles False 4 s2 \<and> floor_of s2 4 \<noteq> None)"
proof -
  let ?line = "recalc_line 4 ''po_receipt_line'' 2 80 15"
  obtain report s2 where run: "apply_events clock_text [late_event] late_db = Inr (report, s2)"
    by (rule outcome_ofE[OF late_apply])
  have c: "commits 4 drained_db [?line] late_db" by code_simp
  have f: "settled_of drained_db 4 = Some (30, 2)" "db_next_line drained_db = 4" by code_simp+
  have d: "delivered clock_text [late_event] ?line" "physical 4 ?line" "\<not> after (Some (30, 2)) ?line" by code_simp+
  have "arrivals 4 drained_db s2 \<and> settles False 4 s2 \<and> floor_of s2 4 \<noteq> None"
    using feed_restores_invariant[OF drained_settles(1) c _ _ run] f d by simp
  then show ?thesis using drained_settles(2) run by blast
qed

text \<open>
  C9. Recovery from a lost slot is complete. Take a sound FIFO or LIFO pool in any state of its frontier
  and floor, for instance one with lines behind the frontier that no tick will ever deliver. After
  \<open>ledger_feed_reseed\<close> a drain that does not escalate leaves the layers and the costs of a replay of the
  whole stream, the lost lines included.
\<close>
theorem reseed_recovers:
  assumes "pool_sound p s" "pool_of s p = Some r" "pl_method r = (if nf then Lifo else Fifo)"
    "ledger_feed_reseed s = Inr (n, s1)" "\<And>i. interference p (mids i)"
    "drain_pool_to_head mids p s1 = Inr (Drained st, s')" "dr_escalated st = None"
  shows "\<exists>out. strict_fold nf [] (stream p s') = Some out \<and> holds_replay p out s'"
  using drain_loop_exact[OF reseed_settles[OF assms(1-4)] assms(5) assms(6)[unfolded drain_pool_to_head_def] assms(7)]
  by (auto simp: holds_def split: option.splits)

lemma late_reseed:
  "outcome_of (ledger_feed_reseed late_db) (\<lambda>n s1. n = 1 \<and>
    outcome_of (drain_pool_to_head (\<lambda>_ s. s) 4 s1) (\<lambda>outcome s'.
      (case outcome of Drained st \<Rightarrow> dr_escalated st = None | _ \<Rightarrow> False) \<and>
      map (\<lambda>r. (st_layer_id r, st_qty r)) (filter (open_layer_of 4) (db_pool_state s')) = [(3, 5)]))"
  by code_simp

theorem reseed_recovers_witness:
  "\<exists>n s1 st s' out. ledger_feed_reseed late_db = Inr (n, s1) \<and>
    drain_pool_to_head (\<lambda>_ s. s) 4 s1 = Inr (Drained st, s') \<and>
    strict_fold False [] (stream 4 s') = Some out \<and> holds_replay 4 out s'"
proof -
  obtain n s1 st s' where run: "ledger_feed_reseed late_db = Inr (n, s1)"
    "drain_pool_to_head (\<lambda>_ s. s) 4 s1 = Inr (Drained st, s')" "dr_escalated st = None"
    using late_reseed by (auto elim!: outcome_ofE split: DrainOutcome.splits)
  obtain r where r: "pool_of late_db 4 = Some r" "pl_method r = (if False then Lifo else Fifo)"
    using drained_settles(1) by (auto simp: settles_def late_db_def pool_of_def split: option.splits)
  from reseed_recovers[OF drained_settles(3) r run(1) interference_id run(2,3)] show ?thesis using run by blast
qed

end
