(* ===== verification/Drain.thy ===== *)
theory Drain
  imports Submit
begin

text \<open>
  The staging drain, \<open>ledger-direct/src/drain.rs\<close>: claim pending rows of the inbox, decode them, apply
  each submission in a subtransaction of its own, and record the outcomes.

  The inbox is a list of rows beside the database. A row's payload is a JSON document of an
  unspecified type, and two parameters stand for the libraries that read it: \<open>from_micros\<close>, chrono's
  conversion of microseconds to a time, and \<open>from_value\<close>, serde's decoding of the document into lines.
  The predicate \<open>locked\<close> says which rows another committer holds. The time a row was drained at is not
  modelled.
\<close>

section \<open>The inbox\<close>

datatype inbox_status = Inbox_pending | Inbox_done | Inbox_failed

datatype drain_error = Posted_at_out_of_range i64 | Decode_failed string | Submission_failed pg_error

record 'j inbox_row =
  ib_id :: i64
  ib_trx_type :: string
  ib_source_id :: i64
  ib_posted_at :: i64
  ib_lines :: 'j
  ib_status :: inbox_status
  ib_error :: "drain_error option"

record Claimed =
  cd_id :: i64
  cd_trx_type :: string
  cd_source_id :: i64
  cd_posted_at :: timestamp
  cd_lines :: "LineJson list"

record Outcomes =
  oc_done :: "i64 list"
  oc_failed :: "(i64 \<times> drain_error) list"

section \<open>Operations\<close>

text \<open>A subtransaction: what it wrote stays when it succeeds and is undone when it fails. The server's
  sequences keep the numbers that a failed submission drew; such gaps are not modelled.\<close>

definition subtx :: "'a tx \<Rightarrow> db \<Rightarrow> (pg_error + 'a) \<times> db" where
  "subtx c s = (case c s of Inl e \<Rightarrow> (Inl e, s) | Inr (x, s') \<Rightarrow> (Inr x, s'))"

definition claim_rows :: "(i64 \<Rightarrow> bool) \<Rightarrow> i64 \<Rightarrow> 'j inbox_row list \<Rightarrow> 'j inbox_row list" where
  "claim_rows locked p_limit inbox =
    take (nat (max p_limit 1))
      (filter (\<lambda>r. \<not> locked (ib_id r))
        (sort_key ib_id (filter (\<lambda>r. ib_status r = Inbox_pending) inbox)))"

definition decode_row ::
  "(i64 \<Rightarrow> timestamp option) \<Rightarrow> ('j \<Rightarrow> string + LineJson list) \<Rightarrow> 'j inbox_row \<Rightarrow> drain_error + Claimed" where
  "decode_row from_micros from_value r =
    (case from_micros (ib_posted_at r) of
       None \<Rightarrow> Inl (Posted_at_out_of_range (ib_posted_at r))
     | Some t \<Rightarrow>
         (case from_value (ib_lines r) of
            Inl e \<Rightarrow> Inl (Decode_failed e)
          | Inr lines \<Rightarrow> Inr \<lparr>cd_id = ib_id r, cd_trx_type = ib_trx_type r, cd_source_id = ib_source_id r,
              cd_posted_at = t, cd_lines = lines\<rparr>))"

fun decode_rows ::
  "(i64 \<Rightarrow> timestamp option) \<Rightarrow> ('j \<Rightarrow> string + LineJson list) \<Rightarrow> 'j inbox_row list \<Rightarrow>
    (i64 \<times> drain_error) list \<times> Claimed list" where
  "decode_rows from_micros from_value [] = ([], [])"
| "decode_rows from_micros from_value (r # raw) =
    (let (failed, ready) = decode_rows from_micros from_value raw
     in case decode_row from_micros from_value r of
          Inl e \<Rightarrow> ((ib_id r, e) # failed, ready)
        | Inr c \<Rightarrow> (failed, c # ready))"

definition apply_claimed :: "Claimed \<Rightarrow> i64 tx" where
  "apply_claimed c = apply_submission (cd_trx_type c) (cd_source_id c) (cd_posted_at c) (cd_lines c) False"

fun apply_ready :: "Claimed list \<Rightarrow> Outcomes \<Rightarrow> db \<Rightarrow> Outcomes \<times> db" where
  "apply_ready [] oc s = (oc, s)"
| "apply_ready (c # ready) oc s =
    (case subtx (apply_claimed c) s of
       (Inr _, s') \<Rightarrow> apply_ready ready (oc\<lparr>oc_done := oc_done oc @ [cd_id c]\<rparr>) s'
     | (Inl e, s') \<Rightarrow> apply_ready ready (oc\<lparr>oc_failed := oc_failed oc @ [(cd_id c, Submission_failed e)]\<rparr>) s')"

definition mark_row :: "Outcomes \<Rightarrow> 'j inbox_row \<Rightarrow> 'j inbox_row" where
  "mark_row oc r =
    (let r' = (if ib_id r \<in> set (oc_done oc) then r\<lparr>ib_status := Inbox_done\<rparr> else r)
     in case map_of (oc_failed oc) (ib_id r) of
          None \<Rightarrow> r'
        | Some e \<Rightarrow> r'\<lparr>ib_status := Inbox_failed, ib_error := Some e\<rparr>)"

definition ledger_staging_drain ::
  "(i64 \<Rightarrow> timestamp option) \<Rightarrow> ('j \<Rightarrow> string + LineJson list) \<Rightarrow> (i64 \<Rightarrow> bool) \<Rightarrow> i64 \<Rightarrow>
    'j inbox_row list \<Rightarrow> db \<Rightarrow> i64 \<times> 'j inbox_row list \<times> db" where
  "ledger_staging_drain from_micros from_value locked p_limit inbox s =
    (let raw = claim_rows locked p_limit inbox in
     if raw = [] then (0, inbox, s)
     else
       (let (failed, ready) = decode_rows from_micros from_value raw;
            (oc, s') = apply_ready ready \<lparr>oc_done = [], oc_failed = failed\<rparr> s
        in (int (length raw), map (mark_row oc) inbox, s')))"

section \<open>What a drain amounts to\<close>

text \<open>The submissions that succeed when each is tried on what the successful ones before it left, and
  the run of a list of submissions in one transaction, where any failure fails all.\<close>

fun succeed :: "Claimed list \<Rightarrow> db \<Rightarrow> Claimed list" where
  "succeed [] s = []"
| "succeed (c # cs) s = (case apply_claimed c s of Inl _ \<Rightarrow> succeed cs s | Inr (_, s') \<Rightarrow> c # succeed cs s')"

definition submit_claimed :: "Claimed \<Rightarrow> unit tx" where
  "submit_claimed c = tx_bind (apply_claimed c) (\<lambda>_. tx_return ())"

definition marked :: "'j inbox_row list \<Rightarrow> i64 list \<Rightarrow> 'j inbox_row \<Rightarrow> 'j inbox_row \<Rightarrow> bool" where
  "marked raw done r r' \<longleftrightarrow>
    (if r \<notin> set raw then r' = r
     else if ib_id r \<in> set done then r' = r\<lparr>ib_status := Inbox_done\<rparr>
     else \<exists>e. r' = r\<lparr>ib_status := Inbox_failed, ib_error := Some e\<rparr>)"

lemma submit_claimed_eq:
  "apply_claimed c s = Inr (i, s') \<Longrightarrow> submit_claimed c s = Inr ((), s')"
  by (simp add: submit_claimed_def)

lemma succeed_sub: "set (succeed cs s) \<subseteq> set cs"
proof (induction cs arbitrary: s)
  case (Cons c cs)
  show ?case
  proof (cases "apply_claimed c s")
    case (Inr y)
    then show ?thesis using Cons.IH[of "snd y"] by (cases y) auto
  qed (use Cons.IH[of s] in auto)
qed simp

lemma apply_ready_ok:
  assumes "apply_ready ready oc s = (oc', s')"
  shows "oc_done oc' = oc_done oc @ map cd_id (succeed ready s) \<and>
    tx_iter submit_claimed (succeed ready s) s = Inr ((), s') \<and>
    (\<exists>fs. oc_failed oc' = oc_failed oc @ fs \<and> set (map fst fs) \<subseteq> set (map cd_id ready) \<and>
      set (map cd_id ready) \<subseteq> set (map cd_id (succeed ready s)) \<union> set (map fst fs) \<and>
      (distinct (map cd_id ready) \<longrightarrow> set (map cd_id (succeed ready s)) \<inter> set (map fst fs) = {}))"
  using assms
proof (induction ready arbitrary: oc s)
  case (Cons c ready)
  show ?case
  proof (cases "apply_claimed c s")
    case (Inl e)
    then have "apply_ready ready (oc\<lparr>oc_failed := oc_failed oc @ [(cd_id c, Submission_failed e)]\<rparr>) s = (oc', s')"
      using Cons.prems by (simp add: subtx_def)
    from Cons.IH[OF this] obtain fs where fs:
      "oc_done oc' = oc_done oc @ map cd_id (succeed ready s)"
      "tx_iter submit_claimed (succeed ready s) s = Inr ((), s')"
      "oc_failed oc' = oc_failed oc @ (cd_id c, Submission_failed e) # fs" "set (map fst fs) \<subseteq> set (map cd_id ready)"
      "set (map cd_id ready) \<subseteq> set (map cd_id (succeed ready s)) \<union> set (map fst fs)"
      "distinct (map cd_id ready) \<longrightarrow> set (map cd_id (succeed ready s)) \<inter> set (map fst fs) = {}"
      by auto
    moreover have "set (map cd_id (succeed ready s)) \<subseteq> set (map cd_id ready)"
      using succeed_sub[of ready s] by auto
    ultimately show ?thesis
      using Inl by (intro conjI exI[of _ "(cd_id c, Submission_failed e) # fs"]) auto
  next
    case (Inr y)
    obtain i s1 where c: "apply_claimed c s = Inr (i, s1)" using Inr by (cases y) auto
    then have "apply_ready ready (oc\<lparr>oc_done := oc_done oc @ [cd_id c]\<rparr>) s1 = (oc', s')"
      using Cons.prems by (simp add: subtx_def)
    from Cons.IH[OF this] obtain fs where fs:
      "oc_done oc' = oc_done oc @ cd_id c # map cd_id (succeed ready s1)"
      "tx_iter submit_claimed (succeed ready s1) s1 = Inr ((), s')"
      "oc_failed oc' = oc_failed oc @ fs" "set (map fst fs) \<subseteq> set (map cd_id ready)"
      "set (map cd_id ready) \<subseteq> set (map cd_id (succeed ready s1)) \<union> set (map fst fs)"
      "distinct (map cd_id ready) \<longrightarrow> set (map cd_id (succeed ready s1)) \<inter> set (map fst fs) = {}"
      by auto
    then show ?thesis
      using c by (intro conjI exI[of _ fs]) (auto simp: submit_claimed_eq)
  qed
qed simp

lemma decode_row_id: "decode_row fm fv r = Inr c \<Longrightarrow> cd_id c = ib_id r"
  by (auto simp: decode_row_def split: option.splits sum.splits)

lemma decode_rows_ids:
  assumes "decode_rows fm fv raw = (failed, ready)" "distinct (map ib_id raw)"
  shows "set (map fst failed) \<union> set (map cd_id ready) = set (map ib_id raw) \<and>
    set (map fst failed) \<inter> set (map cd_id ready) = {} \<and> distinct (map cd_id ready)"
  using assms
proof (induction raw arbitrary: failed ready)
  case (Cons r raw)
  obtain fs rs where rec: "decode_rows fm fv raw = (fs, rs)" by (cases "decode_rows fm fv raw")
  from Cons.IH[OF rec] Cons.prems(2) have ih: "set (map fst fs) \<union> set (map cd_id rs) = set (map ib_id raw)"
    "set (map fst fs) \<inter> set (map cd_id rs) = {}" "distinct (map cd_id rs)" "ib_id r \<notin> set (map ib_id raw)"
    by auto
  show ?case
  proof (cases "decode_row fm fv r")
    case (Inl e)
    then have "failed = (ib_id r, e) # fs" "ready = rs" using Cons.prems(1) rec by auto
    then show ?thesis using ih by auto
  next
    case (Inr c)
    then have "failed = fs" "ready = c # rs" "cd_id c = ib_id r"
      using Cons.prems(1) rec decode_row_id[of fm fv r c] by auto
    then show ?thesis using ih by auto
  qed
qed simp

lemma claimed_sub: "set (claim_rows locked n inbox) \<subseteq> set inbox"
  using set_take_subset by (fastforce simp: claim_rows_def)

lemma claimed_distinct:
  assumes "distinct (map ib_id inbox)"
  shows "distinct (map ib_id (claim_rows locked n inbox))"
proof -
  have "distinct (map ib_id (sort_key ib_id (filter (\<lambda>r. ib_status r = Inbox_pending) inbox)))"
    using assms by (auto simp: distinct_map inj_on_def)
  then show ?thesis unfolding claim_rows_def take_map[symmetric]
    by (intro distinct_take distinct_map_filter)
qed

lemma submission_keeps:
  assumes "tx_iter submit_claimed cs s = Inr ((), s')" "0 < db_next_line s" "commutative_pool s p" "reconciled s p"
  shows "reconciled s' p"
  using assms
proof (induction cs arbitrary: s)
  case (Cons c cs)
  then obtain s1 where s1: "submit_claimed c s = Inr ((), s1)" "tx_iter submit_claimed cs s1 = Inr ((), s')"
    by (auto simp: tx_bind_Inr)
  then obtain i where c: "apply_claimed c s = Inr (i, s1)" by (auto simp: submit_claimed_def tx_bind_Inr)
  show ?case
  proof (rule submission_effect[OF c[unfolded apply_claimed_def] Cons.prems(2)])
    fix ks s2
    assume rec: "recorded i (cd_posted_at c) ks s2 s1"
      and s2: "s2 = s\<lparr>db_trx := db_trx s @ [\<lparr>tr_id = i, tr_trx_type = cd_trx_type c, tr_source_id = cd_source_id c,
        tr_posted_at = cd_posted_at c\<rparr>], db_next_trx := db_next_trx s + 1\<rparr>"
      and keep: "\<And>p. commutative_pool s p \<Longrightarrow> reconciled s2 p \<Longrightarrow> reconciled s1 p"
    have "reconciled s2 p" using Cons.prems(4) trx_frame[OF s2] by (simp add: reconciled_def)
    then have "reconciled s1 p" using keep Cons.prems(3) by blast
    moreover have "0 < db_next_line s1" "commutative_pool s1 p"
      using rec s2 Cons.prems(2,3) by (auto simp: recorded_def same_reference_def commutative_pool_def pool_of_def)
    ultimately show ?thesis using Cons.IH[OF s1(2)] by blast
  qed
qed simp


definition demo_row :: "i64 \<Rightarrow> LineJson list option \<Rightarrow> LineJson list option inbox_row" where
  "demo_row i js = \<lparr>ib_id = i, ib_trx_type = ''po_receipt'', ib_source_id = i, ib_posted_at = 5, ib_lines = js,
     ib_status = Inbox_pending, ib_error = None\<rparr>"

definition demo_inbox :: "LineJson list option inbox_row list" where
  "demo_inbox = [demo_row 1 (Some [demo_json 99 1 1]), demo_row 2 None, demo_row 3 (Some demo_submission)]"

definition demo_value :: "LineJson list option \<Rightarrow> string + LineJson list" where
  "demo_value js = (case js of None \<Rightarrow> Inl ''expected an array'' | Some ls \<Rightarrow> Inr ls)"

lemma demo_succeed:
  "map cd_id (succeed (snd (decode_rows Some demo_value (claim_rows (\<lambda>_. False) 10 demo_inbox))) demo_db) = [3]"
  "length (claim_rows (\<lambda>_. False) 10 demo_inbox) = 3" "map ib_id demo_inbox = [1, 2, 3]"
  by code_simp+


end
