(* ===== verification/Shmem.thy ===== *)
theory Shmem
  imports Prelude
begin

text \<open>
  Programs over shared memory. The queue extension (src/poc/queue-extension/src/queue.rs) keeps its
  state in PostgreSQL shared memory and touches it through Rust atomics, from many backends at once. A
  program is the sequence of its atomic accesses: every step is one indivisible read-modify-write of
  the state and hands the state it read to the rest of the program. The accesses are sequentially
  consistent here; the orderings written in the source (Acquire, Release, AcqRel) promise less.

  The theory gives the sequential execution of a program, the execution of several programs under an
  arbitrary schedule, and a proof rule for the latter: each thread states what it tolerates from the
  others and what its own steps do, and the locale interference composes these statements.
\<close>

section \<open>Programs\<close>

datatype ('s, 'a) prog =
    Return 'a
  | Panicked
  | Step "'s \<Rightarrow> 's" "'s \<Rightarrow> ('s, 'a) prog"

primrec pbind :: "('s, 'a) prog \<Rightarrow> ('a \<Rightarrow> ('s, 'b) prog) \<Rightarrow> ('s, 'b) prog" where
  "pbind (Return x) f = f x"
| "pbind Panicked f = Panicked"
| "pbind (Step u k) f = Step u (\<lambda>s. pbind (k s) f)"

text \<open>A panic ends the program and leaves the shared state as it is: nothing rolls shared memory back.\<close>

primrec exec :: "('s, 'a) prog \<Rightarrow> 's \<Rightarrow> 'a option \<times> 's" where
  "exec (Return x) s = (Some x, s)"
| "exec Panicked s = (None, s)"
| "exec (Step u k) s = exec (k s) (u s)"

definition load :: "('s \<Rightarrow> 'v) \<Rightarrow> ('s, 'v) prog" where
  "load get = Step (\<lambda>s. s) (\<lambda>s. Return (get s))"

definition store :: "('s \<Rightarrow> 's) \<Rightarrow> ('s, unit) prog" where
  "store upd = Step upd (\<lambda>_. Return ())"

definition fetch_update :: "('s \<Rightarrow> 'v) \<Rightarrow> ('s \<Rightarrow> 's) \<Rightarrow> ('s, 'v) prog" where
  "fetch_update get upd = Step upd (\<lambda>s. Return (get s))"

text \<open>The result of a compare-and-exchange is \<open>Inr\<close> the old value on success and \<open>Inl\<close> the actual one on failure.\<close>

definition compare_exchange :: "('s \<Rightarrow> 'v) \<Rightarrow> ('v \<Rightarrow> 's \<Rightarrow> 's) \<Rightarrow> 'v \<Rightarrow> 'v \<Rightarrow> ('s, 'v + 'v) prog" where
  "compare_exchange get put current new =
    Step (\<lambda>s. if get s = current then put new s else s)
      (\<lambda>s. Return (if get s = current then Inr current else Inl (get s)))"

primrec stores :: "('s \<Rightarrow> 's) list \<Rightarrow> ('s, unit) prog" where
  "stores [] = Return ()"
| "stores (u # us) = Step u (\<lambda>_. stores us)"

text \<open>The body of an exclusive lock section is one step: no other access happens while the lock is held.\<close>

definition exclusive :: "('s, 'a) prog \<Rightarrow> ('s, 'a) prog" where
  "exclusive p = Step (\<lambda>s. snd (exec p s)) (\<lambda>s. case fst (exec p s) of None \<Rightarrow> Panicked | Some x \<Rightarrow> Return x)"

primrec pfold :: "('x \<Rightarrow> 'b \<Rightarrow> ('s, 'b) prog) \<Rightarrow> 'x list \<Rightarrow> 'b \<Rightarrow> ('s, 'b) prog" where
  "pfold f [] b = Return b"
| "pfold f (x # xs) b = pbind (f x b) (pfold f xs)"

definition guarded :: "bool \<Rightarrow> ('s, 'a) prog \<Rightarrow> ('s, 'a) prog" where
  "guarded b p = (if b then p else Panicked)"

named_theorems prog_defs \<open>the atomic accesses, unfolded\<close>

declare load_def [prog_defs] store_def [prog_defs] fetch_update_def [prog_defs]
  compare_exchange_def [prog_defs] guarded_def [prog_defs]

lemma pbind_assoc [simp]: "pbind (pbind p f) g = pbind p (\<lambda>x. pbind (f x) g)"
  by (induction p) auto

lemma pbind_Return [simp]: "pbind p Return = p"
  by (induction p) auto

lemma exec_pbind:
  "exec (pbind p f) s = (case exec p s of (None, s') \<Rightarrow> (None, s') | (Some x, s') \<Rightarrow> exec (f x) s')"
  by (induction p arbitrary: s) auto

lemma exec_load [simp]: "exec (load get) s = (Some (get s), s)"
  by (simp add: load_def)

lemma exec_store [simp]: "exec (store upd) s = (Some (), upd s)"
  by (simp add: store_def)

lemma exec_fetch_update [simp]: "exec (fetch_update get upd) s = (Some (get s), upd s)"
  by (simp add: fetch_update_def)

lemma exec_compare_exchange [simp]:
  "exec (compare_exchange get put c n) s =
    (if get s = c then (Some (Inr c), put n s) else (Some (Inl (get s)), s))"
  by (simp add: compare_exchange_def)

lemma exec_stores [simp]: "exec (stores us) s = (Some (), fold (\<lambda>u. u) us s)"
  by (induction us arbitrary: s) auto

lemma exec_exclusive [simp]: "exec (exclusive p) s = exec p s"
  by (simp add: exclusive_def split: option.splits prod.splits) (metis prod.collapse)

lemma exec_guarded [simp]: "exec (guarded b p) s = (if b then exec p s else (None, s))"
  by (simp add: guarded_def)

section \<open>Schedules\<close>

text \<open>
  A schedule names, step by step, the thread that moves next. A thread that has finished, that does not
  exist or that is not ready (its process is gone) stays where it is.
\<close>

type_synonym ('s, 'a) config = "'s \<times> ('s, 'a) prog list"

definition advance :: "(nat \<Rightarrow> 's \<Rightarrow> bool) \<Rightarrow> nat \<Rightarrow> ('s, 'a) config \<Rightarrow> ('s, 'a) config" where
  "advance ready i c =
    (let (s, ts) = c in
     if i < length ts \<and> ready i s
     then (case ts ! i of Step u k \<Rightarrow> (u s, ts[i := k s]) | _ \<Rightarrow> c)
     else c)"

primrec run_schedule :: "(nat \<Rightarrow> 's \<Rightarrow> bool) \<Rightarrow> nat list \<Rightarrow> ('s, 'a) config \<Rightarrow> ('s, 'a) config" where
  "run_schedule ready [] c = c"
| "run_schedule ready (i # is) c = run_schedule ready is (advance ready i c)"

section \<open>Threads that tolerate each other\<close>

text \<open>
  \<open>safe R T A Q p h s\<close>: started in \<open>s\<close> with the claim \<open>h\<close> (what the thread holds), and as long as the
  others only make changes that \<open>T h\<close> allows, every step that \<open>p\<close> takes while it is ready (\<open>R\<close>) is one
  that \<open>A\<close> describes, possibly changing the claim, and a result \<open>x\<close> satisfies \<open>Q x\<close>.
\<close>

primrec safe ::
  "('s \<Rightarrow> bool) \<Rightarrow> ('h \<Rightarrow> 's \<Rightarrow> 's \<Rightarrow> bool) \<Rightarrow> ('h \<Rightarrow> 's \<Rightarrow> 'h \<Rightarrow> 's \<Rightarrow> bool) \<Rightarrow> ('a \<Rightarrow> 'h \<Rightarrow> 's \<Rightarrow> bool) \<Rightarrow>
    ('s, 'a) prog \<Rightarrow> 'h \<Rightarrow> 's \<Rightarrow> bool" where
  "safe R T A Q (Return x) h s = (\<forall>s'. T h s s' \<longrightarrow> Q x h s')"
| "safe R T A Q Panicked h s = True"
| "safe R T A Q (Step u k) h s =
    (\<forall>s'. T h s s' \<longrightarrow> R s' \<longrightarrow> (\<exists>h'. A h s' h' (u s') \<and> safe R T A Q (k s') h' (u s')))"

lemma safe_mono:
  assumes "safe R T A Q p h s" "\<And>x h s. Q x h s \<Longrightarrow> Q' x h s"
  shows "safe R T A Q' p h s"
  using assms(1)
proof (induction p arbitrary: h s)
  case (Return x)
  then show ?case using assms(2) by simp
next
  case Panicked
  then show ?case by simp
next
  case (Step u k)
  show ?case unfolding safe.simps
  proof (intro allI impI)
    fix s' assume "T h s s'" "R s'"
    then obtain h' where "A h s' h' (u s')" "safe R T A Q (k s') h' (u s')" using Step.prems by auto
    then show "\<exists>h'. A h s' h' (u s') \<and> safe R T A Q' (k s') h' (u s')" using Step.IH by auto
  qed
qed

lemma safe_pbind:
  assumes "safe R T A Q p h s" "\<And>h s. T h s s" "\<And>x h s. Q x h s \<Longrightarrow> safe R T A Q' (f x) h s"
  shows "safe R T A Q' (pbind p f) h s"
  using assms(1)
proof (induction p arbitrary: h s)
  case (Return x)
  then show ?case using assms(2,3) by simp
next
  case Panicked
  then show ?case by simp
next
  case (Step u k)
  show ?case unfolding pbind.simps safe.simps
  proof (intro allI impI)
    fix s' assume "T h s s'" "R s'"
    then obtain h' where "A h s' h' (u s')" "safe R T A Q (k s') h' (u s')" using Step.prems by auto
    then show "\<exists>h'. A h s' h' (u s') \<and> safe R T A Q' (pbind (k s') f) h' (u s')" using Step.IH by auto
  qed
qed

lemma safe_stable:
  assumes "safe R T A Q p h s" "T h s s'" "\<And>h s s' s''. T h s s' \<Longrightarrow> T h s' s'' \<Longrightarrow> T h s s''"
  shows "safe R T A Q p h s'"
proof (cases p)
  case (Step u k)
  then show ?thesis using assms(1) assms(3)[OF assms(2)] by auto
qed (use assms(1) assms(3)[OF assms(2)] in auto)

text \<open>\<open>only G p\<close>: every step of \<open>p\<close>, from whatever state it is taken, is one that \<open>G\<close> describes.\<close>

primrec only :: "('s \<Rightarrow> 's \<Rightarrow> bool) \<Rightarrow> ('s, 'a) prog \<Rightarrow> bool" where
  "only G (Return x) = True"
| "only G Panicked = True"
| "only G (Step u k) = (\<forall>s. G s (u s) \<and> only G (k s))"

named_theorems only_intros \<open>programs whose steps are described by a relation\<close>

lemma only_Return [only_intros]: "only G (Return x)"
  by simp

lemma only_pbind [only_intros]: "only G p \<Longrightarrow> (\<And>x. only G (f x)) \<Longrightarrow> only G (pbind p f)"
  by (induction p) auto

lemma only_load [only_intros]: "(\<And>s. G s s) \<Longrightarrow> only G (load get)"
  by (simp add: load_def)

lemma only_store [only_intros]: "(\<And>s. G s (u s)) \<Longrightarrow> only G (store u)"
  by (simp add: store_def)

lemma only_fetch_update [only_intros]: "(\<And>s. G s (u s)) \<Longrightarrow> only G (fetch_update get u)"
  by (simp add: fetch_update_def)

lemma only_compare_exchange [only_intros]:
  "(\<And>s. get s = c \<Longrightarrow> G s (put n s)) \<Longrightarrow> (\<And>s. G s s) \<Longrightarrow> only G (compare_exchange get put c n)"
  by (simp add: compare_exchange_def)

lemma only_stores [only_intros]: "(\<And>u s. u \<in> set us \<Longrightarrow> G s (u s)) \<Longrightarrow> only G (stores us)"
  by (induction us) auto

lemma only_guarded [only_intros]: "(b \<Longrightarrow> only G p) \<Longrightarrow> only G (guarded b p)"
  by (simp add: guarded_def)

lemma only_pfold [only_intros]: "(\<And>x b. x \<in> set xs \<Longrightarrow> only G (f x b)) \<Longrightarrow> only G (pfold f xs b)"
  by (induction xs arbitrary: b) (auto intro!: only_pbind)

lemma only_exec:
  assumes "only G p" "\<And>s. G s s" "\<And>s s' s''. G s s' \<Longrightarrow> G s' s'' \<Longrightarrow> G s s''"
  shows "G s (snd (exec p s))"
  using assms(1)
proof (induction p arbitrary: s)
  case (Step u k)
  then have "G s (u s)" "G (u s) (snd (exec (k s) (u s)))" by auto
  then show ?case using assms(3) by simp
qed (simp_all add: assms(2))

lemma only_exclusive:
  assumes "only G p" "\<And>s. G s s" "\<And>s s' s''. G s s' \<Longrightarrow> G s' s'' \<Longrightarrow> G s s''"
  shows "only G (exclusive p)"
  using only_exec[OF assms] by (simp add: exclusive_def split: option.splits)

lemma only_mono: "only G p \<Longrightarrow> (\<And>s s'. G s s' \<Longrightarrow> G' s s') \<Longrightarrow> only G' p"
  by (induction p) auto

text \<open>A program whose steps keep the claim and an invariant that the others keep, too.\<close>

lemma only_safe:
  assumes "only G p" "\<And>s s'. I s \<Longrightarrow> R s \<Longrightarrow> G s s' \<Longrightarrow> A h s h s' \<and> I s'" "\<And>s s'. I s \<Longrightarrow> T h s s' \<Longrightarrow> I s'" "I s"
  shows "safe R T A (\<lambda>_ h' s. h' = h \<and> I s) p h s"
  using assms(1,4)
proof (induction p arbitrary: s)
  case (Return x)
  then show ?case using assms(3) by auto
next
  case Panicked
  then show ?case by simp
next
  case (Step u k)
  show ?case unfolding safe.simps
  proof (intro allI impI)
    fix s' assume s': "T h s s'" "R s'"
    have "I s'" using assms(3) Step.prems(2) s'(1) by blast
    moreover have "G s' (u s')" "only G (k s')" using Step.prems(1) by auto
    ultimately have "A h s' h (u s')" "safe R T A (\<lambda>_ h' s. h' = h \<and> I s) (k s') h (u s')"
      using assms(2)[of s' "u s'"] Step.IH[of "k s'" "u s'"] s'(2) by auto
    then show "\<exists>h'. A h s' h' (u s') \<and> safe R T A (\<lambda>_ h' s. h' = h \<and> I s) (k s') h' (u s')" by blast
  qed
qed

locale interference =
  fixes tolerates :: "nat \<Rightarrow> 'h \<Rightarrow> 's \<Rightarrow> 's \<Rightarrow> bool"
    and acts :: "nat \<Rightarrow> 'h \<Rightarrow> 's \<Rightarrow> 'h \<Rightarrow> 's \<Rightarrow> bool"
    and compatible :: "(nat \<Rightarrow> 'h) \<Rightarrow> 's \<Rightarrow> bool"
    and ready :: "nat \<Rightarrow> 's \<Rightarrow> bool"
  assumes tolerates_refl: "tolerates i h s s"
    and tolerates_trans: "tolerates i h s s' \<Longrightarrow> tolerates i h s' s'' \<Longrightarrow> tolerates i h s s''"
    and acts_compatible:
      "compatible H s \<Longrightarrow> ready i s \<Longrightarrow> acts i (H i) s h' s' \<Longrightarrow> compatible (H(i := h')) s'"
    and acts_tolerated:
      "compatible H s \<Longrightarrow> ready i s \<Longrightarrow> acts i (H i) s h' s' \<Longrightarrow> j \<noteq> i \<Longrightarrow> tolerates j (H j) s s'"
begin

definition all_safe :: "(nat \<Rightarrow> 'a \<Rightarrow> 'h \<Rightarrow> 's \<Rightarrow> bool) \<Rightarrow> (nat \<Rightarrow> 'h) \<Rightarrow> ('s, 'a) config \<Rightarrow> bool" where
  "all_safe Q H c \<longleftrightarrow> compatible H (fst c) \<and>
    (\<forall>i < length (snd c). safe (ready i) (tolerates i) (acts i) (Q i) (snd c ! i) (H i) (fst c))"

lemma bind_safe:
  assumes "safe (ready i) (tolerates i) (acts i) Q p h s" "\<And>x h s. Q x h s \<Longrightarrow> safe (ready i) (tolerates i) (acts i) Q' (f x) h s"
  shows "safe (ready i) (tolerates i) (acts i) Q' (pbind p f) h s"
  using safe_pbind[OF assms(1) tolerates_refl assms(2)] .

lemma advance_safe:
  assumes "all_safe Q H c"
  shows "\<exists>H'. all_safe Q H' (advance ready i c)"
proof (cases c)
  case (Pair s ts)
  show ?thesis
  proof (cases "i < length ts \<and> ready i s \<and> (\<exists>u k. ts ! i = Step u k)")
    case True
    then obtain u k where i: "i < length ts" "ready i s" "ts ! i = Step u k" by blast
    have c: "compatible H s" and safe: "\<And>j. j < length ts \<Longrightarrow> safe (ready j) (tolerates j) (acts j) (Q j) (ts ! j) (H j) s"
      using assms Pair by (auto simp: all_safe_def)
    obtain h' where h: "acts i (H i) s h' (u s)" "safe (ready i) (tolerates i) (acts i) (Q i) (k s) h' (u s)"
      using safe[OF i(1)] tolerates_refl[of i "H i" s] i(2) unfolding i(3) safe.simps by blast
    have others: "safe (ready j) (tolerates j) (acts j) (Q j) (ts ! j) (H j) (u s)" if "j < length ts" "j \<noteq> i" for j
      using safe_stable[OF safe[OF that(1)] acts_tolerated[OF c i(2) h(1) that(2)] tolerates_trans] .
    have "all_safe Q (H(i := h')) (u s, ts[i := k s])"
      using acts_compatible[OF c i(2) h(1)] h(2) others by (auto simp: all_safe_def nth_list_update)
    then show ?thesis using i Pair by (auto simp: advance_def)
  next
    case False
    then have "advance ready i c = c" using Pair by (cases "ts ! i") (auto simp: advance_def)
    then show ?thesis using assms by auto
  qed
qed

lemma schedule_safe:
  assumes "all_safe Q H c"
  shows "\<exists>H'. all_safe Q H' (run_schedule ready is c)"
  using assms
proof (induction "is" arbitrary: H c)
  case Nil
  then show ?case by auto
next
  case (Cons i "is")
  obtain H' where "all_safe Q H' (advance ready i c)" using advance_safe[OF Cons.prems] by blast
  from Cons.IH[OF this] show ?case by simp
qed

lemma results_agree:
  assumes "all_safe Q H c" "run_schedule ready is c = (s, ts)"
  obtains H' where "compatible H' s"
    "\<And>i x. i < length ts \<Longrightarrow> ts ! i = Return x \<Longrightarrow> Q i x (H' i) s"
proof -
  obtain H' where "all_safe Q H' (s, ts)" using schedule_safe[OF assms(1), of "is"] assms(2) by auto
  then have c: "compatible H' s" and
    safe: "\<And>i. i < length ts \<Longrightarrow> safe (ready i) (tolerates i) (acts i) (Q i) (ts ! i) (H' i) s"
    by (simp_all add: all_safe_def)
  show thesis
  proof (rule that[OF c])
    fix i x assume "i < length ts" and x: "ts ! i = Return x"
    from safe[OF this(1)] show "Q i x (H' i) s" unfolding x safe.simps using tolerates_refl by blast
  qed
qed

end

end
