(* ===== verification/Queue.thy ===== *)
theory Queue
  imports Shmem "HOL-Library.Word"
begin

text \<open>
  The shared-memory queue, src/poc/queue-extension/src/queue.rs: per shard a ring of pending requests, a
  pool of result slots and the committer lease. Every function of the source is a program of
  \<^const>\<open>Step\<close>s over the record \<open>shmem\<close>, one step per atomic access; a function that runs under the
  exclusive lock is one step. Unsigned integers are words of their width, so \<open>head\<close> and \<open>tail\<close> wrap as
  they do in the source; \<open>i64\<close> and \<open>i32\<close> values are integers that are only stored and compared. The
  clock, the process table (\<open>kill(pid, 0)\<close>) and the calling process are parameters.
\<close>

unbundle bit_operations_syntax

type_synonym u8 = "8 word"
type_synonym u16 = "16 word"
type_synonym u32 = "32 word"
type_synonym u64 = "64 word"
type_synonym pid = int

section \<open>Sizes and states\<close>

definition POC_SHARD_COUNT :: nat where "POC_SHARD_COUNT = 16"

definition POC_REQUESTS_PER_SHARD :: nat where "POC_REQUESTS_PER_SHARD = 512"

definition POC_SLOTS_PER_SHARD :: nat where "POC_SLOTS_PER_SHARD = 512"

definition POC_MAX_SLOT_PROBE :: nat where "POC_MAX_SLOT_PROBE = 16"

definition SLOT_FREE :: u8 where "SLOT_FREE = 0"

definition SLOT_ALLOCATED :: u8 where "SLOT_ALLOCATED = 1"

definition SLOT_FILLED :: u8 where "SLOT_FILLED = 2"

definition SLOT_ABANDONED :: u8 where "SLOT_ABANDONED = 3"

definition REQ_EMPTY :: u8 where "REQ_EMPTY = 0"

definition REQ_FILLED :: u8 where "REQ_FILLED = 1"

definition REQ_IN_FLIGHT :: u8 where "REQ_IN_FLIGHT = 3"

definition REQ_KIND_APPLY :: u8 where "REQ_KIND_APPLY = 0"

definition REQ_KIND_COMPENSATE :: u8 where "REQ_KIND_COMPENSATE = 1"

lemmas slot_states = SLOT_FREE_def SLOT_ALLOCATED_def SLOT_FILLED_def SLOT_ABANDONED_def

lemmas req_states = REQ_EMPTY_def REQ_FILLED_def REQ_IN_FLIGHT_def

lemmas req_kinds = REQ_KIND_APPLY_def REQ_KIND_COMPENSATE_def

lemmas poc_sizes = POC_SHARD_COUNT_def POC_REQUESTS_PER_SHARD_def POC_SLOTS_PER_SHARD_def POC_MAX_SLOT_PROBE_def

section \<open>Data\<close>

record PocQueueShard =
  sh_head :: u32
  sh_tail :: u32
  sh_capacity :: u32
  sh_committer_pid :: pid
  sh_committer_acquired_at_ns :: u64
  sh_committer_tx_seq :: u64
  sh_next_request_seq :: u64
  sh_next_slot_seq :: u64
  sh_ring_full_waiter_pid :: pid
  sh_error_count :: u64

text \<open>The nine words \<open>body0\<close> to \<open>body8\<close> of a request are the list \<open>rq_body\<close>.\<close>

record PocPendingRequest =
  rq_valid :: u8
  rq_request_seq :: u64
  rq_pool_hash :: u64
  rq_backend_pid :: pid
  rq_slot_idx :: u32
  rq_kind_tag :: u8
  rq_body :: "i64 list"

record PocResultSlot =
  sl_state :: u8
  sl_waiter_pid :: pid
  sl_applied_unit_cost :: i64
  sl_applied_total_cost :: i64
  sl_committer_tx_id :: i64
  sl_error_code :: u16
  sl_depletion_count :: u16
  sl_depletion_ids_inline :: "i64 list"
  sl_spillover_offset :: u32
  sl_issue_id :: i64
  sl_current_request_seq :: u64
  sl_acquired_at_ns :: u64
  sl_set_latched_at_ns :: u64

record PocMethodStats =
  ms_dispatch_count :: u64
  ms_error_count :: u64
  ms_latency_buckets :: "u64 list"

record PocPerShardBatchRing =
  br_head :: u32
  br_samples :: "u32 list"

record PocRecoveryStats =
  rs_backpressure_count :: u64
  rs_committer_tx_failures :: u64
  rs_orphan_compensations :: u64
  rs_lease_takeovers :: u64
  rs_batch_rings :: "PocPerShardBatchRing list"

record PocBottleneckStats =
  bn_plan_apply_total_ns :: u64
  bn_wake_total_ns :: u64
  bn_wake_sample_count :: u64
  bn_wake_buckets :: "u64 list"

text \<open>
  The four shared segments: the arena (shards, requests and slots, indexed by shard), the method
  statistics, the recovery statistics and the bottleneck statistics. A model that needs more state
  extends this record.
\<close>

record shmem =
  ar_shards :: "PocQueueShard list"
  ar_requests :: "PocPendingRequest list list"
  ar_slots :: "PocResultSlot list list"
  ar_methods :: "PocMethodStats list"
  ar_recovery :: PocRecoveryStats
  ar_bottleneck :: PocBottleneckStats

section \<open>Locations\<close>

definition shard_at :: "nat \<Rightarrow> 'z shmem_scheme \<Rightarrow> PocQueueShard" where
  "shard_at i s = ar_shards s ! i"

definition upd_shard :: "nat \<Rightarrow> (PocQueueShard \<Rightarrow> PocQueueShard) \<Rightarrow> 'z shmem_scheme \<Rightarrow> 'z shmem_scheme" where
  "upd_shard i f s = s\<lparr>ar_shards := (ar_shards s)[i := f (shard_at i s)]\<rparr>"

definition request_at :: "nat \<Rightarrow> nat \<Rightarrow> 'z shmem_scheme \<Rightarrow> PocPendingRequest" where
  "request_at i k s = ar_requests s ! i ! k"

definition upd_request ::
  "nat \<Rightarrow> nat \<Rightarrow> (PocPendingRequest \<Rightarrow> PocPendingRequest) \<Rightarrow> 'z shmem_scheme \<Rightarrow> 'z shmem_scheme" where
  "upd_request i k f s =
    s\<lparr>ar_requests := (ar_requests s)[i := (ar_requests s ! i)[k := f (request_at i k s)]]\<rparr>"

definition slot_at :: "nat \<Rightarrow> nat \<Rightarrow> 'z shmem_scheme \<Rightarrow> PocResultSlot" where
  "slot_at i j s = ar_slots s ! i ! j"

definition upd_slot ::
  "nat \<Rightarrow> nat \<Rightarrow> (PocResultSlot \<Rightarrow> PocResultSlot) \<Rightarrow> 'z shmem_scheme \<Rightarrow> 'z shmem_scheme" where
  "upd_slot i j f s = s\<lparr>ar_slots := (ar_slots s)[i := (ar_slots s ! i)[j := f (slot_at i j s)]]\<rparr>"

definition slot_ref :: "nat \<Rightarrow> u32 \<Rightarrow> bool" where
  "slot_ref i j \<longleftrightarrow> i < POC_SHARD_COUNT \<and> unat j < POC_SLOTS_PER_SHARD"

definition cas_slot_state :: "nat \<Rightarrow> nat \<Rightarrow> u8 \<Rightarrow> u8 \<Rightarrow> ('z shmem_scheme, u8 + u8) prog" where
  "cas_slot_state i j =
    compare_exchange (\<lambda>s. sl_state (slot_at i j s)) (\<lambda>v. upd_slot i j (\<lambda>r. r\<lparr>sl_state := v\<rparr>))"

text \<open>\<open>Result<(), T>\<close> from the result of a compare-and-exchange.\<close>

definition cas_unit :: "'v + 'v \<Rightarrow> 'v + unit" where
  "cas_unit r = (case r of Inl actual \<Rightarrow> Inl actual | Inr _ \<Rightarrow> Inr ())"
section \<open>The slot pool\<close>

text \<open>
  \<open>acquire_slot\<close> draws up to \<^const>\<open>POC_MAX_SLOT_PROBE\<close> sequence numbers and takes the first slot
  whose state it can exchange from free to allocated.
\<close>

primrec probe_slot :: "nat \<Rightarrow> u64 \<Rightarrow> nat \<Rightarrow> ('z shmem_scheme, u32 option) prog" where
  "probe_slot i now 0 = Return None"
| "probe_slot i now (Suc n) =
    pbind (fetch_update (\<lambda>s. sh_next_slot_seq (shard_at i s))
      (upd_shard i (\<lambda>h. h\<lparr>sh_next_slot_seq := sh_next_slot_seq h + 1\<rparr>))) (\<lambda>sq.
    let idx = unat sq mod POC_SLOTS_PER_SHARD in
    pbind (cas_slot_state i idx SLOT_FREE SLOT_ALLOCATED) (\<lambda>r.
    case r of
      Inr _ \<Rightarrow> pbind (store (upd_slot i idx (\<lambda>r. r\<lparr>sl_acquired_at_ns := now\<rparr>))) (\<lambda>_. Return (Some (of_nat idx)))
    | Inl _ \<Rightarrow> probe_slot i now n))"

definition acquire_slot :: "nat \<Rightarrow> u64 \<Rightarrow> ('z shmem_scheme, u32 option) prog" where
  "acquire_slot i now = guarded (i < POC_SHARD_COUNT) (probe_slot i now POC_MAX_SLOT_PROBE)"

definition clean_slot :: "(PocResultSlot \<Rightarrow> PocResultSlot) list" where
  "clean_slot =
    [\<lambda>r. r\<lparr>sl_applied_unit_cost := 0\<rparr>, \<lambda>r. r\<lparr>sl_applied_total_cost := 0\<rparr>, \<lambda>r. r\<lparr>sl_committer_tx_id := 0\<rparr>,
     \<lambda>r. r\<lparr>sl_error_code := 0\<rparr>, \<lambda>r. r\<lparr>sl_depletion_count := 0\<rparr>, \<lambda>r. r\<lparr>sl_spillover_offset := 0\<rparr>,
     \<lambda>r. r\<lparr>sl_waiter_pid := 0\<rparr>, \<lambda>r. r\<lparr>sl_issue_id := 0\<rparr>, \<lambda>r. r\<lparr>sl_current_request_seq := 0\<rparr>,
     \<lambda>r. r\<lparr>sl_acquired_at_ns := 0\<rparr>, \<lambda>r. r\<lparr>sl_set_latched_at_ns := 0\<rparr>]"

definition recycle_slot :: "nat \<Rightarrow> u32 \<Rightarrow> ('z shmem_scheme, u8 + u8) prog" where
  "recycle_slot i slot_idx =
    (let j = unat slot_idx in
     guarded (slot_ref i slot_idx)
      (pbind (load (\<lambda>s. sl_state (slot_at i j s))) (\<lambda>cur.
       if cur \<noteq> SLOT_FILLED \<and> cur \<noteq> SLOT_ABANDONED then Return (Inl cur)
       else
         pbind (stores (map (upd_slot i j) clean_slot)) (\<lambda>_.
         pbind (stores (map (\<lambda>n. upd_slot i j (\<lambda>r. r\<lparr>sl_depletion_ids_inline := (sl_depletion_ids_inline r)[n := 0]\<rparr>)) [0..<32])) (\<lambda>_.
         pbind (store (upd_slot i j (\<lambda>r. r\<lparr>sl_state := SLOT_FREE\<rparr>))) (\<lambda>_. Return (Inr cur)))))))"

definition set_slot_waiter_pid :: "nat \<Rightarrow> u32 \<Rightarrow> pid \<Rightarrow> ('z shmem_scheme, unit) prog" where
  "set_slot_waiter_pid i j p =
    guarded (slot_ref i j) (store (upd_slot i (unat j) (\<lambda>r. r\<lparr>sl_waiter_pid := p\<rparr>)))"

definition read_slot_waiter_pid :: "nat \<Rightarrow> u32 \<Rightarrow> ('z shmem_scheme, pid) prog" where
  "read_slot_waiter_pid i j = guarded (slot_ref i j) (load (\<lambda>s. sl_waiter_pid (slot_at i (unat j) s)))"

definition cas_ring_full_waiter :: "nat \<Rightarrow> pid \<Rightarrow> pid \<Rightarrow> ('z shmem_scheme, pid + pid) prog" where
  "cas_ring_full_waiter i =
    compare_exchange (\<lambda>s. sh_ring_full_waiter_pid (shard_at i s))
      (\<lambda>v. upd_shard i (\<lambda>h. h\<lparr>sh_ring_full_waiter_pid := v\<rparr>))"

definition set_ring_full_waiter :: "nat \<Rightarrow> pid \<Rightarrow> ('z shmem_scheme, pid + unit) prog" where
  "set_ring_full_waiter i p =
    guarded (i < POC_SHARD_COUNT) (pbind (cas_ring_full_waiter i 0 p) (\<lambda>r. Return (cas_unit r)))"

definition clear_ring_full_waiter_if_self :: "nat \<Rightarrow> pid \<Rightarrow> ('z shmem_scheme, unit) prog" where
  "clear_ring_full_waiter_if_self i my_pid =
    guarded (i < POC_SHARD_COUNT) (pbind (cas_ring_full_waiter i my_pid 0) (\<lambda>_. Return ()))"

definition read_ring_full_waiter :: "nat \<Rightarrow> ('z shmem_scheme, pid) prog" where
  "read_ring_full_waiter i = guarded (i < POC_SHARD_COUNT) (load (\<lambda>s. sh_ring_full_waiter_pid (shard_at i s)))"

definition mark_slot_filled :: "nat \<Rightarrow> u32 \<Rightarrow> ('z shmem_scheme, u8 + unit) prog" where
  "mark_slot_filled i j =
    guarded (slot_ref i j) (pbind (cas_slot_state i (unat j) SLOT_ALLOCATED SLOT_FILLED) (\<lambda>r. Return (cas_unit r)))"

definition mark_slot_abandoned :: "nat \<Rightarrow> u32 \<Rightarrow> ('z shmem_scheme, u8 + unit) prog" where
  "mark_slot_abandoned i j =
    guarded (slot_ref i j) (pbind (cas_slot_state i (unat j) SLOT_ALLOCATED SLOT_ABANDONED) (\<lambda>r. Return (cas_unit r)))"

definition slot_state :: "nat \<Rightarrow> u32 \<Rightarrow> ('z shmem_scheme, u8) prog" where
  "slot_state i j = guarded (slot_ref i j) (load (\<lambda>s. sl_state (slot_at i (unat j) s)))"

section \<open>The ring\<close>

text \<open>
  The stores of a push, in the order of the source; the state of the request is stamped last. The
  three push operations differ in what they write and in that \<open>ring_push_apply\<close> also stamps the slot.
\<close>

definition request_stores ::
  "u64 \<Rightarrow> u64 \<Rightarrow> pid \<Rightarrow> u32 \<Rightarrow> u8 \<Rightarrow> i64 list \<Rightarrow> (PocPendingRequest \<Rightarrow> PocPendingRequest) list" where
  "request_stores req_seq pool_hash backend_pid slot_idx kind_tag body =
    [\<lambda>r. r\<lparr>rq_request_seq := req_seq\<rparr>, \<lambda>r. r\<lparr>rq_pool_hash := pool_hash\<rparr>, \<lambda>r. r\<lparr>rq_backend_pid := backend_pid\<rparr>,
     \<lambda>r. r\<lparr>rq_slot_idx := slot_idx\<rparr>, \<lambda>r. r\<lparr>rq_kind_tag := kind_tag\<rparr>, \<lambda>r. r\<lparr>rq_body := body\<rparr>]"

definition ring_reserve ::
  "nat \<Rightarrow> (nat \<Rightarrow> u64 \<Rightarrow> ('z shmem_scheme, unit) prog) \<Rightarrow> ('z shmem_scheme, unit + u64) prog" where
  "ring_reserve i write =
    exclusive (guarded (i < POC_SHARD_COUNT)
      (pbind (load (\<lambda>s. sh_head (shard_at i s))) (\<lambda>head.
       pbind (load (\<lambda>s. sh_tail (shard_at i s))) (\<lambda>tail.
       if tail - head \<ge> of_nat POC_REQUESTS_PER_SHARD then Return (Inl ())
       else
         let idx = unat tail mod POC_REQUESTS_PER_SHARD in
         pbind (fetch_update (\<lambda>s. sh_next_request_seq (shard_at i s))
           (upd_shard i (\<lambda>h. h\<lparr>sh_next_request_seq := sh_next_request_seq h + 1\<rparr>))) (\<lambda>req_seq.
         pbind (write idx req_seq) (\<lambda>_.
         pbind (store (upd_request i idx (\<lambda>r. r\<lparr>rq_valid := REQ_FILLED\<rparr>))) (\<lambda>_.
         pbind (store (upd_shard i (\<lambda>h. h\<lparr>sh_tail := tail + 1\<rparr>))) (\<lambda>_. Return (Inr req_seq)))))))))"

definition ring_push :: "nat \<Rightarrow> u32 \<Rightarrow> u64 \<Rightarrow> u8 \<Rightarrow> pid \<Rightarrow> ('z shmem_scheme, unit + u64) prog" where
  "ring_push i slot_idx pool_hash kind_tag backend_pid =
    ring_reserve i (\<lambda>idx req_seq.
      stores (map (upd_request i idx)
        (request_stores req_seq pool_hash backend_pid slot_idx kind_tag (replicate 9 0))))"

definition ring_drain_one :: "nat \<Rightarrow> ('z shmem_scheme, u32 option) prog" where
  "ring_drain_one i =
    exclusive (guarded (i < POC_SHARD_COUNT)
      (pbind (load (\<lambda>s. sh_head (shard_at i s))) (\<lambda>head.
       pbind (load (\<lambda>s. sh_tail (shard_at i s))) (\<lambda>tail.
       if head = tail then Return None
       else
         let idx = unat head mod POC_REQUESTS_PER_SHARD in
         pbind (load (\<lambda>s. rq_slot_idx (request_at i idx s))) (\<lambda>slot_idx.
         pbind (store (upd_request i idx (\<lambda>r. r\<lparr>rq_valid := REQ_IN_FLIGHT\<rparr>))) (\<lambda>_.
         pbind (store (upd_shard i (\<lambda>h. h\<lparr>sh_head := head + 1\<rparr>))) (\<lambda>_. Return (Some slot_idx))))))))"

record DrainedApply =
  da_slot_idx :: u32
  da_request_seq :: u64
  da_pool_hash :: u64
  da_backend_pid :: pid
  da_method_tag :: u8
  da_event_qty :: i64
  da_event_at_micros :: i64
  da_event_issue_id :: i64
  da_event_sku_id :: i64
  da_event_location_id :: i64
  da_user_tx_xid :: i64

text \<open>
  What the caller of \<open>ring_push_apply\<close> passes is the record of a drained request without its
  sequence number: \<open>slot_idx\<close>, \<open>pool_hash\<close>, \<open>backend_pid\<close>, \<open>method_tag\<close> and the event.
\<close>

definition apply_body :: "DrainedApply \<Rightarrow> i64 list" where
  "apply_body d =
    [uint (da_method_tag d), da_event_qty d, da_event_at_micros d, da_event_issue_id d,
     da_event_sku_id d, da_event_location_id d, da_user_tx_xid d, 0, 0]"

definition ring_push_apply :: "nat \<Rightarrow> DrainedApply \<Rightarrow> ('z shmem_scheme, unit + u64) prog" where
  "ring_push_apply i d =
    ring_reserve i (\<lambda>idx req_seq.
      pbind (stores (map (upd_request i idx)
        (request_stores req_seq (da_pool_hash d) (da_backend_pid d) (da_slot_idx d) REQ_KIND_APPLY (apply_body d)))) (\<lambda>_.
      guarded (unat (da_slot_idx d) < POC_SLOTS_PER_SHARD)
        (pbind (store (upd_slot i (unat (da_slot_idx d)) (\<lambda>r. r\<lparr>sl_issue_id := da_event_issue_id d\<rparr>))) (\<lambda>_.
         store (upd_slot i (unat (da_slot_idx d)) (\<lambda>r. r\<lparr>sl_current_request_seq := req_seq\<rparr>))))))"

definition drained_apply :: "PocPendingRequest \<Rightarrow> DrainedApply" where
  "drained_apply r =
    \<lparr>da_slot_idx = rq_slot_idx r, da_request_seq = rq_request_seq r, da_pool_hash = rq_pool_hash r,
      da_backend_pid = rq_backend_pid r, da_method_tag = word_of_int (rq_body r ! 0), da_event_qty = rq_body r ! 1,
      da_event_at_micros = rq_body r ! 2, da_event_issue_id = rq_body r ! 3, da_event_sku_id = rq_body r ! 4,
      da_event_location_id = rq_body r ! 5, da_user_tx_xid = rq_body r ! 6\<rparr>"

text \<open>
  The two batch drains run the same loop: positions whose request was never written are passed over, a
  request of the other kind ends the batch, every other one is copied out and marked in flight.
\<close>

primrec drain_entries ::
  "nat \<Rightarrow> u8 \<Rightarrow> (PocPendingRequest \<Rightarrow> 'b) \<Rightarrow> u32 \<Rightarrow> nat \<Rightarrow> nat \<Rightarrow> u32 \<Rightarrow> 'b list \<Rightarrow>
    ('z shmem_scheme, u32 \<times> 'b list) prog" where
  "drain_entries i kind copy head_start k 0 consumed out = Return (consumed, out)"
| "drain_entries i kind copy head_start k (Suc n) consumed out =
    (let idx = unat (head_start + of_nat k) mod POC_REQUESTS_PER_SHARD in
     pbind (load (\<lambda>s. rq_valid (request_at i idx s))) (\<lambda>v.
     if v = REQ_EMPTY then drain_entries i kind copy head_start (Suc k) n (consumed + 1) out
     else
       pbind (load (\<lambda>s. rq_kind_tag (request_at i idx s))) (\<lambda>tag.
       if tag \<noteq> kind then Return (consumed, out)
       else
         pbind (load (\<lambda>s. copy (request_at i idx s))) (\<lambda>d.
         pbind (store (upd_request i idx (\<lambda>r. r\<lparr>rq_valid := REQ_IN_FLIGHT\<rparr>))) (\<lambda>_.
         drain_entries i kind copy head_start (Suc k) n (consumed + 1) (out @ [d]))))))"

definition drain_batch ::
  "nat \<Rightarrow> u8 \<Rightarrow> (PocPendingRequest \<Rightarrow> 'b) \<Rightarrow> nat \<Rightarrow> ('z shmem_scheme, 'b list) prog" where
  "drain_batch i kind copy max_batch =
    exclusive (guarded (i < POC_SHARD_COUNT)
      (pbind (load (\<lambda>s. sh_head (shard_at i s))) (\<lambda>head_start.
       pbind (load (\<lambda>s. sh_tail (shard_at i s))) (\<lambda>tail.
       let n = min (unat (tail - head_start)) max_batch in
       if n = 0 then Return []
       else
         pbind (drain_entries i kind copy head_start 0 n 0 []) (\<lambda>(consumed, out).
         pbind (store (upd_shard i (\<lambda>h. h\<lparr>sh_head := head_start + consumed\<rparr>))) (\<lambda>_. Return out))))))"

definition drain_apply_batch :: "nat \<Rightarrow> nat \<Rightarrow> ('z shmem_scheme, DrainedApply list) prog" where
  "drain_apply_batch i = drain_batch i REQ_KIND_APPLY drained_apply"

record DrainedCompensate =
  dc_request_seq :: u64
  dc_user_tx_xid :: i64

definition ring_push_compensate :: "nat \<Rightarrow> i64 \<Rightarrow> ('z shmem_scheme, unit + u64) prog" where
  "ring_push_compensate i user_tx_xid =
    ring_reserve i (\<lambda>idx req_seq.
      stores (map (upd_request i idx)
        (request_stores req_seq 0 0 (- 1) REQ_KIND_COMPENSATE (user_tx_xid # replicate 8 0))))"

definition drained_compensate :: "PocPendingRequest \<Rightarrow> DrainedCompensate" where
  "drained_compensate r = \<lparr>dc_request_seq = rq_request_seq r, dc_user_tx_xid = rq_body r ! 0\<rparr>"

definition drain_compensate_batch :: "nat \<Rightarrow> nat \<Rightarrow> ('z shmem_scheme, DrainedCompensate list) prog" where
  "drain_compensate_batch i = drain_batch i REQ_KIND_COMPENSATE drained_compensate"
section \<open>Results\<close>

definition fill_slot_result_with_error ::
  "nat \<Rightarrow> u32 \<Rightarrow> i64 \<Rightarrow> i64 \<Rightarrow> i64 \<Rightarrow> u16 \<Rightarrow> ('z shmem_scheme, u8 + unit) prog" where
  "fill_slot_result_with_error i slot_idx unit_cost total_cost committer_tx_id error_code =
    (let j = unat slot_idx in
     guarded (slot_ref i slot_idx)
      (pbind (stores (map (upd_slot i j)
         [\<lambda>r. r\<lparr>sl_applied_unit_cost := unit_cost\<rparr>, \<lambda>r. r\<lparr>sl_applied_total_cost := total_cost\<rparr>,
          \<lambda>r. r\<lparr>sl_committer_tx_id := committer_tx_id\<rparr>, \<lambda>r. r\<lparr>sl_error_code := error_code\<rparr>])) (\<lambda>_.
       pbind (cas_slot_state i j SLOT_ALLOCATED SLOT_FILLED) (\<lambda>r. Return (cas_unit r)))))"

definition fill_slot_result ::
  "nat \<Rightarrow> u32 \<Rightarrow> i64 \<Rightarrow> i64 \<Rightarrow> i64 \<Rightarrow> ('z shmem_scheme, u8 + unit) prog" where
  "fill_slot_result i slot_idx unit_cost total_cost committer_tx_id =
    fill_slot_result_with_error i slot_idx unit_cost total_cost committer_tx_id 0"

text \<open>The reader loads the four result fields first and the state last, as the source does.\<close>

definition read_slot_result_with_error ::
  "nat \<Rightarrow> u32 \<Rightarrow> ('z shmem_scheme, u8 \<times> i64 \<times> i64 \<times> i64 \<times> u16) prog" where
  "read_slot_result_with_error i slot_idx =
    (let j = unat slot_idx in
     guarded (slot_ref i slot_idx)
      (pbind (load (\<lambda>s. sl_applied_unit_cost (slot_at i j s))) (\<lambda>u.
       pbind (load (\<lambda>s. sl_applied_total_cost (slot_at i j s))) (\<lambda>total.
       pbind (load (\<lambda>s. sl_committer_tx_id (slot_at i j s))) (\<lambda>ctx.
       pbind (load (\<lambda>s. sl_error_code (slot_at i j s))) (\<lambda>err.
       pbind (load (\<lambda>s. sl_state (slot_at i j s))) (\<lambda>state.
       Return (state, u, total, ctx, err))))))))"

definition read_slot_result :: "nat \<Rightarrow> u32 \<Rightarrow> ('z shmem_scheme, u8 \<times> i64 \<times> i64 \<times> i64) prog" where
  "read_slot_result i slot_idx =
    pbind (read_slot_result_with_error i slot_idx) (\<lambda>(state, u, total, ctx, _). Return (state, u, total, ctx))"

definition stamp_set_latched_at_ns :: "nat \<Rightarrow> u32 \<Rightarrow> u64 \<Rightarrow> ('z shmem_scheme, unit) prog" where
  "stamp_set_latched_at_ns i j now =
    (if i \<ge> POC_SHARD_COUNT then Return ()
     else guarded (unat j < POC_SLOTS_PER_SHARD) (store (upd_slot i (unat j) (\<lambda>r. r\<lparr>sl_set_latched_at_ns := now\<rparr>))))"

definition read_set_latched_at_ns :: "nat \<Rightarrow> u32 \<Rightarrow> ('z shmem_scheme, u64) prog" where
  "read_set_latched_at_ns i j =
    (if i \<ge> POC_SHARD_COUNT then Return 0
     else guarded (unat j < POC_SLOTS_PER_SHARD) (load (\<lambda>s. sl_set_latched_at_ns (slot_at i (unat j) s))))"

section \<open>The committer lease\<close>

definition cas_committer :: "nat \<Rightarrow> pid \<Rightarrow> pid \<Rightarrow> ('z shmem_scheme, pid + pid) prog" where
  "cas_committer i =
    compare_exchange (\<lambda>s. sh_committer_pid (shard_at i s)) (\<lambda>v. upd_shard i (\<lambda>h. h\<lparr>sh_committer_pid := v\<rparr>))"

definition stamp_committer :: "nat \<Rightarrow> u64 \<Rightarrow> ('z shmem_scheme, unit) prog" where
  "stamp_committer i now = store (upd_shard i (\<lambda>h. h\<lparr>sh_committer_acquired_at_ns := now\<rparr>))"

definition try_acquire_committer :: "nat \<Rightarrow> pid \<Rightarrow> u64 \<Rightarrow> ('z shmem_scheme, bool) prog" where
  "try_acquire_committer i my_pid now =
    guarded (i < POC_SHARD_COUNT)
      (pbind (cas_committer i 0 my_pid) (\<lambda>r.
       case r of
         Inr _ \<Rightarrow> pbind (stamp_committer i now) (\<lambda>_. Return True)
       | Inl _ \<Rightarrow> Return False))"

definition release_committer :: "nat \<Rightarrow> ('z shmem_scheme, unit) prog" where
  "release_committer i =
    guarded (i < POC_SHARD_COUNT)
      (pbind (stamp_committer i 0) (\<lambda>_. store (upd_shard i (\<lambda>h. h\<lparr>sh_committer_pid := 0\<rparr>))))"

definition next_committer_tx_id :: "nat \<Rightarrow> ('z shmem_scheme, i64) prog" where
  "next_committer_tx_id i =
    guarded (i < POC_SHARD_COUNT)
      (pbind (fetch_update (\<lambda>s. sh_committer_tx_seq (shard_at i s))
        (upd_shard i (\<lambda>h. h\<lparr>sh_committer_tx_seq := sh_committer_tx_seq h + 1\<rparr>))) (\<lambda>v.
       Return (sint (v + 1))))"

definition seed_committer_tx_at_least :: "nat \<Rightarrow> i64 \<Rightarrow> ('z shmem_scheme, unit) prog" where
  "seed_committer_tx_at_least i min_seen =
    (if min_seen \<le> 0 \<or> i \<ge> POC_SHARD_COUNT then Return ()
     else store (upd_shard i (\<lambda>h. h\<lparr>sh_committer_tx_seq := max (sh_committer_tx_seq h) (word_of_int min_seen)\<rparr>)))"

definition read_committer_pid :: "nat \<Rightarrow> ('z shmem_scheme, pid) prog" where
  "read_committer_pid i = guarded (i < POC_SHARD_COUNT) (load (\<lambda>s. sh_committer_pid (shard_at i s)))"

definition read_committer_acquired_at_ns :: "nat \<Rightarrow> ('z shmem_scheme, u64) prog" where
  "read_committer_acquired_at_ns i =
    guarded (i < POC_SHARD_COUNT) (load (\<lambda>s. sh_committer_acquired_at_ns (shard_at i s)))"

text \<open>\<open>kill\<close> is the return code of \<open>kill(pid, 0)\<close> in the current state of the process table.\<close>

definition pg_pid_alive :: "('z shmem_scheme \<Rightarrow> pid \<Rightarrow> int) \<Rightarrow> pid \<Rightarrow> ('z shmem_scheme, bool) prog" where
  "pg_pid_alive kill p =
    (if p \<le> 0 then Return False else pbind (load (\<lambda>s. kill s p)) (\<lambda>rc. Return (rc = 0)))"

datatype TakeoverOutcome = Acquired | TookOver pid | Held | Lost

text \<open>
  The lease age is computed and then ignored by the source: the decision rests on the process being
  alive. A successful takeover bumps the counter of the recovery statistics.
\<close>

definition take_over :: "nat \<Rightarrow> pid \<Rightarrow> u64 \<Rightarrow> pid \<Rightarrow> ('z shmem_scheme, TakeoverOutcome) prog" where
  "take_over i my_pid now cur_pid =
    pbind (cas_committer i cur_pid my_pid) (\<lambda>r.
    case r of
      Inr _ \<Rightarrow>
        pbind (stamp_committer i now) (\<lambda>_.
        pbind (store (\<lambda>s. s\<lparr>ar_recovery := (ar_recovery s)\<lparr>rs_lease_takeovers := rs_lease_takeovers (ar_recovery s) + 1\<rparr>\<rparr>)) (\<lambda>_.
        Return (TookOver cur_pid)))
    | Inl _ \<Rightarrow> Return Lost)"

definition contend :: "('z shmem_scheme \<Rightarrow> pid \<Rightarrow> int) \<Rightarrow> nat \<Rightarrow> pid \<Rightarrow> u64 \<Rightarrow> ('z shmem_scheme, TakeoverOutcome) prog" where
  "contend kill i my_pid now =
    pbind (load (\<lambda>s. sh_committer_pid (shard_at i s))) (\<lambda>cur_pid.
    if cur_pid = 0 then Return Lost
    else
      pbind (load (\<lambda>s. sh_committer_acquired_at_ns (shard_at i s))) (\<lambda>_.
      pbind (pg_pid_alive kill cur_pid) (\<lambda>alive.
      if alive then Return Held else take_over i my_pid now cur_pid)))"

definition try_acquire_or_takeover ::
  "('z shmem_scheme \<Rightarrow> pid \<Rightarrow> int) \<Rightarrow> nat \<Rightarrow> pid \<Rightarrow> u64 \<Rightarrow> ('z shmem_scheme, TakeoverOutcome) prog" where
  "try_acquire_or_takeover kill i my_pid now =
    guarded (i < POC_SHARD_COUNT)
      (pbind (cas_committer i 0 my_pid) (\<lambda>r.
       case r of
         Inr _ \<Rightarrow> pbind (stamp_committer i now) (\<lambda>_. Return Acquired)
       | Inl _ \<Rightarrow> contend kill i my_pid now))"

definition inject_dead_committer :: "nat \<Rightarrow> pid \<Rightarrow> u64 \<Rightarrow> ('z shmem_scheme, unit) prog" where
  "inject_dead_committer i fake_pid fake_ns =
    guarded (i < POC_SHARD_COUNT)
      (pbind (store (upd_shard i (\<lambda>h. h\<lparr>sh_committer_pid := fake_pid\<rparr>))) (\<lambda>_. stamp_committer i fake_ns))"

section \<open>Audit, orphans and reset\<close>

definition saturating_sub :: "u64 \<Rightarrow> u64 \<Rightarrow> u64" where
  "saturating_sub a b = (if a < b then 0 else a - b)"

definition audit_slot ::
  "('z shmem_scheme \<Rightarrow> pid \<Rightarrow> int) \<Rightarrow> nat \<Rightarrow> u64 \<Rightarrow> u64 \<Rightarrow> nat \<Rightarrow> nat \<times> nat \<Rightarrow> ('z shmem_scheme, nat \<times> nat) prog" where
  "audit_slot kill i now min_age j counts =
    (let (scanned, reclaimed) = counts in
     pbind (load (\<lambda>s. sl_state (slot_at i j s))) (\<lambda>state.
     if state \<noteq> SLOT_ALLOCATED then Return (scanned, reclaimed)
     else
       pbind (load (\<lambda>s. sl_acquired_at_ns (slot_at i j s))) (\<lambda>acquired.
       if acquired = 0 \<or> saturating_sub now acquired < min_age then Return (scanned + 1, reclaimed)
       else
         pbind (load (\<lambda>s. sl_waiter_pid (slot_at i j s))) (\<lambda>p.
         pbind (if p = 0 then Return True else pbind (pg_pid_alive kill p) (\<lambda>alive. Return (\<not> alive))) (\<lambda>dead.
         if \<not> dead then Return (scanned + 1, reclaimed)
         else
           pbind (cas_slot_state i j SLOT_ALLOCATED SLOT_ABANDONED) (\<lambda>r.
           case r of
             Inr _ \<Rightarrow> pbind (recycle_slot i (of_nat j)) (\<lambda>_. Return (scanned + 1, reclaimed + 1))
           | Inl _ \<Rightarrow> Return (scanned + 1, reclaimed)))))))"

definition slot_leak_audit_one_shard ::
  "('z shmem_scheme \<Rightarrow> pid \<Rightarrow> int) \<Rightarrow> nat \<Rightarrow> u64 \<Rightarrow> u64 \<Rightarrow> ('z shmem_scheme, nat \<times> nat) prog" where
  "slot_leak_audit_one_shard kill i now min_age =
    guarded (i < POC_SHARD_COUNT) (pfold (audit_slot kill i now min_age) [0..<POC_SLOTS_PER_SHARD] (0, 0))"

record OrphanSlot =
  os_slot_idx :: u32
  os_issue_id :: i64
  os_current_request_seq :: u64
  os_waiter_pid :: pid

definition orphan_slot :: "nat \<Rightarrow> nat \<Rightarrow> OrphanSlot list \<Rightarrow> ('z shmem_scheme, OrphanSlot list) prog" where
  "orphan_slot i j out =
    pbind (load (\<lambda>s. sl_state (slot_at i j s))) (\<lambda>state.
    if state \<noteq> SLOT_ALLOCATED then Return out
    else
      pbind (load (\<lambda>s. sl_issue_id (slot_at i j s))) (\<lambda>issue_id.
      if issue_id = 0 then Return out
      else
        pbind (load (\<lambda>s. sl_current_request_seq (slot_at i j s))) (\<lambda>sq.
        pbind (load (\<lambda>s. sl_waiter_pid (slot_at i j s))) (\<lambda>p.
        Return (out @ [\<lparr>os_slot_idx = of_nat j, os_issue_id = issue_id, os_current_request_seq = sq, os_waiter_pid = p\<rparr>])))))"

definition collect_orphan_slots :: "nat \<Rightarrow> ('z shmem_scheme, OrphanSlot list) prog" where
  "collect_orphan_slots i = guarded (i < POC_SHARD_COUNT) (pfold (orphan_slot i) [0..<POC_SLOTS_PER_SHARD] [])"

definition reset_header :: "PocQueueShard \<Rightarrow> PocQueueShard" where
  "reset_header h =
    h\<lparr>sh_head := 0, sh_tail := 0, sh_committer_pid := 0, sh_committer_acquired_at_ns := 0, sh_committer_tx_seq := 0,
      sh_next_request_seq := 0, sh_next_slot_seq := 0, sh_capacity := of_nat POC_REQUESTS_PER_SHARD,
      sh_ring_full_waiter_pid := 0, sh_error_count := 0\<rparr>"

definition reset_request :: "PocPendingRequest \<Rightarrow> PocPendingRequest" where
  "reset_request r =
    r\<lparr>rq_valid := REQ_EMPTY, rq_request_seq := 0, rq_pool_hash := 0, rq_backend_pid := 0, rq_slot_idx := 0, rq_kind_tag := 0\<rparr>"

definition reset_slot :: "PocResultSlot \<Rightarrow> PocResultSlot" where
  "reset_slot r =
    r\<lparr>sl_state := SLOT_FREE, sl_applied_unit_cost := 0, sl_applied_total_cost := 0, sl_committer_tx_id := 0,
      sl_error_code := 0, sl_depletion_count := 0, sl_spillover_offset := 0, sl_waiter_pid := 0, sl_issue_id := 0,
      sl_current_request_seq := 0, sl_acquired_at_ns := 0, sl_set_latched_at_ns := 0\<rparr>"

definition shard_reset :: "nat \<Rightarrow> ('z shmem_scheme, unit) prog" where
  "shard_reset i =
    exclusive (guarded (i < POC_SHARD_COUNT)
      (pbind (store (upd_shard i reset_header)) (\<lambda>_.
       pbind (stores (map (\<lambda>k. upd_request i k reset_request) [0..<POC_REQUESTS_PER_SHARD])) (\<lambda>_.
       stores (map (\<lambda>j. upd_slot i j reset_slot) [0..<POC_SLOTS_PER_SHARD])))))"

end
