(* ===== verification/PocCost.thy ===== *)
theory PocCost
  imports Queue "HOL-Library.Sublist"
begin

text \<open>
  The costing methods of the queue extension: src/poc/queue-extension/src/cost_method.rs (the types, the
  trait, the mock method and the registry), fifo.rs, avg.rs and std_cost.rs. A method plans a batch of
  consumptions of one pool against a snapshot of that pool and returns one result per event and the
  rows to insert.

  \<open>i64\<close> quantities and costs are integers; where the source subtracts or sums without a check the
  result wraps (\<^const>\<open>wrap_i64\<close>, the release build), where it saturates or clamps the bounds are
  written out. \<open>event_seq\<close> is the position of an event in its batch, a natural number.
\<close>

section \<open>Types\<close>

record PocPoolKey =
  pk_sku_id :: i64
  pk_location_id :: i64

record PocApplyEvent =
  ae_event_seq :: nat
  ae_qty :: i64
  ae_at_micros :: i64
  ae_issue_id :: i64
  ae_user_tx_xid :: i64
  ae_slot_idx :: u32

record PocApplyBatch =
  pb_pool :: PocPoolKey
  pb_events :: "PocApplyEvent list"

record PocLayerView =
  lv_layer_id :: i64
  lv_unit_cost :: i64
  lv_effective_qty :: i64
  lv_born_at_micros :: i64
  lv_born_seq :: i64

record PocSnapshot =
  ps_pool :: PocPoolKey
  ps_layers :: "PocLayerView list"
  ps_avg_unit_cost :: "i64 option"
  ps_standard_cost :: "i64 option"
  ps_total_available_qty :: i64

datatype PocError = InsufficientInventory | MethodNotFound | BatchFailed

fun as_code :: "PocError \<Rightarrow> u16" where
  "as_code InsufficientInventory = 1"
| "as_code MethodNotFound = 2"
| "as_code BatchFailed = 3"

record PocEventResult =
  er_event_seq :: nat
  er_applied_unit_cost :: i64
  er_applied_total_cost :: i64
  er_error :: "PocError option"

record PocDepletionRow =
  dr_layer_id :: i64
  dr_qty :: i64
  dr_unit_cost :: i64
  dr_issue_id :: i64
  dr_event_seq :: nat
  dr_user_tx_xid :: i64

record PocConsumptionRow =
  cr_sku_id :: i64
  cr_location_id :: i64
  cr_qty :: i64
  cr_applied_unit_cost :: i64
  cr_issue_id :: i64
  cr_event_seq :: nat
  cr_user_tx_xid :: i64

record PocLayerRow =
  pl_sku_id :: i64
  pl_location_id :: i64
  pl_qty :: i64
  pl_unit_cost :: i64
  pl_source_kind :: string
  pl_source_ref :: "i64 option"
  pl_user_tx_xid :: i64

record PocApplyResult =
  pr_per_event :: "PocEventResult list"
  pr_depletion_inserts :: "PocDepletionRow list"
  pr_consumption_inserts :: "PocConsumptionRow list"
  pr_layer_inserts :: "PocLayerRow list"

definition empty_result :: PocApplyResult where
  "empty_result = \<lparr>pr_per_event = [], pr_depletion_inserts = [], pr_consumption_inserts = [], pr_layer_inserts = []\<rparr>"

record PocCostMethod =
  cm_method_id :: string
  cm_plan_apply :: "PocApplyBatch \<Rightarrow> PocSnapshot \<Rightarrow> PocApplyResult"

section \<open>Saturating arithmetic\<close>

definition clamp_i64 :: "int \<Rightarrow> i64" where
  "clamp_i64 x = max i64_min (min i64_max x)"

definition clamp_i128 :: "int \<Rightarrow> i128" where
  "clamp_i128 x = max (- i128_max - 1) (min i128_max x)"

section \<open>Results of one event\<close>

definition unfilled :: "PocApplyEvent \<Rightarrow> PocEventResult" where
  "unfilled ev =
    \<lparr>er_event_seq = ae_event_seq ev, er_applied_unit_cost = 0, er_applied_total_cost = 0,
     er_error = Some InsufficientInventory\<rparr>"

definition filled :: "PocApplyEvent \<Rightarrow> i64 \<Rightarrow> i64 \<Rightarrow> PocEventResult" where
  "filled ev u total_cost =
    \<lparr>er_event_seq = ae_event_seq ev, er_applied_unit_cost = u, er_applied_total_cost = total_cost, er_error = None\<rparr>"

definition consumption :: "PocPoolKey \<Rightarrow> PocApplyEvent \<Rightarrow> i64 \<Rightarrow> PocConsumptionRow" where
  "consumption pool ev u =
    \<lparr>cr_sku_id = pk_sku_id pool, cr_location_id = pk_location_id pool, cr_qty = ae_qty ev, cr_applied_unit_cost = u,
     cr_issue_id = ae_issue_id ev, cr_event_seq = ae_event_seq ev, cr_user_tx_xid = ae_user_tx_xid ev\<rparr>"

definition depletion :: "PocApplyEvent \<Rightarrow> i64 \<Rightarrow> i64 \<Rightarrow> i64 \<Rightarrow> PocDepletionRow" where
  "depletion ev layer_id u q =
    \<lparr>dr_layer_id = layer_id, dr_qty = q, dr_unit_cost = u, dr_issue_id = ae_issue_id ev,
     dr_event_seq = ae_event_seq ev, dr_user_tx_xid = ae_user_tx_xid ev\<rparr>"

section \<open>FIFO\<close>

text \<open>The cursor: layer, unit cost and what is left of the layer, oldest first.\<close>

type_synonym cursor = "(i64 \<times> i64 \<times> i64) list"

text \<open>The walk of one event over the cursor; \<open>total_cost\<close> is an \<open>i128\<close> that saturates.\<close>

fun fifo_walk :: "PocApplyEvent \<Rightarrow> i64 \<Rightarrow> i128 \<Rightarrow> cursor \<Rightarrow> cursor \<times> i64 \<times> i128 \<times> PocDepletionRow list" where
  "fifo_walk ev remaining total_cost [] = ([], remaining, total_cost, [])"
| "fifo_walk ev remaining total_cost ((layer_id, u, layer_qty) # rest) =
    (if remaining = 0 then ((layer_id, u, layer_qty) # rest, remaining, total_cost, [])
     else if layer_qty = 0
     then (case fifo_walk ev remaining total_cost rest of (c, r, t, rows) \<Rightarrow> ((layer_id, u, layer_qty) # c, r, t, rows))
     else
       let q = min layer_qty remaining in
       case fifo_walk ev (wrap_i64 (remaining - q)) (clamp_i128 (total_cost + q * u)) rest of
         (c, r, t, rows) \<Rightarrow> ((layer_id, u, wrap_i64 (layer_qty - q)) # c, r, t, depletion ev layer_id u q # rows))"

definition available :: "cursor \<Rightarrow> i64" where
  "available c = wrap_i64 (\<Sum>(_, _, q)\<leftarrow>c. q)"

definition fifo_event ::
  "PocApplyEvent \<Rightarrow> cursor \<times> PocEventResult list \<times> PocDepletionRow list \<Rightarrow> cursor \<times> PocEventResult list \<times> PocDepletionRow list" where
  "fifo_event ev st =
    (let (cursor, per_event, depletion_inserts) = st in
     if ae_qty ev \<le> 0 then (cursor, per_event @ [unfilled ev], depletion_inserts)
     else if available cursor < ae_qty ev then (cursor, per_event @ [unfilled ev], depletion_inserts)
     else
       case fifo_walk ev (ae_qty ev) 0 cursor of (cursor', remaining, total_cost, rows) \<Rightarrow>
         if remaining \<noteq> 0 then (cursor', per_event @ [unfilled ev], depletion_inserts)
         else
           let applied_total_cost = wrap_i64 total_cost;
               applied_unit_cost = (if ae_qty ev \<noteq> 0 then applied_total_cost sdiv ae_qty ev else 0)
           in (cursor', per_event @ [filled ev applied_unit_cost applied_total_cost], depletion_inserts @ rows))"

definition layer_cursor :: "PocSnapshot \<Rightarrow> cursor" where
  "layer_cursor snapshot = map (\<lambda>l. (lv_layer_id l, lv_unit_cost l, lv_effective_qty l)) (ps_layers snapshot)"

definition fifo_plan_apply :: "PocApplyBatch \<Rightarrow> PocSnapshot \<Rightarrow> PocApplyResult" where
  "fifo_plan_apply batch snapshot =
    (case fold fifo_event (pb_events batch) (layer_cursor snapshot, [], []) of (_, per_event, depletion_inserts) \<Rightarrow>
      \<lparr>pr_per_event = per_event, pr_depletion_inserts = depletion_inserts, pr_consumption_inserts = [], pr_layer_inserts = []\<rparr>)"

section \<open>Average, standard and mock\<close>

definition avg_event ::
  "PocPoolKey \<Rightarrow> i64 option \<Rightarrow> PocApplyEvent \<Rightarrow> i64 \<times> PocEventResult list \<times> PocConsumptionRow list \<Rightarrow>
    i64 \<times> PocEventResult list \<times> PocConsumptionRow list" where
  "avg_event pool avg ev st =
    (let (remaining_qty, per_event, rows) = st in
     if ae_qty ev \<le> 0 \<or> ae_qty ev > remaining_qty then (remaining_qty, per_event @ [unfilled ev], rows)
     else
       case avg of
         None \<Rightarrow> (remaining_qty, per_event @ [unfilled ev], rows)
       | Some u \<Rightarrow>
           (wrap_i64 (remaining_qty - ae_qty ev), per_event @ [filled ev u (clamp_i64 (u * ae_qty ev))],
            rows @ [consumption pool ev u]))"

definition avg_plan_apply :: "PocApplyBatch \<Rightarrow> PocSnapshot \<Rightarrow> PocApplyResult" where
  "avg_plan_apply batch snapshot =
    (case fold (avg_event (pb_pool batch) (ps_avg_unit_cost snapshot)) (pb_events batch)
        (ps_total_available_qty snapshot, [], []) of (_, per_event, rows) \<Rightarrow>
      \<lparr>pr_per_event = per_event, pr_depletion_inserts = [], pr_consumption_inserts = rows, pr_layer_inserts = []\<rparr>)"

definition std_event ::
  "PocPoolKey \<Rightarrow> i64 option \<Rightarrow> PocApplyEvent \<Rightarrow> PocEventResult list \<times> PocConsumptionRow list \<Rightarrow>
    PocEventResult list \<times> PocConsumptionRow list" where
  "std_event pool std_cost ev st =
    (let (per_event, rows) = st in
     if ae_qty ev \<le> 0 then (per_event @ [unfilled ev], rows)
     else
       case std_cost of
         None \<Rightarrow> (per_event @ [unfilled ev], rows)
       | Some u \<Rightarrow> (per_event @ [filled ev u (clamp_i64 (u * ae_qty ev))], rows @ [consumption pool ev u]))"

definition std_plan_apply :: "PocApplyBatch \<Rightarrow> PocSnapshot \<Rightarrow> PocApplyResult" where
  "std_plan_apply batch snapshot =
    (case fold (std_event (pb_pool batch) (ps_standard_cost snapshot)) (pb_events batch) ([], []) of (per_event, rows) \<Rightarrow>
      \<lparr>pr_per_event = per_event, pr_depletion_inserts = [], pr_consumption_inserts = rows, pr_layer_inserts = []\<rparr>)"

definition MOCK_ERROR_QTY_THRESHOLD :: i64 where "MOCK_ERROR_QTY_THRESHOLD = 1000000000"

definition mock_event ::
  "PocPoolKey \<Rightarrow> PocApplyEvent \<Rightarrow> PocEventResult list \<times> PocConsumptionRow list \<Rightarrow>
    PocEventResult list \<times> PocConsumptionRow list" where
  "mock_event pool ev st =
    (let (per_event, rows) = st in
     if ae_qty ev > MOCK_ERROR_QTY_THRESHOLD then (per_event @ [unfilled ev], rows)
     else
       let u = 100 + (ae_issue_id ev AND 255)
       in (per_event @ [filled ev u (clamp_i64 (ae_qty ev * u))], rows @ [consumption pool ev u]))"

definition mock_plan_apply :: "PocApplyBatch \<Rightarrow> PocSnapshot \<Rightarrow> PocApplyResult" where
  "mock_plan_apply batch snapshot =
    (case fold (mock_event (pb_pool batch)) (pb_events batch) ([], []) of (per_event, rows) \<Rightarrow>
      \<lparr>pr_per_event = per_event, pr_depletion_inserts = [], pr_consumption_inserts = rows, pr_layer_inserts = []\<rparr>)"

section \<open>Registry\<close>

definition METHOD_FIFO :: u8 where "METHOD_FIFO = 0"

definition METHOD_AVG :: u8 where "METHOD_AVG = 1"

definition METHOD_STD :: u8 where "METHOD_STD = 2"

definition METHOD_MOCK :: u8 where "METHOD_MOCK = 3"

lemmas method_tags = METHOD_FIFO_def METHOD_AVG_def METHOD_STD_def METHOD_MOCK_def

definition resolve_method :: "string \<Rightarrow> PocCostMethod option" where
  "resolve_method name =
    (if name = ''fifo'' then Some \<lparr>cm_method_id = ''fifo'', cm_plan_apply = fifo_plan_apply\<rparr>
     else if name = ''avg'' then Some \<lparr>cm_method_id = ''avg'', cm_plan_apply = avg_plan_apply\<rparr>
     else if name = ''std'' then Some \<lparr>cm_method_id = ''std'', cm_plan_apply = std_plan_apply\<rparr>
     else if name = ''mock'' then Some \<lparr>cm_method_id = ''mock'', cm_plan_apply = mock_plan_apply\<rparr>
     else None)"

definition method_name_for_tag :: "u8 \<Rightarrow> string" where
  "method_name_for_tag tag =
    (if tag = METHOD_FIFO then ''fifo''
     else if tag = METHOD_AVG then ''avg''
     else if tag = METHOD_STD then ''std''
     else ''mock'')"

definition method_tag_for :: "string \<Rightarrow> u8 option" where
  "method_tag_for name =
    (if name = ''fifo'' \<or> name = ''FIFO'' then Some METHOD_FIFO
     else if name = ''avg'' \<or> name = ''AVG'' then Some METHOD_AVG
     else if name = ''std'' \<or> name = ''STD'' then Some METHOD_STD
     else if name = ''mock'' \<or> name = ''MOCK'' then Some METHOD_MOCK
     else None)"

definition poc_ledger_error_code_to_text :: "int \<Rightarrow> string option" where
  "poc_ledger_error_code_to_text code =
    (if code = 0 then None
     else if code = 1 then Some ''InsufficientInventory''
     else if code = 2 then Some ''MethodNotFound''
     else if code = 3 then Some ''BatchFailed''
     else Some ''Unknown'')"
section \<open>What a planned event costs when it is looked up again\<close>

text \<open>\<open>DedupRow\<close>, \<open>ReplaySummary\<close> and \<open>aggregate_replay\<close> of committer.rs: the rows that an event left in the cost tables, summed.\<close>

record DedupRow =
  dd_issue_id :: i64
  dd_qty :: i64
  dd_unit_cost :: i64

record ReplaySummary =
  rp_qty :: i64
  rp_total_cost :: i64
  rp_weighted_unit_cost :: i64

definition replay_sums :: "DedupRow list \<Rightarrow> i64 \<times> i128" where
  "replay_sums rows =
    fold (\<lambda>r (sum_qty, sum_cost). (clamp_i64 (sum_qty + dd_qty r), clamp_i128 (sum_cost + dd_qty r * dd_unit_cost r))) rows (0, 0)"

definition aggregate_replay :: "DedupRow list \<Rightarrow> ReplaySummary" where
  "aggregate_replay rows =
    (let (sum_qty, sum_cost) = replay_sums rows;
         total_cost = clamp_i64 sum_cost;
         weighted = (if sum_qty \<noteq> 0 then total_cost sdiv sum_qty else 0)
     in \<lparr>rp_qty = sum_qty, rp_total_cost = total_cost, rp_weighted_unit_cost = weighted\<rparr>)"

lemma clamp_i64_id: "\<bar>x\<bar> \<le> i64_max \<Longrightarrow> clamp_i64 x = x"
  by (auto simp: clamp_i64_def i64_defs)

lemma clamp_i128_id: "\<bar>x\<bar> \<le> i64_max \<Longrightarrow> clamp_i128 x = x"
  by (auto simp: clamp_i128_def i64_defs)

lemma wrap_i64_within: "\<bar>x\<bar> \<le> i64_max \<Longrightarrow> wrap_i64 x = x"
  by (auto simp: wrap_i64_def i64_defs)

definition worth :: "DedupRow list \<Rightarrow> int" where
  "worth rows = (\<Sum>r\<leftarrow>rows. dd_qty r * \<bar>dd_unit_cost r\<bar>)"

lemma replay_sums_exact:
  assumes "\<And>r. r \<in> set rows \<Longrightarrow> 0 < dd_qty r" "(\<Sum>r\<leftarrow>rows. dd_qty r) + a \<le> i64_max" "worth rows + \<bar>b\<bar> \<le> i64_max" "0 \<le> a"
  shows "fold (\<lambda>r (sum_qty, sum_cost). (clamp_i64 (sum_qty + dd_qty r), clamp_i128 (sum_cost + dd_qty r * dd_unit_cost r))) rows (a, b) =
    (a + (\<Sum>r\<leftarrow>rows. dd_qty r), b + (\<Sum>r\<leftarrow>rows. dd_qty r * dd_unit_cost r))"
  using assms
proof (induction rows arbitrary: a b)
  case Nil
  then show ?case by simp
next
  case (Cons r rows)
  let ?c = "dd_qty r * dd_unit_cost r"
  have q: "0 < dd_qty r" and rest: "\<And>r. r \<in> set rows \<Longrightarrow> 0 < dd_qty r" using Cons.prems(1) by auto
  have pos: "0 \<le> (\<Sum>r\<leftarrow>rows. dd_qty r)" "0 \<le> worth rows"
    using rest by (auto intro!: sum_list_nonneg simp: worth_def less_imp_le)
  have c: "\<bar>b + ?c\<bar> \<le> \<bar>b\<bar> + dd_qty r * \<bar>dd_unit_cost r\<bar>" using q by (simp add: abs_mult order_trans[OF abs_triangle_ineq])
  have w: "worth (r # rows) = dd_qty r * \<bar>dd_unit_cost r\<bar> + worth rows" by (simp add: worth_def)
  have 1: "clamp_i64 (a + dd_qty r) = a + dd_qty r"
    using Cons.prems(2,4) q pos(1) by (intro clamp_i64_id) simp
  have 2: "clamp_i128 (b + ?c) = b + ?c"
    using Cons.prems(3) c w pos(2) by (intro clamp_i128_id) linarith
  show ?case unfolding fold_Cons o_apply prod.case 1 2
    using Cons.prems(2-4) q c w by (subst Cons.IH[OF rest]) (auto simp: algebra_simps)
qed

lemma sum_worth: "(\<And>r. r \<in> set rows \<Longrightarrow> 0 < dd_qty r) \<Longrightarrow> \<bar>\<Sum>r\<leftarrow>rows. dd_qty r * dd_unit_cost r\<bar> \<le> worth rows"
proof (induction rows)
  case (Cons r rows)
  have "\<bar>dd_qty r * dd_unit_cost r\<bar> = dd_qty r * \<bar>dd_unit_cost r\<bar>" using Cons.prems[of r] by (simp add: abs_mult)
  then show ?case using Cons by (simp add: worth_def)
qed (simp add: worth_def)

lemma aggregate_exact:
  assumes "\<And>r. r \<in> set rows \<Longrightarrow> 0 < dd_qty r" "rows \<noteq> []" "(\<Sum>r\<leftarrow>rows. dd_qty r) \<le> i64_max" "worth rows \<le> i64_max"
  shows "aggregate_replay rows =
    \<lparr>rp_qty = (\<Sum>r\<leftarrow>rows. dd_qty r), rp_total_cost = (\<Sum>r\<leftarrow>rows. dd_qty r * dd_unit_cost r),
     rp_weighted_unit_cost = (\<Sum>r\<leftarrow>rows. dd_qty r * dd_unit_cost r) sdiv (\<Sum>r\<leftarrow>rows. dd_qty r)\<rparr>"
proof -
  have "0 < (\<Sum>r\<leftarrow>rows. dd_qty r)" using assms(1,2)
    by (cases rows) (auto intro!: add_pos_nonneg sum_list_nonneg simp: less_imp_le)
  moreover have "clamp_i64 (\<Sum>r\<leftarrow>rows. dd_qty r * dd_unit_cost r) = (\<Sum>r\<leftarrow>rows. dd_qty r * dd_unit_cost r)"
    using sum_worth[of rows, OF assms(1)] assms(4) by (intro clamp_i64_id) simp
  moreover have "replay_sums rows = ((\<Sum>r\<leftarrow>rows. dd_qty r), (\<Sum>r\<leftarrow>rows. dd_qty r * dd_unit_cost r))"
    using replay_sums_exact[of rows 0 0] assms by (simp add: replay_sums_def)
  ultimately show ?thesis by (simp add: aggregate_replay_def Let_def)
qed
section \<open>FIFO against a list of units\<close>

text \<open>
  The reference view of a pool is the list of its units, oldest first, each with its layer and cost. An
  event takes the first units, or nothing when there are not enough.
\<close>

type_synonym cunit = "i64 \<times> i64"

definition units :: "cursor \<Rightarrow> cunit list" where
  "units c = concat (map (\<lambda>(l, u, q). replicate (nat q) (l, u)) c)"

definition row_units :: "PocDepletionRow list \<Rightarrow> cunit list" where
  "row_units rows = concat (map (\<lambda>d. replicate (nat (dr_qty d)) (dr_layer_id d, dr_unit_cost d)) rows)"

primrec fifo_taken :: "cunit list \<Rightarrow> PocApplyEvent list \<Rightarrow> cunit list option list" where
  "fifo_taken us [] = []"
| "fifo_taken us (ev # evs) =
    (if 0 < ae_qty ev \<and> ae_qty ev \<le> int (length us)
     then Some (take (nat (ae_qty ev)) us) # fifo_taken (drop (nat (ae_qty ev)) us) evs
     else None # fifo_taken us evs)"

definition cost_of :: "cunit list \<Rightarrow> int" where
  "cost_of us = (\<Sum>(l, u)\<leftarrow>us. u)"

definition size_of :: "cunit list \<Rightarrow> int" where
  "size_of us = (\<Sum>(l, u)\<leftarrow>us. \<bar>u\<bar>)"

text \<open>A pool whose quantity and value are within range.\<close>

definition cursor_ok :: "cursor \<Rightarrow> bool" where
  "cursor_ok c \<longleftrightarrow> (\<forall>(l, u, q)\<in>set c. 0 \<le> q) \<and> int (length (units c)) \<le> i64_max \<and> size_of (units c) \<le> i64_max"

lemma cursor_units_simps [simp]: "units [] = []" "units ((l, u, q) # c) = replicate (nat q) (l, u) @ units c"
  by (simp_all add: units_def)

lemma row_units_simps [simp]:
  "row_units [] = []" "row_units (d # ds) = replicate (nat (dr_qty d)) (dr_layer_id d, dr_unit_cost d) @ row_units ds"
  "row_units (ds @ es) = row_units ds @ row_units es"
  by (simp_all add: row_units_def)

lemma cost_simps_list [simp]:
  "cost_of [] = 0" "cost_of (us @ vs) = cost_of us + cost_of vs" "cost_of (replicate n (l, u)) = int n * u"
  "size_of [] = 0" "size_of (us @ vs) = size_of us + size_of vs" "size_of (replicate n (l, u)) = int n * \<bar>u\<bar>"
  by (simp_all add: cost_of_def size_of_def sum_list_replicate)

lemma size_nonneg [simp]: "0 \<le> size_of us"
  by (auto simp: size_of_def intro!: sum_list_nonneg)

lemma cost_le_size: "\<bar>cost_of us\<bar> \<le> size_of us"
  by (induction us) (auto simp: cost_of_def size_of_def)

lemma size_take_drop: "size_of (take n us) + size_of (drop n us) = size_of us"
  by (metis append_take_drop_id cost_simps_list(5))

lemma available_units: "cursor_ok c \<Longrightarrow> available c = int (length (units c))"
proof -
  assume c: "cursor_ok c"
  have "(\<Sum>(_, _, q)\<leftarrow>c. q) = int (length (units c))" if "\<forall>(l, u, q)\<in>set c. 0 \<le> q"
    using that by (induction c) (auto simp: case_prod_beta)
  then show ?thesis using c by (simp add: available_def cursor_ok_def wrap_i64_within)
qed

text \<open>The rows of one event: positive quantities, the event's keys, each layer at most once.\<close>

definition rows_of_event :: "PocApplyEvent \<Rightarrow> PocDepletionRow list \<Rightarrow> bool" where
  "rows_of_event ev rows \<longleftrightarrow> (\<forall>d\<in>set rows. 0 < dr_qty d \<and> dr_issue_id d = ae_issue_id ev \<and>
    dr_event_seq d = ae_event_seq ev \<and> dr_user_tx_xid d = ae_user_tx_xid ev)"

lemma fifo_walk_units:
  assumes "fifo_walk ev r t c = (c', r', t', rows)" "\<forall>(l, u, q)\<in>set c. 0 \<le> q" "0 \<le> r" "r \<le> i64_max"
    "int (length (units c)) \<le> i64_max" "\<bar>t\<bar> + size_of (units c) \<le> i64_max"
  shows "units c' = drop (nat r) (units c) \<and> row_units rows = take (nat r) (units c) \<and>
    r' = max 0 (r - int (length (units c))) \<and> t' = t + cost_of (take (nat r) (units c)) \<and>
    (\<forall>(l, u, q)\<in>set c'. 0 \<le> q) \<and> map fst c' = map fst c \<and> rows_of_event ev rows \<and> subseq (map dr_layer_id rows) (map fst c)"
  using assms
proof (induction c arbitrary: r t c' r' t' rows)
  case Nil
  then show ?case by (auto simp: rows_of_event_def)
next
  case (Cons x c)
  obtain l u q where x: "x = (l, u, q)" by (cases x)
  have q: "0 \<le> q" "\<forall>(l, u, q)\<in>set c. 0 \<le> q" using Cons.prems(2) x by auto
  consider (none) "r = 0" | (empty) "r \<noteq> 0" "q = 0" | (some) "r \<noteq> 0" "q \<noteq> 0" by blast
  then show ?case
  proof cases
    case none
    then show ?thesis using Cons.prems x by (auto simp: rows_of_event_def)
  next
    case empty
    obtain c1 where w: "fifo_walk ev r t c = (c1, r', t', rows)" "c' = (l, u, q) # c1"
      using Cons.prems(1) empty x by (auto split: prod.splits)
    have "int (length (units c)) \<le> i64_max" "\<bar>t\<bar> + size_of (units c) \<le> i64_max"
      using Cons.prems(5,6) x empty by simp_all
    from Cons.IH[OF w(1) q(2) Cons.prems(3,4) this] show ?thesis using w(2) x empty by auto
  next
    case some
    let ?k = "min q r"
    have qn: "0 < q" "0 < r" using some q(1) Cons.prems(3) by auto
    have len: "q + int (length (units c)) \<le> i64_max" using Cons.prems(5) x q(1) by simp
    have size: "\<bar>t\<bar> + (q * \<bar>u\<bar> + size_of (units c)) \<le> i64_max" using Cons.prems(6) x q(1) by simp
    have ku: "\<bar>?k * u\<bar> \<le> q * \<bar>u\<bar>" using qn by (simp add: abs_mult mult_right_mono)
    have wraps: "wrap_i64 (r - ?k) = r - ?k" "wrap_i64 (q - ?k) = q - ?k" "clamp_i128 (t + ?k * u) = t + ?k * u"
    proof -
      show "wrap_i64 (r - ?k) = r - ?k" using qn Cons.prems(4) by (intro wrap_i64_within) auto
      show "wrap_i64 (q - ?k) = q - ?k" using qn len by (intro wrap_i64_within) auto
      show "clamp_i128 (t + ?k * u) = t + ?k * u"
        using ku size abs_triangle_ineq[of t "?k * u"] size_nonneg[of "units c"] by (intro clamp_i128_id) linarith
    qed
    obtain c1 rows1 where w: "fifo_walk ev (r - ?k) (t + ?k * u) c = (c1, r', t', rows1)"
      "c' = (l, u, q - ?k) # c1" "rows = depletion ev l u ?k # rows1"
      using Cons.prems(1) some x by (auto simp: wraps Let_def split: prod.splits)
    have "\<bar>t + ?k * u\<bar> + size_of (units c) \<le> i64_max"
      using ku size abs_triangle_ineq[of t "?k * u"] by linarith
    moreover have "0 \<le> r - ?k" "r - ?k \<le> i64_max" "int (length (units c)) \<le> i64_max" using qn len Cons.prems(4) by auto
    ultimately have IH: "units c1 = drop (nat (r - ?k)) (units c) \<and> row_units rows1 = take (nat (r - ?k)) (units c) \<and>
        r' = max 0 (r - ?k - int (length (units c))) \<and> t' = t + ?k * u + cost_of (take (nat (r - ?k)) (units c)) \<and>
        (\<forall>(l, u, q)\<in>set c1. 0 \<le> q) \<and> map fst c1 = map fst c \<and> rows_of_event ev rows1 \<and> subseq (map dr_layer_id rows1) (map fst c)"
      using Cons.IH[OF w(1) q(2)] by blast
    have k: "nat (r - ?k) = nat r - nat q" "nat ?k = min (nat q) (nat r)" "nat (q - ?k) = nat q - nat r" using qn by auto
    have int_k: "int (min (nat q) (nat r)) = ?k" using qn by auto
    have 1: "units c' = drop (nat r) (units (x # c))" using IH unfolding w(2) x k cursor_units_simps by simp
    have 2: "row_units rows = take (nat r) (units (x # c))"
      using IH unfolding w(3) x k row_units_simps cursor_units_simps by (simp add: depletion_def k min.commute[of "nat r"])
    have 3: "r' = max 0 (r - int (length (units (x # c))))" using IH qn unfolding x cursor_units_simps by simp
    have "cost_of (take (nat r) (units (x # c))) = ?k * u + cost_of (take (nat r - nat q) (units c))"
      unfolding x using int_k by (simp add: min.commute[of "nat r"])
    then have 4: "t' = t + cost_of (take (nat r) (units (x # c)))" using IH unfolding k by linarith
    have 5: "rows_of_event ev rows" "subseq (map dr_layer_id rows) (map fst (x # c))" "map fst c' = map fst (x # c)"
      using IH qn unfolding w(2,3) x by (simp_all add: rows_of_event_def depletion_def)
    have 6: "\<forall>(l, u, q)\<in>set c'. 0 \<le> q" using IH unfolding w(2) by simp
    show ?thesis using 1 2 3 4 5 6 by blast
  qed
qed
definition fifo_outcome :: "i64 list \<Rightarrow> PocApplyEvent \<times> cunit list option \<Rightarrow> PocEventResult \<times> PocDepletionRow list \<Rightarrow> bool" where
  "fifo_outcome ids planned out \<longleftrightarrow> (case planned of
      (ev, None) \<Rightarrow> out = (unfilled ev, [])
    | (ev, Some us) \<Rightarrow> fst out = filled ev (cost_of us sdiv ae_qty ev) (cost_of us) \<and> row_units (snd out) = us \<and>
        int (length us) = ae_qty ev \<and> 0 < ae_qty ev \<and> ae_qty ev \<le> i64_max \<and> size_of us \<le> i64_max \<and>
        rows_of_event ev (snd out) \<and> subseq (map dr_layer_id (snd out)) ids)"

lemma fifo_event_units:
  assumes "cursor_ok c"
  obtains c' er rs where "fifo_event ev (c, pe, rows) = (c', pe @ [er], rows @ rs)" "cursor_ok c'" "map fst c' = map fst c"
    "0 < ae_qty ev \<and> ae_qty ev \<le> int (length (units c)) \<Longrightarrow>
      units c' = drop (nat (ae_qty ev)) (units c) \<and> fifo_outcome (map fst c) (ev, Some (take (nat (ae_qty ev)) (units c))) (er, rs)"
    "\<not> (0 < ae_qty ev \<and> ae_qty ev \<le> int (length (units c))) \<Longrightarrow> c' = c \<and> fifo_outcome (map fst c) (ev, None) (er, rs)"
proof (cases "0 < ae_qty ev \<and> ae_qty ev \<le> int (length (units c))")
  case True
  let ?us = "take (nat (ae_qty ev)) (units c)"
  have len: "int (length (units c)) \<le> i64_max" and size: "size_of (units c) \<le> i64_max" and q: "\<forall>(l, u, q)\<in>set c. 0 \<le> q"
    using assms by (auto simp: cursor_ok_def)
  obtain c' r' t' rs where w: "fifo_walk ev (ae_qty ev) 0 c = (c', r', t', rs)" by (metis prod_cases4)
  have W: "units c' = drop (nat (ae_qty ev)) (units c) \<and> row_units rs = ?us \<and>
      r' = max 0 (ae_qty ev - int (length (units c))) \<and> t' = 0 + cost_of ?us \<and>
      (\<forall>(l, u, q)\<in>set c'. 0 \<le> q) \<and> map fst c' = map fst c \<and> rows_of_event ev rs \<and> subseq (map dr_layer_id rs) (map fst c)"
    by (rule fifo_walk_units[OF w q]) (use True len size in auto)
  have part: "size_of ?us \<le> i64_max" "size_of (drop (nat (ae_qty ev)) (units c)) \<le> i64_max"
    using size_take_drop[of "nat (ae_qty ev)" "units c"] size size_nonneg[of ?us] size_nonneg[of "drop (nat (ae_qty ev)) (units c)"]
    by linarith+
  have taken: "int (length ?us) = ae_qty ev" using True by (auto simp: min_def)
  have cost: "wrap_i64 (cost_of ?us) = cost_of ?us" using cost_le_size[of ?us] part(1) by (intro wrap_i64_within) linarith
  have "fifo_event ev (c, pe, rows) = (c', pe @ [filled ev (cost_of ?us sdiv ae_qty ev) (cost_of ?us)], rows @ rs)"
    using True W by (simp add: fifo_event_def available_units[OF assms] w cost Let_def)
  moreover have "cursor_ok c'" using W len part(2) by (simp add: cursor_ok_def)
  moreover have "fifo_outcome (map fst c) (ev, Some ?us) (filled ev (cost_of ?us sdiv ae_qty ev) (cost_of ?us), rs)"
    using W True part(1) taken len by (simp add: fifo_outcome_def del: length_take)
  ultimately show ?thesis using that W True by blast
next
  case False
  then have "fifo_event ev (c, pe, rows) = (c, pe @ [unfilled ev], rows @ [])"
    by (auto simp: fifo_event_def available_units[OF assms])
  then show ?thesis using that[of c "unfilled ev" "[]"] assms False by (simp add: fifo_outcome_def)
qed

lemma fifo_fold:
  assumes "cursor_ok c"
  shows "\<exists>c' outs. fold fifo_event evs (c, pe, rows) = (c', pe @ map fst outs, rows @ concat (map snd outs)) \<and>
    list_all2 (fifo_outcome (map fst c)) (zip evs (fifo_taken (units c) evs)) outs"
  using assms
proof (induction evs arbitrary: c pe rows)
  case Nil
  then show ?case by simp
next
  case (Cons ev evs)
  obtain c1 er rs where e: "fifo_event ev (c, pe, rows) = (c1, pe @ [er], rows @ rs)" "cursor_ok c1" "map fst c1 = map fst c"
    "0 < ae_qty ev \<and> ae_qty ev \<le> int (length (units c)) \<Longrightarrow>
      units c1 = drop (nat (ae_qty ev)) (units c) \<and> fifo_outcome (map fst c) (ev, Some (take (nat (ae_qty ev)) (units c))) (er, rs)"
    "\<not> (0 < ae_qty ev \<and> ae_qty ev \<le> int (length (units c))) \<Longrightarrow> c1 = c \<and> fifo_outcome (map fst c) (ev, None) (er, rs)"
    by (rule fifo_event_units[OF Cons.prems, where ev = ev and pe = pe and rows = rows]) blast
  obtain c' outs where r: "fold fifo_event evs (c1, pe @ [er], rows @ rs) = (c', (pe @ [er]) @ map fst outs, (rows @ rs) @ concat (map snd outs))"
    "list_all2 (fifo_outcome (map fst c1)) (zip evs (fifo_taken (units c1) evs)) outs"
    using Cons.IH[OF e(2), of "pe @ [er]" "rows @ rs"] by blast
  have "list_all2 (fifo_outcome (map fst c)) (zip (ev # evs) (fifo_taken (units c) (ev # evs))) ((er, rs) # outs)"
    using e(3-5) r(2) by (cases "0 < ae_qty ev \<and> ae_qty ev \<le> int (length (units c))") auto
  moreover have "fold fifo_event (ev # evs) (c, pe, rows) = (c', pe @ map fst ((er, rs) # outs), rows @ concat (map snd ((er, rs) # outs)))"
    using e(1) r(1) by simp
  ultimately show ?case by blast
qed

lemma fifo_taken_length [simp]: "length (fifo_taken us evs) = length evs"
  by (induction evs arbitrary: us) auto

lemma fifo_plan_outcomes:
  assumes "cursor_ok (layer_cursor s)"
  obtains outs where "pr_per_event (fifo_plan_apply b s) = map fst outs" "pr_depletion_inserts (fifo_plan_apply b s) = concat (map snd outs)"
    "list_all2 (fifo_outcome (map fst (layer_cursor s))) (zip (pb_events b) (fifo_taken (units (layer_cursor s)) (pb_events b))) outs"
  using fifo_fold[OF assms, of "pb_events b" "[]" "[]"] that by (auto simp: fifo_plan_apply_def)
section \<open>The contract of a method\<close>

definition dep_row :: "PocDepletionRow \<Rightarrow> DedupRow" where
  "dep_row d = \<lparr>dd_issue_id = dr_issue_id d, dd_qty = dr_qty d, dd_unit_cost = dr_unit_cost d\<rparr>"

definition con_row :: "PocConsumptionRow \<Rightarrow> DedupRow" where
  "con_row c = \<lparr>dd_issue_id = cr_issue_id c, dd_qty = cr_qty c, dd_unit_cost = cr_applied_unit_cost c\<rparr>"

text \<open>
  What a method promises of one event, given the rows it inserts for it: a failed event has no rows and
  no cost; a successful one has rows with its keys and positive quantities, at most one per layer or one in all,
  and these rows, summed up as a replay sums them, give exactly the result.
\<close>

type_synonym outcome = "PocEventResult \<times> PocDepletionRow list \<times> PocConsumptionRow list"

definition sound_outcome :: "PocPoolKey \<Rightarrow> PocApplyEvent \<Rightarrow> outcome \<Rightarrow> bool" where
  "sound_outcome pool ev out \<longleftrightarrow> (case out of (er, ds, cs) \<Rightarrow>
    er_event_seq er = ae_event_seq ev \<and>
    (\<forall>d\<in>set ds. 0 < dr_qty d \<and> dr_issue_id d = ae_issue_id ev \<and> dr_user_tx_xid d = ae_user_tx_xid ev) \<and>
    (\<forall>c\<in>set cs. 0 < cr_qty c \<and> cr_issue_id c = ae_issue_id ev \<and> cr_user_tx_xid c = ae_user_tx_xid ev \<and>
      cr_sku_id c = pk_sku_id pool \<and> cr_location_id c = pk_location_id pool) \<and>
    distinct (map dr_layer_id ds) \<and> length cs \<le> 1 \<and>
    (case er_error er of
       Some e \<Rightarrow> ds = [] \<and> cs = [] \<and> er_applied_unit_cost er = 0 \<and> er_applied_total_cost er = 0
     | None \<Rightarrow> map dep_row ds @ map con_row cs \<noteq> [] \<and> aggregate_replay (map dep_row ds @ map con_row cs) =
         \<lparr>rp_qty = ae_qty ev, rp_total_cost = er_applied_total_cost er, rp_weighted_unit_cost = er_applied_unit_cost er\<rparr>))"

lemma filter_concat_key:
  assumes "list_all2 (\<lambda>k xs. \<forall>x\<in>set xs. f x = k) ks xss" "distinct ks" "j < length ks"
  shows "filter (\<lambda>x. f x = ks ! j) (concat xss) = xss ! j"
  using assms
proof (induction arbitrary: j rule: list_all2_induct)
  case (Cons k ks xs xss)
  have rest: "filter (\<lambda>x. f x = k') (concat xss) = []" if "k' \<notin> set ks" for k'
    using Cons.hyps(2) that by (induction rule: list_all2_induct) (auto simp: filter_empty_conv)
  show ?case
  proof (cases j)
    case 0
    then show ?thesis using Cons.hyps(1) Cons.prems(1) rest[of k] by simp
  next
    case (Suc n)
    have "ks ! n \<noteq> k" using Cons.prems Suc by auto
    then have "filter (\<lambda>x. f x = ks ! n) xs = []" using Cons.hyps(1) by (auto simp: filter_empty_conv)
    then show ?thesis using Cons.IH[of n] Cons.prems Suc by simp
  qed
qed simp

locale cost_method =
  fixes plan :: "PocApplyBatch \<Rightarrow> PocSnapshot \<Rightarrow> PocApplyResult"
    and fits :: "PocApplyBatch \<Rightarrow> PocSnapshot \<Rightarrow> bool"
  assumes in_order: "map er_event_seq (pr_per_event (plan b s)) = map ae_event_seq (pb_events b)"
    and rows_planned: "\<forall>d\<in>set (pr_depletion_inserts (plan b s)). dr_issue_id d \<in> ae_issue_id ` set (pb_events b)"
      "\<forall>c\<in>set (pr_consumption_inserts (plan b s)). cr_issue_id c \<in> ae_issue_id ` set (pb_events b)"
    and outcomes: "fits b s \<Longrightarrow> \<exists>outs. pr_per_event (plan b s) = map fst outs \<and>
      pr_depletion_inserts (plan b s) = concat (map (fst \<circ> snd) outs) \<and>
      pr_consumption_inserts (plan b s) = concat (map (snd \<circ> snd) outs) \<and>
      list_all2 (sound_outcome (pb_pool b)) (pb_events b) outs"

begin

text \<open>With distinct issues, the rows of an issue are the rows of its event.\<close>

lemma event_rows:
  assumes "fits b s" "distinct (map ae_issue_id (pb_events b))" "j < length (pb_events b)"
  defines "x \<equiv> ae_issue_id (pb_events b ! j)" and "er \<equiv> pr_per_event (plan b s) ! j"
  defines "rows \<equiv> map dep_row (filter (\<lambda>d. dr_issue_id d = x) (pr_depletion_inserts (plan b s))) @
    map con_row (filter (\<lambda>c. cr_issue_id c = x) (pr_consumption_inserts (plan b s)))"
  shows "case er_error er of Some e \<Rightarrow> rows = [] | None \<Rightarrow> rows \<noteq> [] \<and> aggregate_replay rows =
    \<lparr>rp_qty = ae_qty (pb_events b ! j), rp_total_cost = er_applied_total_cost er, rp_weighted_unit_cost = er_applied_unit_cost er\<rparr>"
proof -
  obtain outs where o: "pr_per_event (plan b s) = map fst outs" "pr_depletion_inserts (plan b s) = concat (map (fst \<circ> snd) outs)"
    "pr_consumption_inserts (plan b s) = concat (map (snd \<circ> snd) outs)" "list_all2 (sound_outcome (pb_pool b)) (pb_events b) outs"
    using outcomes[OF assms(1)] by blast
  have len: "length outs = length (pb_events b)" using list_all2_lengthD[OF o(4)] by simp
  have keys: "list_all2 (\<lambda>k ds. \<forall>d\<in>set ds. dr_issue_id d = k) (map ae_issue_id (pb_events b)) (map (fst \<circ> snd) outs)"
    "list_all2 (\<lambda>k cs. \<forall>c\<in>set cs. cr_issue_id c = k) (map ae_issue_id (pb_events b)) (map (snd \<circ> snd) outs)"
    using o(4) by (auto simp: list_all2_conv_all_nth sound_outcome_def case_prod_beta)
  have 1: "filter (\<lambda>d. dr_issue_id d = x) (pr_depletion_inserts (plan b s)) = fst (snd (outs ! j))"
    using filter_concat_key[OF keys(1) assms(2), of j] assms(3) len unfolding o(2) x_def by simp
  have 2: "filter (\<lambda>c. cr_issue_id c = x) (pr_consumption_inserts (plan b s)) = snd (snd (outs ! j))"
    using filter_concat_key[OF keys(2) assms(2), of j] assms(3) len unfolding o(3) x_def by simp
  have "sound_outcome (pb_pool b) (pb_events b ! j) (outs ! j)" using o(4) assms(3) by (simp add: list_all2_conv_all_nth)
  moreover have "er = fst (outs ! j)" using assms(3) len unfolding er_def o(1) by simp
  ultimately show ?thesis unfolding rows_def 1 2 sound_outcome_def by (auto split: prod.splits option.splits)
qed

end

lemma unfilled_sound: "sound_outcome pool ev (unfilled ev, [], [])"
  by (simp add: sound_outcome_def unfilled_def)

lemma consumption_sound:
  assumes "0 < ae_qty ev" "ae_qty ev \<le> i64_max" "\<bar>u * ae_qty ev\<bar> \<le> i64_max"
  shows "sound_outcome pool ev (filled ev u (clamp_i64 (u * ae_qty ev)), [], [consumption pool ev u])"
proof -
  let ?r = "\<lparr>dd_issue_id = ae_issue_id ev, dd_qty = ae_qty ev, dd_unit_cost = u\<rparr>"
  have "worth [?r] \<le> i64_max" using assms by (simp add: worth_def abs_mult mult.commute)
  then have "aggregate_replay [?r] = \<lparr>rp_qty = ae_qty ev, rp_total_cost = ae_qty ev * u, rp_weighted_unit_cost = ae_qty ev * u sdiv ae_qty ev\<rparr>"
    using assms by (subst aggregate_exact) simp_all
  moreover have "ae_qty ev * u sdiv ae_qty ev = u" using assms(1) by (simp add: signed_divide_int_def sgn_mult abs_mult sgn_mult_abs)
  ultimately show ?thesis
    using assms by (simp add: sound_outcome_def filled_def consumption_def con_row_def clamp_i64_id mult.commute)
qed

lemma subseq_distinct: "subseq xs ys \<Longrightarrow> distinct ys \<Longrightarrow> distinct xs"
  by (induction rule: list_emb.induct) (auto dest: list_emb_set)

lemma depletions_sound:
  assumes "fifo_outcome ids (ev, tk) (er, ds)" "distinct ids"
  shows "sound_outcome pool ev (er, ds, [])"
proof (cases tk)
  case None
  then show ?thesis using assms(1) unfilled_sound by (simp add: fifo_outcome_def)
next
  case (Some us)
  have o: "er = filled ev (cost_of us sdiv ae_qty ev) (cost_of us)" "row_units ds = us" "int (length us) = ae_qty ev" "0 < ae_qty ev"
    "size_of us \<le> i64_max \<and> ae_qty ev \<le> i64_max" "rows_of_event ev ds" "subseq (map dr_layer_id ds) ids"
    using assms(1) Some by (auto simp: fifo_outcome_def)
  have pos: "\<And>d. d \<in> set ds \<Longrightarrow> 0 < dr_qty d" using o(6) by (simp add: rows_of_event_def)
  have "(\<Sum>r\<leftarrow>map dep_row ds. dd_qty r) = int (length (row_units ds)) \<and>
      (\<Sum>r\<leftarrow>map dep_row ds. dd_qty r * dd_unit_cost r) = cost_of (row_units ds) \<and> worth (map dep_row ds) = size_of (row_units ds)"
    using pos by (induction ds) (auto simp: dep_row_def worth_def less_imp_le)
  then have sums: "(\<Sum>r\<leftarrow>map dep_row ds. dd_qty r) = ae_qty ev" "(\<Sum>r\<leftarrow>map dep_row ds. dd_qty r * dd_unit_cost r) = cost_of us"
    "worth (map dep_row ds) = size_of us" using o by simp_all
  have ne: "ds \<noteq> []" using o(2-4) by auto
  have "aggregate_replay (map dep_row ds) =
      \<lparr>rp_qty = ae_qty ev, rp_total_cost = cost_of us, rp_weighted_unit_cost = cost_of us sdiv ae_qty ev\<rparr>"
    by (subst aggregate_exact) (use pos ne sums o(5) in \<open>auto simp: dep_row_def[abs_def]\<close>)
  moreover have "distinct (map dr_layer_id ds)" using subseq_distinct[OF o(7) assms(2)] .
  ultimately show ?thesis using o(1,6) ne by (simp add: sound_outcome_def filled_def rows_of_event_def)
qed
section \<open>The four methods keep the contract\<close>

definition fifo_fits :: "PocApplyBatch \<Rightarrow> PocSnapshot \<Rightarrow> bool" where
  "fifo_fits b s \<longleftrightarrow> cursor_ok (layer_cursor s) \<and> distinct (map lv_layer_id (ps_layers s))"

text \<open>The average applies to no more than the pool holds, so a non-negative value within range is enough.\<close>

definition avg_fits :: "PocApplyBatch \<Rightarrow> PocSnapshot \<Rightarrow> bool" where
  "avg_fits b s \<longleftrightarrow> ps_total_available_qty s \<le> i64_max \<and>
    (\<forall>u. ps_avg_unit_cost s = Some u \<longrightarrow> \<bar>u\<bar> * ps_total_available_qty s \<le> i64_max)"

definition std_fits :: "PocApplyBatch \<Rightarrow> PocSnapshot \<Rightarrow> bool" where
  "std_fits b s \<longleftrightarrow> (\<forall>ev\<in>set (pb_events b). ae_qty ev \<le> i64_max \<and> (\<forall>u. ps_standard_cost s = Some u \<longrightarrow> \<bar>u * ae_qty ev\<bar> \<le> i64_max))"

definition mock_fits :: "PocApplyBatch \<Rightarrow> PocSnapshot \<Rightarrow> bool" where
  "mock_fits b s \<longleftrightarrow> (\<forall>ev\<in>set (pb_events b). 0 < ae_qty ev)"

lemma result_seq [simp]: "er_event_seq (unfilled ev) = ae_event_seq ev" "er_event_seq (filled ev u t) = ae_event_seq ev"
  by (simp_all add: unfilled_def filled_def)

lemma fold_appends:
  assumes "\<And>ev st. map er_event_seq (res (f ev st)) = map er_event_seq (res st) @ [ae_event_seq ev]"
  shows "map er_event_seq (res (fold f evs st)) = map er_event_seq (res st) @ map ae_event_seq evs"
  by (induction evs arbitrary: st) (simp_all add: assms)

lemma fold_rows:
  assumes "\<And>ev st r. r \<in> set (rows (f ev st)) \<Longrightarrow> r \<in> set (rows st) \<or> key r = ae_issue_id ev"
  shows "r \<in> set (rows (fold f evs st)) \<Longrightarrow> r \<in> set (rows st) \<or> key r \<in> ae_issue_id ` set evs"
proof (induction evs arbitrary: st)
  case (Cons ev evs)
  then show ?case using Cons.IH[of "f ev st"] assms[of r ev st] by auto
qed simp

lemma fifo_walk_issue: "fifo_walk ev r t c = (c', r', t', rows) \<Longrightarrow> d \<in> set rows \<Longrightarrow> dr_issue_id d = ae_issue_id ev"
  by (induction ev r t c arbitrary: c' r' t' rows rule: fifo_walk.induct) (auto simp: Let_def depletion_def split: prod.splits if_splits)

lemma fold_outcomes:
  assumes "\<And>ev st. ev \<in> set evs \<Longrightarrow> I st \<Longrightarrow>
      \<exists>st' er cs. f ev st = st' \<and> I st' \<and> res st' = res st @ [er] \<and> rows st' = rows st @ cs \<and> sound_outcome pool ev (er, [], cs)"
    and "I st"
  shows "\<exists>outs. res (fold f evs st) = res st @ map fst outs \<and> rows (fold f evs st) = rows st @ concat (map (snd \<circ> snd) outs) \<and>
    concat (map (fst \<circ> snd) outs) = [] \<and> list_all2 (sound_outcome pool) evs outs"
  using assms
proof (induction evs arbitrary: st)
  case Nil
  then show ?case by simp
next
  case (Cons ev evs)
  obtain er cs where e: "I (f ev st)" "res (f ev st) = res st @ [er]" "rows (f ev st) = rows st @ cs" "sound_outcome pool ev (er, [], cs)"
    using Cons.prems by (metis list.set_intros(1))
  obtain outs where "res (fold f evs (f ev st)) = res (f ev st) @ map fst outs" "rows (fold f evs (f ev st)) = rows (f ev st) @ concat (map (snd \<circ> snd) outs)"
    "concat (map (fst \<circ> snd) outs) = []" "list_all2 (sound_outcome pool) evs outs"
    using Cons.IH[OF _ e(1)] Cons.prems(1) by (metis list.set_intros(2))
  then show ?case using e by (intro exI[of _ "(er, [], cs) # outs"]) (simp add: comp_def)
qed

interpretation fifo: cost_method fifo_plan_apply fifo_fits
proof
  fix b :: PocApplyBatch and s :: PocSnapshot
  show "map er_event_seq (pr_per_event (fifo_plan_apply b s)) = map ae_event_seq (pb_events b)"
    using fold_appends[of "\<lambda>st. fst (snd st)" fifo_event "pb_events b" "(layer_cursor s, [], [])"]
    by (auto simp: fifo_plan_apply_def fifo_event_def Let_def split: prod.splits)
  have rows: "r \<in> set (snd (snd (fifo_event ev st))) \<Longrightarrow> r \<in> set (snd (snd st)) \<or> dr_issue_id r = ae_issue_id ev" for ev st r
    by (cases st) (auto simp: fifo_event_def Let_def split: prod.splits option.splits if_splits dest: fifo_walk_issue)
  have "\<forall>r\<in>set (pr_depletion_inserts (fifo_plan_apply b s)). dr_issue_id r \<in> ae_issue_id ` set (pb_events b)"
    using fold_rows[where rows = "\<lambda>st. snd (snd st)" and f = fifo_event and key = dr_issue_id and evs = "pb_events b" and st = "(layer_cursor s, [], [])", OF rows]
    by (fastforce simp: fifo_plan_apply_def split: prod.splits)
  then show "\<forall>d\<in>set (pr_depletion_inserts (fifo_plan_apply b s)). dr_issue_id d \<in> ae_issue_id ` set (pb_events b)"
    "\<forall>c\<in>set (pr_consumption_inserts (fifo_plan_apply b s)). cr_issue_id c \<in> ae_issue_id ` set (pb_events b)"
    by (simp_all add: fifo_plan_apply_def split: prod.splits)
  assume "fifo_fits b s"
  then have fits: "cursor_ok (layer_cursor s)" "distinct (map fst (layer_cursor s))"
    by (simp_all add: fifo_fits_def layer_cursor_def comp_def)
  obtain outs where o: "pr_per_event (fifo_plan_apply b s) = map fst outs" "pr_depletion_inserts (fifo_plan_apply b s) = concat (map snd outs)"
    "list_all2 (fifo_outcome (map fst (layer_cursor s))) (zip (pb_events b) (fifo_taken (units (layer_cursor s)) (pb_events b))) outs"
    by (rule fifo_plan_outcomes[OF fits(1)])
  let ?outs = "map (\<lambda>(er, ds). (er, ds, [])) outs"
  have "list_all2 (sound_outcome (pb_pool b)) (pb_events b) ?outs"
    using o(3) depletions_sound[OF _ fits(2)]
    by (auto simp: list_all2_conv_all_nth case_prod_beta intro: depletions_sound[OF _ fits(2)])
  moreover have "pr_per_event (fifo_plan_apply b s) = map fst ?outs" "pr_depletion_inserts (fifo_plan_apply b s) = concat (map (fst \<circ> snd) ?outs)"
    "pr_consumption_inserts (fifo_plan_apply b s) = concat (map (snd \<circ> snd) ?outs)"
    using o(1,2) by (auto simp: comp_def case_prod_beta fifo_plan_apply_def concat_eq_Nil_conv[THEN sym])
  ultimately show "\<exists>outs. pr_per_event (fifo_plan_apply b s) = map fst outs \<and>
      pr_depletion_inserts (fifo_plan_apply b s) = concat (map (fst \<circ> snd) outs) \<and>
      pr_consumption_inserts (fifo_plan_apply b s) = concat (map (snd \<circ> snd) outs) \<and>
      list_all2 (sound_outcome (pb_pool b)) (pb_events b) outs" by blast
qed
interpretation avg: cost_method avg_plan_apply avg_fits
proof
  fix b :: PocApplyBatch and s :: PocSnapshot
  let ?f = "avg_event (pb_pool b) (ps_avg_unit_cost s)" and ?st = "(ps_total_available_qty s, [], [])"
  show "map er_event_seq (pr_per_event (avg_plan_apply b s)) = map ae_event_seq (pb_events b)"
    using fold_appends[of "\<lambda>st. fst (snd st)" ?f "pb_events b" ?st]
    by (auto simp: avg_plan_apply_def avg_event_def Let_def split: prod.splits option.splits)
  have rows: "r \<in> set (snd (snd (?f ev st))) \<Longrightarrow> r \<in> set (snd (snd st)) \<or> cr_issue_id r = ae_issue_id ev" for ev st r
    by (cases st) (auto simp: avg_event_def consumption_def Let_def split: prod.splits option.splits if_splits)
  have "\<forall>r\<in>set (pr_consumption_inserts (avg_plan_apply b s)). cr_issue_id r \<in> ae_issue_id ` set (pb_events b)"
    using fold_rows[where rows = "\<lambda>st. snd (snd st)" and f = ?f and key = cr_issue_id and evs = "pb_events b" and st = ?st, OF rows]
    by (fastforce simp: avg_plan_apply_def split: prod.splits)
  then show "\<forall>d\<in>set (pr_depletion_inserts (avg_plan_apply b s)). dr_issue_id d \<in> ae_issue_id ` set (pb_events b)"
    "\<forall>c\<in>set (pr_consumption_inserts (avg_plan_apply b s)). cr_issue_id c \<in> ae_issue_id ` set (pb_events b)"
    by (simp_all add: avg_plan_apply_def split: prod.splits)
  assume fits: "avg_fits b s"
  have step: "\<exists>st' er cs. ?f ev st = st' \<and> fst st' \<le> ps_total_available_qty s \<and> fst (snd st') = fst (snd st) @ [er] \<and>
      snd (snd st') = snd (snd st) @ cs \<and> sound_outcome (pb_pool b) ev (er, [], cs)"
    if "fst st \<le> ps_total_available_qty s" for ev st
  proof (cases "0 < ae_qty ev \<and> ae_qty ev \<le> fst st \<and> ps_avg_unit_cost s \<noteq> None")
    case True
    then obtain u where u: "ps_avg_unit_cost s = Some u" by blast
    have "\<bar>u * ae_qty ev\<bar> \<le> \<bar>u\<bar> * ps_total_available_qty s" using True that by (simp add: abs_mult mult_left_mono)
    then have b: "\<bar>u * ae_qty ev\<bar> \<le> i64_max" "ae_qty ev \<le> i64_max" "fst st \<le> i64_max" using fits u that True by (auto simp: avg_fits_def)
    have "sound_outcome (pb_pool b) ev (filled ev u (clamp_i64 (u * ae_qty ev)), [], [consumption (pb_pool b) ev u])"
      using consumption_sound b True by blast
    moreover have "wrap_i64 (fst st - ae_qty ev) = fst st - ae_qty ev" using True b(3) by (intro wrap_i64_within) auto
    ultimately show ?thesis using True that u by (auto simp: avg_event_def Let_def split: prod.splits)
  next
    case False
    then show ?thesis using that unfilled_sound by (auto simp: avg_event_def Let_def split: prod.splits option.splits)
  qed
  from fold_outcomes[where f = ?f and I = "\<lambda>st. fst st \<le> ps_total_available_qty s" and res = "\<lambda>st. fst (snd st)" and rows = "\<lambda>st. snd (snd st)"
      and evs = "pb_events b" and pool = "pb_pool b" and st = ?st, OF step]
  show "\<exists>outs. pr_per_event (avg_plan_apply b s) = map fst outs \<and>
      pr_depletion_inserts (avg_plan_apply b s) = concat (map (fst \<circ> snd) outs) \<and>
      pr_consumption_inserts (avg_plan_apply b s) = concat (map (snd \<circ> snd) outs) \<and>
      list_all2 (sound_outcome (pb_pool b)) (pb_events b) outs"
    by (auto simp: avg_plan_apply_def split: prod.splits)
qed

interpretation std: cost_method std_plan_apply std_fits
proof
  fix b :: PocApplyBatch and s :: PocSnapshot
  let ?f = "std_event (pb_pool b) (ps_standard_cost s)"
  show "map er_event_seq (pr_per_event (std_plan_apply b s)) = map ae_event_seq (pb_events b)"
    using fold_appends[of fst ?f "pb_events b" "([], [])"]
    by (auto simp: std_plan_apply_def std_event_def Let_def split: prod.splits option.splits)
  have rows: "r \<in> set (snd (?f ev st)) \<Longrightarrow> r \<in> set (snd st) \<or> cr_issue_id r = ae_issue_id ev" for ev st r
    by (cases st) (auto simp: std_event_def consumption_def Let_def split: prod.splits option.splits if_splits)
  have "\<forall>r\<in>set (pr_consumption_inserts (std_plan_apply b s)). cr_issue_id r \<in> ae_issue_id ` set (pb_events b)"
    using fold_rows[where rows = snd and f = ?f and key = cr_issue_id and evs = "pb_events b" and st = "([], [])", OF rows]
    by (fastforce simp: std_plan_apply_def split: prod.splits)
  then show "\<forall>d\<in>set (pr_depletion_inserts (std_plan_apply b s)). dr_issue_id d \<in> ae_issue_id ` set (pb_events b)"
    "\<forall>c\<in>set (pr_consumption_inserts (std_plan_apply b s)). cr_issue_id c \<in> ae_issue_id ` set (pb_events b)"
    by (simp_all add: std_plan_apply_def split: prod.splits)
  assume fits: "std_fits b s"
  have step: "\<exists>st' er cs. ?f ev st = st' \<and> True \<and> fst st' = fst st @ [er] \<and> snd st' = snd st @ cs \<and> sound_outcome (pb_pool b) ev (er, [], cs)"
    if "ev \<in> set (pb_events b)" for ev st
    using that fits unfilled_sound consumption_sound[of ev _ "pb_pool b"]
    by (cases "ps_standard_cost s") (auto simp: std_event_def std_fits_def Let_def split: prod.splits)
  from fold_outcomes[where f = ?f and I = "\<lambda>_. True" and res = fst and rows = snd and evs = "pb_events b" and pool = "pb_pool b"
      and st = "([], [])", OF step]
  show "\<exists>outs. pr_per_event (std_plan_apply b s) = map fst outs \<and>
      pr_depletion_inserts (std_plan_apply b s) = concat (map (fst \<circ> snd) outs) \<and>
      pr_consumption_inserts (std_plan_apply b s) = concat (map (snd \<circ> snd) outs) \<and>
      list_all2 (sound_outcome (pb_pool b)) (pb_events b) outs"
    by (auto simp: std_plan_apply_def split: prod.splits)
qed

interpretation mock: cost_method mock_plan_apply mock_fits
proof
  fix b :: PocApplyBatch and s :: PocSnapshot
  let ?f = "mock_event (pb_pool b)"
  show "map er_event_seq (pr_per_event (mock_plan_apply b s)) = map ae_event_seq (pb_events b)"
    using fold_appends[of fst ?f "pb_events b" "([], [])"]
    by (auto simp: mock_plan_apply_def mock_event_def Let_def split: prod.splits)
  have rows: "r \<in> set (snd (?f ev st)) \<Longrightarrow> r \<in> set (snd st) \<or> cr_issue_id r = ae_issue_id ev" for ev st r
    by (cases st) (auto simp: mock_event_def consumption_def Let_def split: prod.splits option.splits if_splits)
  have "\<forall>r\<in>set (pr_consumption_inserts (mock_plan_apply b s)). cr_issue_id r \<in> ae_issue_id ` set (pb_events b)"
    using fold_rows[where rows = snd and f = ?f and key = cr_issue_id and evs = "pb_events b" and st = "([], [])", OF rows]
    by (fastforce simp: mock_plan_apply_def split: prod.splits)
  then show "\<forall>d\<in>set (pr_depletion_inserts (mock_plan_apply b s)). dr_issue_id d \<in> ae_issue_id ` set (pb_events b)"
    "\<forall>c\<in>set (pr_consumption_inserts (mock_plan_apply b s)). cr_issue_id c \<in> ae_issue_id ` set (pb_events b)"
    by (simp_all add: mock_plan_apply_def split: prod.splits)
  assume fits: "mock_fits b s"
  have unit: "0 \<le> i AND 255 \<and> i AND 255 \<le> 255" for i :: int
    by simp
  have step: "\<exists>st' er cs. ?f ev st = st' \<and> True \<and> fst st' = fst st @ [er] \<and> snd st' = snd st @ cs \<and> sound_outcome (pb_pool b) ev (er, [], cs)"
    if "ev \<in> set (pb_events b)" for ev st
  proof (cases "ae_qty ev > MOCK_ERROR_QTY_THRESHOLD")
    case True
    then show ?thesis using unfilled_sound by (auto simp: mock_event_def Let_def split: prod.splits)
  next
    case False
    let ?u = "100 + (ae_issue_id ev AND 255)"
    have q: "0 < ae_qty ev" "ae_qty ev \<le> 1000000000" using that fits False by (auto simp: mock_fits_def MOCK_ERROR_QTY_THRESHOLD_def)
    have "?u * ae_qty ev \<le> 355 * 1000000000" "0 \<le> ?u * ae_qty ev" using q unit[of "ae_issue_id ev"] mult_mono[of ?u 355 "ae_qty ev" 1000000000] by simp_all
    then have "\<bar>?u * ae_qty ev\<bar> \<le> i64_max" "ae_qty ev \<le> i64_max" using q by (simp_all add: i64_defs)
    from consumption_sound[OF q(1) this(2,1)] show ?thesis
      using False by (auto simp: mock_event_def Let_def mult.commute[of "ae_qty ev"] split: prod.splits)
  qed
  from fold_outcomes[where f = ?f and I = "\<lambda>_. True" and res = fst and rows = snd and evs = "pb_events b" and pool = "pb_pool b"
      and st = "([], [])", OF step]
  show "\<exists>outs. pr_per_event (mock_plan_apply b s) = map fst outs \<and>
      pr_depletion_inserts (mock_plan_apply b s) = concat (map (fst \<circ> snd) outs) \<and>
      pr_consumption_inserts (mock_plan_apply b s) = concat (map (snd \<circ> snd) outs) \<and>
      list_all2 (sound_outcome (pb_pool b)) (pb_events b) outs"
    by (auto simp: mock_plan_apply_def split: prod.splits)
qed
section \<open>Properties of the methods\<close>

definition taken_units :: "cunit list option list \<Rightarrow> cunit list" where
  "taken_units tks = concat (map (\<lambda>tk. case tk of None \<Rightarrow> [] | Some us \<Rightarrow> us) tks)"

lemma taken_prefix: "prefix (taken_units (fifo_taken us evs)) us"
proof (induction evs arbitrary: us)
  case Nil
  show ?case by (simp add: taken_units_def)
next
  case (Cons ev evs)
  show ?case
  proof (cases "0 < ae_qty ev \<and> ae_qty ev \<le> int (length us)")
    case True
    have "prefix (take (nat (ae_qty ev)) us @ taken_units (fifo_taken (drop (nat (ae_qty ev)) us) evs))
        (take (nat (ae_qty ev)) us @ drop (nat (ae_qty ev)) us)"
      unfolding same_prefix_prefix by (rule Cons.IH)
    then show ?thesis using True by (simp add: taken_units_def)
  next
    case False
    show ?thesis using Cons.IH[of us] unfolding fifo_taken.simps if_not_P[OF False] by (simp add: taken_units_def)
  qed
qed

definition reference_result :: "PocApplyEvent \<Rightarrow> cunit list option \<Rightarrow> PocEventResult" where
  "reference_result ev tk = (case tk of None \<Rightarrow> unfilled ev | Some us \<Rightarrow> filled ev (cost_of us sdiv ae_qty ev) (cost_of us))"

lemma outcome_result:
  assumes "fifo_outcome ids p out"
  shows "fst out = reference_result (fst p) (snd p)" "row_units (snd out) = (case snd p of None \<Rightarrow> [] | Some us \<Rightarrow> us)"
  using assms by (cases p; cases "snd p"; simp add: fifo_outcome_def reference_result_def)+

lemma outcomes_results:
  assumes "list_all2 (fifo_outcome ids) ps outs"
  shows "map fst outs = map (\<lambda>(ev, tk). reference_result ev tk) ps \<and> row_units (concat (map snd outs)) = taken_units (map snd ps)"
  using assms
proof (induction rule: list_all2_induct)
  case (Cons p ps out outs)
  then show ?case using outcome_result[OF Cons(1)] by (simp add: taken_units_def case_prod_beta)
qed (simp add: taken_units_def)

text \<open>
  C37. FIFO refines its reference: over a pool whose quantity and value are within range, the plan of a batch
  answers, event by event, what taking units off the front of the pool answers (an error when not
  enough units are left, otherwise their exact total and its truncated average), the depletion rows are these
  units, and together they are the oldest units of the pool, none of them twice.
\<close>

theorem fifo_plan_refines:
  assumes "cursor_ok (layer_cursor s)"
  shows "pr_per_event (fifo_plan_apply b s) = map2 reference_result (pb_events b) (fifo_taken (units (layer_cursor s)) (pb_events b)) \<and>
    row_units (pr_depletion_inserts (fifo_plan_apply b s)) = taken_units (fifo_taken (units (layer_cursor s)) (pb_events b)) \<and>
    prefix (row_units (pr_depletion_inserts (fifo_plan_apply b s))) (units (layer_cursor s))"
proof -
  let ?tks = "fifo_taken (units (layer_cursor s)) (pb_events b)"
  obtain outs where o: "pr_per_event (fifo_plan_apply b s) = map fst outs" "pr_depletion_inserts (fifo_plan_apply b s) = concat (map snd outs)"
    "list_all2 (fifo_outcome (map fst (layer_cursor s))) (zip (pb_events b) ?tks) outs"
    by (rule fifo_plan_outcomes[OF assms])
  show ?thesis using outcomes_results[OF o(3)] o(1,2) taken_prefix[of "units (layer_cursor s)" "pb_events b"] by simp
qed

definition two_layers :: PocSnapshot where
  "two_layers = \<lparr>ps_pool = \<lparr>pk_sku_id = 1, pk_location_id = 1\<rparr>,
    ps_layers = [\<lparr>lv_layer_id = 1, lv_unit_cost = 10, lv_effective_qty = 5, lv_born_at_micros = 0, lv_born_seq = 1\<rparr>,
                 \<lparr>lv_layer_id = 2, lv_unit_cost = 20, lv_effective_qty = 5, lv_born_at_micros = 0, lv_born_seq = 2\<rparr>],
    ps_avg_unit_cost = None, ps_standard_cost = None, ps_total_available_qty = 10\<rparr>"

definition issue_event :: "nat \<Rightarrow> i64 \<Rightarrow> PocApplyEvent" where
  "issue_event n q = \<lparr>ae_event_seq = n, ae_qty = q, ae_at_micros = 0, ae_issue_id = int n + 1, ae_user_tx_xid = 9, ae_slot_idx = of_nat n\<rparr>"

definition three_issues :: PocApplyBatch where
  "three_issues = \<lparr>pb_pool = \<lparr>pk_sku_id = 1, pk_location_id = 1\<rparr>, pb_events = [issue_event 0 7, issue_event 1 4, issue_event 2 3]\<rparr>"

lemma two_layers_ok: "cursor_ok (layer_cursor two_layers)"
  by (simp add: cursor_ok_def layer_cursor_def two_layers_def i64_defs)

theorem fifo_plan_refines_witness:
  "map (\<lambda>er. (er_error er, er_applied_total_cost er)) (pr_per_event (fifo_plan_apply three_issues two_layers)) =
    [(None, 90), (Some InsufficientInventory, 0), (None, 60)]"
  unfolding fifo_plan_refines[OF two_layers_ok, THEN conjunct1]
  by (simp add: three_issues_def two_layers_def layer_cursor_def issue_event_def reference_result_def unfilled_def filled_def)

definition snapshot_typed :: "PocSnapshot \<Rightarrow> bool" where
  "snapshot_typed s \<longleftrightarrow> (\<forall>u. ps_avg_unit_cost s = Some u \<longrightarrow> is_i64 u) \<and> (\<forall>u. ps_standard_cost s = Some u \<longrightarrow> is_i64 u)"

definition result_typed :: "PocEventResult \<Rightarrow> bool" where
  "result_typed er \<longleftrightarrow> is_i64 (er_applied_unit_cost er) \<and> is_i64 (er_applied_total_cost er)"

lemma clamp_typed [simp]: "is_i64 (clamp_i64 x)"
  by (auto simp: clamp_i64_def i64_defs)

lemma sdiv_typed: "is_i64 x \<Longrightarrow> 0 < q \<Longrightarrow> is_i64 (x sdiv q)"
proof -
  assume x: "is_i64 x" and q: "0 < q"
  have "\<bar>x\<bar> div q \<le> \<bar>x\<bar>" "0 \<le> \<bar>x\<bar> div q" using q zdiv_mono2[of "\<bar>x\<bar>" 1 q] by (simp_all add: pos_imp_zdiv_nonneg_iff)
  then show ?thesis using x q by (auto simp: signed_divide_int_def i64_defs sgn_if)
qed

lemma unfilled_typed [simp]: "result_typed (unfilled ev)"
  by (simp add: result_typed_def unfilled_def i64_defs)

lemma filled_typed: "is_i64 u \<Longrightarrow> is_i64 t \<Longrightarrow> result_typed (filled ev u t)"
  by (simp add: result_typed_def filled_def)

lemma fold_typed:
  assumes "\<And>ev st. \<forall>er\<in>set (res st). result_typed er \<Longrightarrow> \<forall>er\<in>set (res (f ev st)). result_typed er"
    "\<forall>er\<in>set (res st). result_typed er"
  shows "\<forall>er\<in>set (res (fold f evs st)). result_typed er"
  using assms(2)
proof (induction evs arbitrary: st)
  case (Cons ev evs)
  show ?case using Cons.IH[OF assms(1)[OF Cons.prems]] by simp
qed simp

lemma fifo_typed: "\<forall>er\<in>set (pr_per_event (fifo_plan_apply b s)). result_typed er"
proof -
  have "\<forall>er\<in>set (fst (snd (fifo_event ev st))). result_typed er" if "\<forall>er\<in>set (fst (snd st)). result_typed er" for ev st
    using that by (cases st) (auto simp: fifo_event_def Let_def sdiv_typed filled_typed split: prod.splits)
  from fold_typed[of "\<lambda>st. fst (snd st)" fifo_event, OF this, of "(layer_cursor s, [], [])" "pb_events b"]
  show ?thesis by (simp add: fifo_plan_apply_def split: prod.splits)
qed

lemma avg_typed:
  assumes "\<And>u. ps_avg_unit_cost s = Some u \<Longrightarrow> is_i64 u"
  shows "\<forall>er\<in>set (pr_per_event (avg_plan_apply b s)). result_typed er"
proof -
  let ?f = "avg_event (pb_pool b) (ps_avg_unit_cost s)"
  have "\<forall>er\<in>set (fst (snd (?f ev st))). result_typed er" if "\<forall>er\<in>set (fst (snd st)). result_typed er" for ev st
    using that assms by (cases st) (auto simp: avg_event_def Let_def filled_typed split: option.splits)
  from fold_typed[of "\<lambda>st. fst (snd st)" ?f, OF this, of "(ps_total_available_qty s, [], [])" "pb_events b"]
  show ?thesis by (simp add: avg_plan_apply_def split: prod.splits)
qed

lemma std_typed:
  assumes "\<And>u. ps_standard_cost s = Some u \<Longrightarrow> is_i64 u"
  shows "\<forall>er\<in>set (pr_per_event (std_plan_apply b s)). result_typed er"
proof -
  let ?f = "std_event (pb_pool b) (ps_standard_cost s)"
  have "\<forall>er\<in>set (fst (?f ev st)). result_typed er" if "\<forall>er\<in>set (fst st). result_typed er" for ev st
    using that assms by (cases st) (auto simp: std_event_def Let_def filled_typed split: option.splits)
  from fold_typed[of fst ?f, OF this, of "([], [])" "pb_events b"]
  show ?thesis by (simp add: std_plan_apply_def split: prod.splits)
qed

lemma mock_typed: "\<forall>er\<in>set (pr_per_event (mock_plan_apply b s)). result_typed er"
proof -
  have u: "is_i64 (100 + (i AND 255))" for i :: int
  proof -
    have "0 \<le> i AND 255 \<and> i AND 255 \<le> 255" by simp
    then show ?thesis unfolding i64_defs by linarith
  qed
  have "\<forall>er\<in>set (fst (mock_event (pb_pool b) ev st)). result_typed er" if "\<forall>er\<in>set (fst st). result_typed er" for ev st
    using that u[of "ae_issue_id ev"] by (cases st) (simp add: mock_event_def Let_def filled_typed)
  from fold_typed[of fst "mock_event (pb_pool b)", OF this, of "([], [])" "pb_events b"]
  show ?thesis by (simp add: mock_plan_apply_def split: prod.splits)
qed



end
