(* ===== verification/PocTables.thy ===== *)
theory PocTables
  imports PocCost "HOL-Library.Product_Lexorder"
begin

text \<open>
  The cost tables of the queue extension (schema in src/poc/queue-extension/src/cost_method.rs and committer.rs)
  and the SQL statements of committer.rs on them. A statement that violates a constraint of the schema
  (a CHECK, a UNIQUE, a foreign key, a BIGINT out of range) raises: \<^const>\<open>None\<close>. Serial keys count up,
  timestamps are microseconds and parameters. Rows of a table are in insertion order.
\<close>

section \<open>Tables\<close>

record PocLayer =
  la_layer_id :: i64
  la_sku_id :: i64
  la_location_id :: i64
  la_qty :: i64
  la_unit_cost :: i64
  la_born_at :: i64
  la_born_seq :: i64
  la_source_kind :: string

record PocDepletion =
  de_depletion_id :: i64
  de_layer_id :: i64
  de_qty :: i64
  de_unit_cost :: i64
  de_consumed_at :: i64
  de_consumed_seq :: i64
  de_issue_id :: i64
  de_method_used :: string
  de_committer_tx_id :: i64
  de_user_tx_xid :: i64

record PocConsumption =
  co_consumption_id :: i64
  co_sku_id :: i64
  co_location_id :: i64
  co_qty :: i64
  co_applied_unit_cost :: i64
  co_consumed_at :: i64
  co_consumed_seq :: i64
  co_issue_id :: i64
  co_method_used :: string
  co_committer_tx_id :: i64
  co_user_tx_xid :: i64

record PocCompensationConsumption =
  kc_reverses_consumption_id :: i64
  kc_sku_id :: i64
  kc_location_id :: i64
  kc_qty :: i64
  kc_applied_unit_cost :: i64
  kc_user_tx_xid :: i64
  kc_committer_tx_id :: i64

record PocCompensationDepletion =
  kd_reverses_depletion_id :: i64
  kd_layer_id :: i64
  kd_qty :: i64
  kd_unit_cost :: i64
  kd_user_tx_xid :: i64
  kd_committer_tx_id :: i64

record PocTestRow =
  te_shard_idx :: nat
  te_slot_idx :: u32
  te_request_seq :: u64
  te_committer_tx_id :: i64
  te_user_tx_xid :: i64
  te_pool_hash :: u64
  te_method_tag :: u8
  te_event_sku_id :: i64
  te_event_location_id :: i64
  te_event_qty :: i64
  te_qty_fake :: i64

record PocTables =
  tb_layers :: "PocLayer list"
  tb_depletions :: "PocDepletion list"
  tb_consumptions :: "PocConsumption list"
  tb_avg :: "PocPoolKey \<Rightarrow> (i64 \<times> i64) option"
  tb_standard_costs :: "i64 \<Rightarrow> i64 option"
  tb_test_rows :: "PocTestRow list"
  tb_comp_consumptions :: "PocCompensationConsumption list"
  tb_comp_depletions :: "PocCompensationDepletion list"
  tb_pool_locks :: "PocPoolKey \<Rightarrow> i64 option"
  tb_pool_lock_anchors :: "PocPoolKey \<Rightarrow> bool"
  tb_next_layer_id :: i64
  tb_next_born_seq :: i64
  tb_next_depletion_id :: i64
  tb_next_consumption_id :: i64

section \<open>Looking up what an issue left behind\<close>

definition de_row :: "PocDepletion \<Rightarrow> DedupRow" where
  "de_row d = \<lparr>dd_issue_id = de_issue_id d, dd_qty = de_qty d, dd_unit_cost = de_unit_cost d\<rparr>"

definition co_row :: "PocConsumption \<Rightarrow> DedupRow" where
  "co_row c = \<lparr>dd_issue_id = co_issue_id c, dd_qty = co_qty c, dd_unit_cost = co_applied_unit_cost c\<rparr>"

definition issue_rows :: "PocTables \<Rightarrow> string \<Rightarrow> i64 \<Rightarrow> DedupRow list" where
  "issue_rows tb m x =
    map de_row (filter (\<lambda>d. de_issue_id d = x \<and> de_method_used d = m) (tb_depletions tb)) @
    map co_row (filter (\<lambda>c. co_issue_id c = x \<and> co_method_used c = m) (tb_consumptions tb))"

text \<open>The map of the source has an entry for an issue exactly when the query returned a row for it.\<close>

definition dedup_lookup :: "PocTables \<Rightarrow> i64 list \<Rightarrow> string \<Rightarrow> i64 \<Rightarrow> DedupRow list option" where
  "dedup_lookup tb issue_ids m x =
    (if x \<in> set issue_ids \<and> issue_rows tb m x \<noteq> [] then Some (issue_rows tb m x) else None)"

section \<open>Inserts\<close>

definition insert_depletion_row :: "string \<Rightarrow> i64 \<Rightarrow> i64 \<Rightarrow> i64 \<Rightarrow> PocDepletionRow \<Rightarrow> PocTables \<Rightarrow> PocTables option" where
  "insert_depletion_row m ctx consumed_at consumed_seq r tb =
    (if 0 < dr_qty r \<and> (\<exists>l\<in>set (tb_layers tb). la_layer_id l = dr_layer_id r) \<and>
        \<not> (\<exists>d\<in>set (tb_depletions tb). de_issue_id d = dr_issue_id r \<and> de_method_used d = m \<and> de_layer_id d = dr_layer_id r)
     then Some (tb\<lparr>tb_depletions := tb_depletions tb @
         [\<lparr>de_depletion_id = tb_next_depletion_id tb, de_layer_id = dr_layer_id r, de_qty = dr_qty r, de_unit_cost = dr_unit_cost r,
           de_consumed_at = consumed_at, de_consumed_seq = consumed_seq, de_issue_id = dr_issue_id r, de_method_used = m,
           de_committer_tx_id = ctx, de_user_tx_xid = dr_user_tx_xid r\<rparr>],
         tb_next_depletion_id := tb_next_depletion_id tb + 1\<rparr>)
     else None)"

primrec insert_depletions :: "string \<Rightarrow> i64 \<Rightarrow> i64 \<Rightarrow> i64 \<Rightarrow> PocDepletionRow list \<Rightarrow> PocTables \<Rightarrow> PocTables option" where
  "insert_depletions m ctx consumed_at base [] tb = Some tb"
| "insert_depletions m ctx consumed_at base (r # rs) tb =
    Option.bind (insert_depletion_row m ctx consumed_at base r tb) (insert_depletions m ctx consumed_at (wrap_i64 (base + 1)) rs)"

definition insert_consumption_row :: "string \<Rightarrow> i64 \<Rightarrow> i64 \<Rightarrow> i64 \<Rightarrow> PocConsumptionRow \<Rightarrow> PocTables \<Rightarrow> PocTables option" where
  "insert_consumption_row m ctx consumed_at consumed_seq r tb =
    (if 0 < cr_qty r \<and> \<not> (\<exists>c\<in>set (tb_consumptions tb). co_issue_id c = cr_issue_id r \<and> co_method_used c = m)
     then Some (tb\<lparr>tb_consumptions := tb_consumptions tb @
         [\<lparr>co_consumption_id = tb_next_consumption_id tb, co_sku_id = cr_sku_id r, co_location_id = cr_location_id r,
           co_qty = cr_qty r, co_applied_unit_cost = cr_applied_unit_cost r, co_consumed_at = consumed_at,
           co_consumed_seq = consumed_seq, co_issue_id = cr_issue_id r, co_method_used = m, co_committer_tx_id = ctx,
           co_user_tx_xid = cr_user_tx_xid r\<rparr>],
         tb_next_consumption_id := tb_next_consumption_id tb + 1\<rparr>)
     else None)"

primrec insert_consumptions :: "string \<Rightarrow> i64 \<Rightarrow> i64 \<Rightarrow> i64 \<Rightarrow> PocConsumptionRow list \<Rightarrow> PocTables \<Rightarrow> PocTables option" where
  "insert_consumptions m ctx consumed_at base [] tb = Some tb"
| "insert_consumptions m ctx consumed_at base (r # rs) tb =
    Option.bind (insert_consumption_row m ctx consumed_at base r tb) (insert_consumptions m ctx consumed_at (wrap_i64 (base + 1)) rs)"

definition insert_test_rows :: "nat \<Rightarrow> DrainedApply list \<Rightarrow> i64 \<Rightarrow> PocTables \<Rightarrow> PocTables" where
  "insert_test_rows shard_idx drained ctx tb =
    tb\<lparr>tb_test_rows := tb_test_rows tb @ map (\<lambda>d.
      \<lparr>te_shard_idx = shard_idx, te_slot_idx = da_slot_idx d, te_request_seq = da_request_seq d, te_committer_tx_id = ctx,
       te_user_tx_xid = da_user_tx_xid d, te_pool_hash = da_pool_hash d, te_method_tag = da_method_tag d,
       te_event_sku_id = da_event_sku_id d, te_event_location_id = da_event_location_id d, te_event_qty = da_event_qty d,
       te_qty_fake = da_event_qty d\<rparr>) drained\<rparr>"

section \<open>Snapshots\<close>

definition layer_consumed :: "PocTables \<Rightarrow> i64 \<Rightarrow> i64" where
  "layer_consumed tb l = (\<Sum>d\<leftarrow>filter (\<lambda>d. de_layer_id d = l) (tb_depletions tb). de_qty d)"

definition effective_qty :: "PocTables \<Rightarrow> PocLayer \<Rightarrow> i64" where
  "effective_qty tb l = la_qty l - layer_consumed tb (la_layer_id l)"

definition open_layers :: "PocTables \<Rightarrow> PocPoolKey \<Rightarrow> PocLayer list" where
  "open_layers tb pool =
    sort_key (\<lambda>l. (la_born_at l, la_born_seq l))
      (filter (\<lambda>l. la_sku_id l = pk_sku_id pool \<and> la_location_id l = pk_location_id pool \<and> effective_qty tb l > 0) (tb_layers tb))"

definition build_snapshot_fifo :: "PocTables \<Rightarrow> PocPoolKey \<Rightarrow> PocSnapshot" where
  "build_snapshot_fifo tb pool =
    \<lparr>ps_pool = pool,
     ps_layers = map (\<lambda>l. \<lparr>lv_layer_id = la_layer_id l, lv_unit_cost = la_unit_cost l, lv_effective_qty = effective_qty tb l,
       lv_born_at_micros = la_born_at l, lv_born_seq = la_born_seq l\<rparr>) (open_layers tb pool),
     ps_avg_unit_cost = None, ps_standard_cost = None,
     ps_total_available_qty = fold (\<lambda>l q. clamp_i64 (q + effective_qty tb l)) (open_layers tb pool) 0\<rparr>"

definition build_snapshot_avg :: "PocTables \<Rightarrow> PocPoolKey \<Rightarrow> PocSnapshot" where
  "build_snapshot_avg tb pool =
    (let (q, v) = (case tb_avg tb pool of None \<Rightarrow> (0, 0) | Some row \<Rightarrow> row) in
     \<lparr>ps_pool = pool, ps_layers = [], ps_avg_unit_cost = (if q > 0 then Some (v sdiv q) else None),
      ps_standard_cost = None, ps_total_available_qty = q\<rparr>)"

definition build_snapshot_std :: "PocTables \<Rightarrow> PocPoolKey \<Rightarrow> PocSnapshot" where
  "build_snapshot_std tb pool =
    \<lparr>ps_pool = pool, ps_layers = [], ps_avg_unit_cost = None, ps_standard_cost = tb_standard_costs tb (pk_sku_id pool),
     ps_total_available_qty = 0\<rparr>"

definition default_snapshot :: "PocPoolKey \<Rightarrow> PocSnapshot" where
  "default_snapshot pool =
    \<lparr>ps_pool = pool, ps_layers = [], ps_avg_unit_cost = None, ps_standard_cost = None, ps_total_available_qty = 0\<rparr>"

section \<open>Aggregate, locks and receipts\<close>

definition decrement_avg_aggregate :: "PocPoolKey \<Rightarrow> PocConsumptionRow list \<Rightarrow> PocTables \<Rightarrow> PocTables option" where
  "decrement_avg_aggregate pool rows tb =
    (if rows = [] then Some tb
     else
       let (sum_qty, sum_value) = fold (\<lambda>r (q, v). (clamp_i64 (q + cr_qty r), clamp_i128 (v + cr_qty r * cr_applied_unit_cost r))) rows (0, 0);
           dec_value = clamp_i64 sum_value
       in case tb_avg tb pool of
            None \<Rightarrow> Some tb
          | Some (q, v) \<Rightarrow>
              if 0 \<le> q - sum_qty \<and> is_i64 (q - sum_qty) \<and> 0 \<le> v - dec_value \<and> is_i64 (v - dec_value)
              then Some (tb\<lparr>tb_avg := (tb_avg tb)(pool \<mapsto> (q - sum_qty, v - dec_value))\<rparr>)
              else None)"

definition acquire_pool_lock :: "string \<Rightarrow> PocPoolKey \<Rightarrow> PocTables \<Rightarrow> PocTables option" where
  "acquire_pool_lock mode pool tb =
    (if mode = ''none'' then Some tb
     else if mode = ''pool_locks'' then
       (case tb_pool_locks tb pool of
          None \<Rightarrow> Some (tb\<lparr>tb_pool_locks := (tb_pool_locks tb)(pool \<mapsto> 0)\<rparr>)
        | Some n \<Rightarrow> if is_i64 (n + 1) then Some (tb\<lparr>tb_pool_locks := (tb_pool_locks tb)(pool \<mapsto> n + 1)\<rparr>) else None)
     else if mode = ''pool_lock_anchors'' then Some (tb\<lparr>tb_pool_lock_anchors := (tb_pool_lock_anchors tb)(pool := True)\<rparr>)
     else Some tb)"

definition poc_ledger_receive :: "i64 \<Rightarrow> i64 \<Rightarrow> i64 \<Rightarrow> i64 \<Rightarrow> i64 \<Rightarrow> string \<Rightarrow> PocTables \<Rightarrow> (i64 \<times> PocTables) option" where
  "poc_ledger_receive now sku_id location_id qty unit_cost source_kind tb =
    (if qty \<le> 0 then None
     else
       let layer_id = tb_next_layer_id tb in
       Some (layer_id, tb\<lparr>tb_layers := tb_layers tb @
         [\<lparr>la_layer_id = layer_id, la_sku_id = sku_id, la_location_id = location_id, la_qty = qty, la_unit_cost = unit_cost,
           la_born_at = now, la_born_seq = tb_next_born_seq tb, la_source_kind = source_kind\<rparr>],
         tb_next_layer_id := layer_id + 1, tb_next_born_seq := tb_next_born_seq tb + 1\<rparr>))"

definition poc_ledger_receive_avg :: "i64 \<Rightarrow> i64 \<Rightarrow> i64 \<Rightarrow> i64 \<Rightarrow> PocTables \<Rightarrow> PocTables option" where
  "poc_ledger_receive_avg sku_id location_id qty unit_cost tb =
    (if qty \<le> 0 then None
     else if unit_cost < 0 then None
     else
       let pool = \<lparr>pk_sku_id = sku_id, pk_location_id = location_id\<rparr>;
           v_i64 = clamp_i64 (clamp_i128 (qty * unit_cost));
           (q, v) = (case tb_avg tb pool of None \<Rightarrow> (0, 0) | Some row \<Rightarrow> row)
       in if is_i64 (q + qty) \<and> is_i64 (v + v_i64) \<and> 0 \<le> q + qty \<and> 0 \<le> v + v_i64
          then Some (tb\<lparr>tb_avg := (tb_avg tb)(pool \<mapsto> (q + qty, v + v_i64))\<rparr>) else None)"

definition poc_ledger_set_standard_cost :: "i64 \<Rightarrow> i64 \<Rightarrow> PocTables \<Rightarrow> PocTables option" where
  "poc_ledger_set_standard_cost sku_id unit_cost tb =
    (if unit_cost \<le> 0 then None else Some (tb\<lparr>tb_standard_costs := (tb_standard_costs tb)(sku_id \<mapsto> unit_cost)\<rparr>))"

section \<open>Compensation\<close>

text \<open>\<open>INSERT ... SELECT ... ON CONFLICT (reverses_id) DO NOTHING\<close>: the rows of an aborted transaction that have no reversal yet.\<close>

definition compensate_consumptions :: "i64 \<Rightarrow> i64 \<Rightarrow> PocTables \<Rightarrow> PocTables" where
  "compensate_consumptions xid ctx tb =
    tb\<lparr>tb_comp_consumptions := tb_comp_consumptions tb @ map (\<lambda>c.
        \<lparr>kc_reverses_consumption_id = co_consumption_id c, kc_sku_id = co_sku_id c, kc_location_id = co_location_id c, kc_qty = co_qty c,
         kc_applied_unit_cost = co_applied_unit_cost c, kc_user_tx_xid = co_user_tx_xid c, kc_committer_tx_id = ctx\<rparr>)
      (filter (\<lambda>c. co_user_tx_xid c = xid \<and> co_consumption_id c \<notin> kc_reverses_consumption_id ` set (tb_comp_consumptions tb)) (tb_consumptions tb))\<rparr>"

definition compensate_depletions :: "i64 \<Rightarrow> i64 \<Rightarrow> PocTables \<Rightarrow> PocTables" where
  "compensate_depletions xid ctx tb =
    tb\<lparr>tb_comp_depletions := tb_comp_depletions tb @ map (\<lambda>d.
        \<lparr>kd_reverses_depletion_id = de_depletion_id d, kd_layer_id = de_layer_id d, kd_qty = de_qty d, kd_unit_cost = de_unit_cost d,
         kd_user_tx_xid = de_user_tx_xid d, kd_committer_tx_id = ctx\<rparr>)
      (filter (\<lambda>d. de_user_tx_xid d = xid \<and> de_depletion_id d \<notin> kd_reverses_depletion_id ` set (tb_comp_depletions tb)) (tb_depletions tb))\<rparr>"

definition compensate_xid :: "i64 \<Rightarrow> i64 \<Rightarrow> PocTables \<Rightarrow> PocTables" where
  "compensate_xid xid ctx tb = compensate_depletions xid ctx (compensate_consumptions xid ctx tb)"
section \<open>What the inserts add\<close>

definition de_key :: "PocDepletion \<Rightarrow> i64 \<times> i64 \<times> i64 \<times> i64 \<times> i64" where
  "de_key d = (de_layer_id d, de_qty d, de_unit_cost d, de_issue_id d, de_user_tx_xid d)"

definition dr_key :: "PocDepletionRow \<Rightarrow> i64 \<times> i64 \<times> i64 \<times> i64 \<times> i64" where
  "dr_key r = (dr_layer_id r, dr_qty r, dr_unit_cost r, dr_issue_id r, dr_user_tx_xid r)"

definition co_key :: "PocConsumption \<Rightarrow> i64 \<times> i64 \<times> i64 \<times> i64" where
  "co_key c = (co_qty c, co_applied_unit_cost c, co_issue_id c, co_user_tx_xid c)"

definition cr_key :: "PocConsumptionRow \<Rightarrow> i64 \<times> i64 \<times> i64 \<times> i64" where
  "cr_key r = (cr_qty r, cr_applied_unit_cost r, cr_issue_id r, cr_user_tx_xid r)"

text \<open>The tables that pricing reads and the two it writes.\<close>

definition same_pools :: "PocTables \<Rightarrow> PocTables \<Rightarrow> bool" where
  "same_pools tb tb' \<longleftrightarrow> tb_layers tb' = tb_layers tb \<and> tb_standard_costs tb' = tb_standard_costs tb \<and>
    tb_comp_consumptions tb' = tb_comp_consumptions tb \<and> tb_comp_depletions tb' = tb_comp_depletions tb"

lemma same_pools_refl [simp]: "same_pools tb tb"
  by (simp add: same_pools_def)

lemma same_pools_trans: "same_pools a b \<Longrightarrow> same_pools b c \<Longrightarrow> same_pools a c"
  by (simp add: same_pools_def)

lemma insert_depletions_adds:
  assumes "insert_depletions m ctx at base rs tb = Some tb'"
  shows "\<exists>news. tb_depletions tb' = tb_depletions tb @ news \<and> map de_key news = map dr_key rs \<and>
    (\<forall>d\<in>set news. de_method_used d = m \<and> 0 < de_qty d \<and> de_layer_id d \<in> la_layer_id ` set (tb_layers tb)) \<and>
    same_pools tb tb' \<and> tb_avg tb' = tb_avg tb \<and> tb_consumptions tb' = tb_consumptions tb"
  using assms
proof (induction rs arbitrary: base tb)
  case Nil
  then show ?case by simp
next
  case (Cons r rs)
  obtain tb1 where 1: "insert_depletion_row m ctx at base r tb = Some tb1" "insert_depletions m ctx at (wrap_i64 (base + 1)) rs tb1 = Some tb'"
    using Cons.prems by (auto simp: bind_eq_Some_conv)
  have layer: "dr_layer_id r \<in> la_layer_id ` set (tb_layers tb)"
    using 1(1) by (auto simp: insert_depletion_row_def split: if_splits) (metis imageI)
  obtain d where d: "tb_depletions tb1 = tb_depletions tb @ [d]" "de_key d = dr_key r" "de_method_used d = m" "0 < de_qty d"
    "de_layer_id d \<in> la_layer_id ` set (tb_layers tb)" "same_pools tb tb1" "tb_avg tb1 = tb_avg tb" "tb_consumptions tb1 = tb_consumptions tb"
    using 1(1) layer by (auto simp: insert_depletion_row_def de_key_def dr_key_def same_pools_def split: if_splits intro: layer)
  obtain news where "tb_depletions tb' = tb_depletions tb1 @ news" "map de_key news = map dr_key rs"
    "\<forall>d\<in>set news. de_method_used d = m \<and> 0 < de_qty d \<and> de_layer_id d \<in> la_layer_id ` set (tb_layers tb1)"
    "same_pools tb1 tb'" "tb_avg tb' = tb_avg tb1" "tb_consumptions tb' = tb_consumptions tb1"
    using Cons.IH[OF 1(2)] by blast
  then show ?case using d same_pools_trans by (intro exI[of _ "d # news"]) (auto simp: same_pools_def)
qed

lemma insert_consumptions_adds:
  assumes "insert_consumptions m ctx at base rs tb = Some tb'"
  shows "\<exists>news. tb_consumptions tb' = tb_consumptions tb @ news \<and> map co_key news = map cr_key rs \<and>
    (\<forall>c\<in>set news. co_method_used c = m) \<and> same_pools tb tb' \<and> tb_avg tb' = tb_avg tb \<and> tb_depletions tb' = tb_depletions tb"
  using assms
proof (induction rs arbitrary: base tb)
  case Nil
  then show ?case by simp
next
  case (Cons r rs)
  obtain tb1 where 1: "insert_consumption_row m ctx at base r tb = Some tb1" "insert_consumptions m ctx at (wrap_i64 (base + 1)) rs tb1 = Some tb'"
    using Cons.prems by (auto simp: bind_eq_Some_conv)
  obtain c where c: "tb_consumptions tb1 = tb_consumptions tb @ [c]" "co_key c = cr_key r" "co_method_used c = m"
    "same_pools tb tb1" "tb_avg tb1 = tb_avg tb" "tb_depletions tb1 = tb_depletions tb"
    using 1(1) by (auto simp: insert_consumption_row_def co_key_def cr_key_def same_pools_def split: if_splits)
  obtain news where "tb_consumptions tb' = tb_consumptions tb1 @ news" "map co_key news = map cr_key rs"
    "\<forall>c\<in>set news. co_method_used c = m" "same_pools tb1 tb'" "tb_avg tb' = tb_avg tb1" "tb_depletions tb' = tb_depletions tb1"
    using Cons.IH[OF 1(2)] by blast
  then show ?case using c by (intro exI[of _ "c # news"]) (auto simp: same_pools_def)
qed

lemma de_rows_key: "map de_key ds = map dr_key rs \<Longrightarrow>
    map de_row (filter (\<lambda>d. de_issue_id d = x) ds) = map dep_row (filter (\<lambda>r. dr_issue_id r = x) rs)"
proof (induction ds arbitrary: rs)
  case (Cons d ds)
  then obtain r rs' where "rs = r # rs'" "de_key d = dr_key r" "map de_key ds = map dr_key rs'" by (cases rs) auto
  moreover from this have "de_row d = dep_row r" "de_issue_id d = dr_issue_id r"
    by (auto simp: de_key_def dr_key_def de_row_def dep_row_def)
  ultimately show ?case using Cons.IH[of rs'] by simp
qed simp

lemma co_rows_key: "map co_key cs = map cr_key rs \<Longrightarrow>
    map co_row (filter (\<lambda>c. co_issue_id c = x) cs) = map con_row (filter (\<lambda>r. cr_issue_id r = x) rs)"
proof (induction cs arbitrary: rs)
  case (Cons c cs)
  then obtain r rs' where "rs = r # rs'" "co_key c = cr_key r" "map co_key cs = map cr_key rs'" by (cases rs) auto
  moreover from this have "co_row c = con_row r" "co_issue_id c = cr_issue_id r"
    by (auto simp: co_key_def cr_key_def co_row_def con_row_def)
  ultimately show ?case using Cons.IH[of rs'] by simp
qed simp

lemma decrement_frame:
  "decrement_avg_aggregate pool rows tb = Some tb' \<Longrightarrow>
    same_pools tb tb' \<and> tb_depletions tb' = tb_depletions tb \<and> tb_consumptions tb' = tb_consumptions tb"
  by (auto simp: decrement_avg_aggregate_def same_pools_def Let_def split: if_splits option.splits prod.splits)

lemma lock_frame:
  "acquire_pool_lock mode pool tb = Some tb' \<Longrightarrow>
    same_pools tb tb' \<and> tb_avg tb' = tb_avg tb \<and> tb_depletions tb' = tb_depletions tb \<and> tb_consumptions tb' = tb_consumptions tb"
  by (auto simp: acquire_pool_lock_def same_pools_def split: if_splits option.splits)

lemma issue_rows_same:
  "tb_depletions tb' = tb_depletions tb \<Longrightarrow> tb_consumptions tb' = tb_consumptions tb \<Longrightarrow> issue_rows tb' m x = issue_rows tb m x"
  by (simp add: issue_rows_def)

end
