(* ===== verification/QueueStats.thy ===== *)
theory QueueStats
  imports Queue
begin

text \<open>
  The telemetry counters in shared memory, src/poc/queue-extension/src/queue.rs: per-method dispatch counts and
  latency histograms, recovery counters with the per-shard window of batch sizes, and the bottleneck
  sums. Every counter is a word that wraps; a histogram is read bucket by bucket, not atomically.
\<close>

definition POC_METHOD_COUNT :: nat where "POC_METHOD_COUNT = 4"

definition POC_LATENCY_BUCKETS :: nat where "POC_LATENCY_BUCKETS = 30"

definition POC_B5_BUCKETS :: nat where "POC_B5_BUCKETS = 30"

definition POC_BATCH_SAMPLE_WINDOW :: nat where "POC_BATCH_SAMPLE_WINDOW = 16"

lemmas stat_sizes = POC_METHOD_COUNT_def POC_LATENCY_BUCKETS_def POC_B5_BUCKETS_def POC_BATCH_SAMPLE_WINDOW_def

section \<open>Histograms\<close>

fun bit_length :: "nat \<Rightarrow> nat" where
  "bit_length n = (if n = 0 then 0 else Suc (bit_length (n div 2)))"

declare bit_length.simps [simp del]

definition leading_zeros :: "u64 \<Rightarrow> nat" where
  "leading_zeros w = 64 - bit_length (unat w)"

definition latency_bucket :: "u64 \<Rightarrow> nat" where
  "latency_bucket elapsed_ns =
    (if elapsed_ns < 2 then 0
     else
       let bits = 63 - leading_zeros elapsed_ns
       in if bits \<ge> POC_LATENCY_BUCKETS then POC_LATENCY_BUCKETS - 1 else bits)"

definition saturating_add :: "u64 \<Rightarrow> u64 \<Rightarrow> u64" where
  "saturating_add a b = (if unat a + unat b < 2 ^ 64 then a + b else - 1)"

text \<open>The scan for one target rank: the first bucket where the cumulated count reaches it, or 0.\<close>

primrec rank_scan :: "u64 \<Rightarrow> u64 list \<Rightarrow> nat \<Rightarrow> u64 \<Rightarrow> nat option \<Rightarrow> nat option" where
  "rank_scan target [] i cum found = found"
| "rank_scan target (v # vs) i cum found =
    (let cum' = saturating_add cum v in
     rank_scan target vs (Suc i) cum' (if found = None \<and> cum' \<ge> target then Some i else found))"

definition rank_bucket :: "u64 \<Rightarrow> u64 list \<Rightarrow> nat" where
  "rank_bucket target buckets = (case rank_scan target buckets 0 0 None of None \<Rightarrow> 0 | Some b \<Rightarrow> b)"

definition bucket_bound :: "nat \<Rightarrow> u64" where
  "bucket_bound b = (if b + 1 \<ge> 63 then - 1 else 2 ^ (b + 1))"

text \<open>\<open>total.div_ceil(2)\<close> and \<open>((total as u128 * 99 + 99) / 100) as u64\<close>.\<close>

definition target_p50 :: "u64 \<Rightarrow> u64" where
  "target_p50 n = of_nat ((unat n + 1) div 2)"

definition target_p99 :: "u64 \<Rightarrow> u64" where
  "target_p99 n = of_nat ((unat n * 99 + 99) div 100)"

definition percentiles :: "u64 list \<Rightarrow> u64 \<times> u64" where
  "percentiles buckets =
    (let n = sum_list buckets in
     if n = 0 then (0, 0)
     else (bucket_bound (rank_bucket (target_p50 n) buckets), bucket_bound (rank_bucket (target_p99 n) buckets)))"

section \<open>Method statistics\<close>

definition upd_method :: "nat \<Rightarrow> (PocMethodStats \<Rightarrow> PocMethodStats) \<Rightarrow> 'z shmem_scheme \<Rightarrow> 'z shmem_scheme" where
  "upd_method k f s = s\<lparr>ar_methods := (ar_methods s)[k := f (ar_methods s ! k)]\<rparr>"

definition record_dispatch :: "u8 \<Rightarrow> u64 \<Rightarrow> u64 \<Rightarrow> u64 \<Rightarrow> ('z shmem_scheme, unit) prog" where
  "record_dispatch method_tag elapsed_ns dispatch_n error_n =
    (let k = unat method_tag in
     if k \<ge> POC_METHOD_COUNT then Return ()
     else
       pbind (if dispatch_n > 0 then store (upd_method k (\<lambda>m. m\<lparr>ms_dispatch_count := ms_dispatch_count m + dispatch_n\<rparr>)) else Return ()) (\<lambda>_.
       pbind (if error_n > 0 then store (upd_method k (\<lambda>m. m\<lparr>ms_error_count := ms_error_count m + error_n\<rparr>)) else Return ()) (\<lambda>_.
       let b = latency_bucket elapsed_ns in
       store (upd_method k (\<lambda>m. m\<lparr>ms_latency_buckets := (ms_latency_buckets m)[b := ms_latency_buckets m ! b + 1]\<rparr>)))))"

text \<open>A histogram, loaded one bucket at a time.\<close>

primrec load_list :: "('s \<Rightarrow> 'v list) \<Rightarrow> nat list \<Rightarrow> ('s, 'v list) prog" where
  "load_list get [] = Return []"
| "load_list get (k # ks) = pbind (load (\<lambda>s. get s ! k)) (\<lambda>v. pbind (load_list get ks) (\<lambda>vs. Return (v # vs)))"

definition read_method_stats :: "u8 \<Rightarrow> ('z shmem_scheme, u64 \<times> u64 \<times> u64 \<times> u64) prog" where
  "read_method_stats method_tag =
    (let k = unat method_tag in
     if k \<ge> POC_METHOD_COUNT then Return (0, 0, 0, 0)
     else
       pbind (load (\<lambda>s. ms_dispatch_count (ar_methods s ! k))) (\<lambda>dispatch.
       pbind (load (\<lambda>s. ms_error_count (ar_methods s ! k))) (\<lambda>errors.
       pbind (load_list (\<lambda>s. ms_latency_buckets (ar_methods s ! k)) [0..<POC_LATENCY_BUCKETS]) (\<lambda>buckets.
       let (p50, p99) = percentiles buckets in Return (dispatch, errors, p50, p99)))))"

definition method_stats_reset :: "('z shmem_scheme, unit) prog" where
  "method_stats_reset =
    pfold (\<lambda>k _.
      pbind (store (upd_method k (\<lambda>m. m\<lparr>ms_dispatch_count := 0\<rparr>))) (\<lambda>_.
      pbind (store (upd_method k (\<lambda>m. m\<lparr>ms_error_count := 0\<rparr>))) (\<lambda>_.
      stores (map (\<lambda>b. upd_method k (\<lambda>m. m\<lparr>ms_latency_buckets := (ms_latency_buckets m)[b := 0]\<rparr>)) [0..<POC_LATENCY_BUCKETS]))))
      [0..<POC_METHOD_COUNT] ()"

definition bump_shard_error :: "nat \<Rightarrow> u64 \<Rightarrow> ('z shmem_scheme, unit) prog" where
  "bump_shard_error i n =
    (if n = 0 then Return ()
     else guarded (i < POC_SHARD_COUNT) (store (upd_shard i (\<lambda>h. h\<lparr>sh_error_count := sh_error_count h + n\<rparr>))))"

definition read_shard_error_count :: "nat \<Rightarrow> ('z shmem_scheme, u64) prog" where
  "read_shard_error_count i = guarded (i < POC_SHARD_COUNT) (load (\<lambda>s. sh_error_count (shard_at i s)))"

section \<open>Recovery statistics\<close>

definition upd_recovery :: "(PocRecoveryStats \<Rightarrow> PocRecoveryStats) \<Rightarrow> 'z shmem_scheme \<Rightarrow> 'z shmem_scheme" where
  "upd_recovery f s = s\<lparr>ar_recovery := f (ar_recovery s)\<rparr>"

definition bump_backpressure :: "('z shmem_scheme, unit) prog" where
  "bump_backpressure = store (upd_recovery (\<lambda>r. r\<lparr>rs_backpressure_count := rs_backpressure_count r + 1\<rparr>))"

definition bump_committer_tx_failure :: "('z shmem_scheme, unit) prog" where
  "bump_committer_tx_failure = store (upd_recovery (\<lambda>r. r\<lparr>rs_committer_tx_failures := rs_committer_tx_failures r + 1\<rparr>))"

definition bump_orphan_compensation :: "('z shmem_scheme, unit) prog" where
  "bump_orphan_compensation = store (upd_recovery (\<lambda>r. r\<lparr>rs_orphan_compensations := rs_orphan_compensations r + 1\<rparr>))"

definition read_backpressure_count :: "('z shmem_scheme, u64) prog" where
  "read_backpressure_count = load (\<lambda>s. rs_backpressure_count (ar_recovery s))"

definition read_committer_tx_failures :: "('z shmem_scheme, u64) prog" where
  "read_committer_tx_failures = load (\<lambda>s. rs_committer_tx_failures (ar_recovery s))"

definition read_orphan_compensations :: "('z shmem_scheme, u64) prog" where
  "read_orphan_compensations = load (\<lambda>s. rs_orphan_compensations (ar_recovery s))"

definition read_lease_takeovers :: "('z shmem_scheme, u64) prog" where
  "read_lease_takeovers = load (\<lambda>s. rs_lease_takeovers (ar_recovery s))"

definition batch_ring :: "nat \<Rightarrow> 'z shmem_scheme \<Rightarrow> PocPerShardBatchRing" where
  "batch_ring i s = rs_batch_rings (ar_recovery s) ! i"

definition upd_batch_ring :: "nat \<Rightarrow> (PocPerShardBatchRing \<Rightarrow> PocPerShardBatchRing) \<Rightarrow> 'z shmem_scheme \<Rightarrow> 'z shmem_scheme" where
  "upd_batch_ring i f s = upd_recovery (\<lambda>r. r\<lparr>rs_batch_rings := (rs_batch_rings r)[i := f (rs_batch_rings r ! i)]\<rparr>) s"

definition record_batch_size :: "nat \<Rightarrow> u32 \<Rightarrow> ('z shmem_scheme, unit) prog" where
  "record_batch_size i batch_size =
    (if batch_size = 0 \<or> i \<ge> POC_SHARD_COUNT then Return ()
     else
       pbind (fetch_update (\<lambda>s. br_head (batch_ring i s)) (upd_batch_ring i (\<lambda>b. b\<lparr>br_head := br_head b + 1\<rparr>))) (\<lambda>h.
       let k = unat h mod POC_BATCH_SAMPLE_WINDOW in
       store (upd_batch_ring i (\<lambda>b. b\<lparr>br_samples := (br_samples b)[k := batch_size]\<rparr>))))"

text \<open>The mean of the samples that are not zero; totals are \<open>u64\<close>, at most 16 \<open>u32\<close> values, and do not wrap.\<close>

definition mean_samples :: "u32 list \<Rightarrow> u32" where
  "mean_samples vs =
    (let ws = filter (\<lambda>v. v > 0) vs in
     if ws = [] then 0 else of_nat (sum_list (map unat ws) div length ws))"

definition read_avg_batch_size :: "nat \<Rightarrow> ('z shmem_scheme, u32) prog" where
  "read_avg_batch_size i =
    (if i \<ge> POC_SHARD_COUNT then Return 0
     else pbind (load_list (\<lambda>s. br_samples (batch_ring i s)) [0..<POC_BATCH_SAMPLE_WINDOW]) (\<lambda>vs. Return (mean_samples vs)))"

definition recovery_stats_reset :: "('z shmem_scheme, unit) prog" where
  "recovery_stats_reset =
    pbind (stores (map upd_recovery
      [\<lambda>r. r\<lparr>rs_backpressure_count := 0\<rparr>, \<lambda>r. r\<lparr>rs_committer_tx_failures := 0\<rparr>,
       \<lambda>r. r\<lparr>rs_orphan_compensations := 0\<rparr>, \<lambda>r. r\<lparr>rs_lease_takeovers := 0\<rparr>])) (\<lambda>_.
    pfold (\<lambda>i _.
      pbind (store (upd_batch_ring i (\<lambda>b. b\<lparr>br_head := 0\<rparr>))) (\<lambda>_.
      stores (map (\<lambda>k. upd_batch_ring i (\<lambda>b. b\<lparr>br_samples := (br_samples b)[k := 0]\<rparr>)) [0..<POC_BATCH_SAMPLE_WINDOW])))
      [0..<POC_SHARD_COUNT] ())"

section \<open>Bottleneck statistics\<close>

definition upd_bottleneck :: "(PocBottleneckStats \<Rightarrow> PocBottleneckStats) \<Rightarrow> 'z shmem_scheme \<Rightarrow> 'z shmem_scheme" where
  "upd_bottleneck f s = s\<lparr>ar_bottleneck := f (ar_bottleneck s)\<rparr>"

definition record_b3_total_ns :: "u64 \<Rightarrow> ('z shmem_scheme, unit) prog" where
  "record_b3_total_ns elapsed_ns = store (upd_bottleneck (\<lambda>b. b\<lparr>bn_plan_apply_total_ns := bn_plan_apply_total_ns b + elapsed_ns\<rparr>))"

definition record_b5_wake_sample :: "u64 \<Rightarrow> ('z shmem_scheme, unit) prog" where
  "record_b5_wake_sample elapsed_ns =
    pbind (store (upd_bottleneck (\<lambda>b. b\<lparr>bn_wake_total_ns := bn_wake_total_ns b + elapsed_ns\<rparr>))) (\<lambda>_.
    pbind (store (upd_bottleneck (\<lambda>b. b\<lparr>bn_wake_sample_count := bn_wake_sample_count b + 1\<rparr>))) (\<lambda>_.
    let k = min (latency_bucket elapsed_ns) (POC_B5_BUCKETS - 1) in
    store (upd_bottleneck (\<lambda>b. b\<lparr>bn_wake_buckets := (bn_wake_buckets b)[k := bn_wake_buckets b ! k + 1]\<rparr>))))"

definition read_b3_total_ns :: "('z shmem_scheme, u64) prog" where
  "read_b3_total_ns = load (\<lambda>s. bn_plan_apply_total_ns (ar_bottleneck s))"

definition read_b5_wake_stats :: "('z shmem_scheme, u64 \<times> u64 \<times> u64 \<times> u64) prog" where
  "read_b5_wake_stats =
    pbind (load (\<lambda>s. bn_wake_total_ns (ar_bottleneck s))) (\<lambda>total_ns.
    pbind (load (\<lambda>s. bn_wake_sample_count (ar_bottleneck s))) (\<lambda>count.
    pbind (load_list (\<lambda>s. bn_wake_buckets (ar_bottleneck s)) [0..<POC_B5_BUCKETS]) (\<lambda>buckets.
    let (p50, p99) = percentiles buckets in Return (total_ns, count, p50, p99))))"

definition bottleneck_stats_reset :: "('z shmem_scheme, unit) prog" where
  "bottleneck_stats_reset =
    pbind (stores (map upd_bottleneck
      [\<lambda>b. b\<lparr>bn_plan_apply_total_ns := 0\<rparr>, \<lambda>b. b\<lparr>bn_wake_total_ns := 0\<rparr>, \<lambda>b. b\<lparr>bn_wake_sample_count := 0\<rparr>])) (\<lambda>_.
    stores (map (\<lambda>k. upd_bottleneck (\<lambda>b. b\<lparr>bn_wake_buckets := (bn_wake_buckets b)[k := 0]\<rparr>)) [0..<POC_B5_BUCKETS]))"
section \<open>Buckets and ranks\<close>

lemma bit_length_bounds: "n \<noteq> 0 \<Longrightarrow> 2 ^ (bit_length n - 1) \<le> n \<and> n < 2 ^ bit_length n \<and> 0 < bit_length n"
proof (induction n rule: bit_length.induct)
  case (1 n)
  show ?case
  proof (cases "n div 2 = 0")
    case True
    then have "n = 1" using "1.prems" by (auto simp: div_eq_0_iff)
    then show ?thesis by (simp add: bit_length.simps)
  next
    case False
    have IH: "2 ^ (bit_length (n div 2) - 1) \<le> n div 2 \<and> n div 2 < 2 ^ bit_length (n div 2) \<and> 0 < bit_length (n div 2)"
      using "1.IH" "1.prems" False by simp
    have len: "bit_length n = Suc (bit_length (n div 2))" using "1.prems" by (simp add: bit_length.simps)
    obtain m where m: "bit_length (n div 2) = Suc m" using IH by (cases "bit_length (n div 2)") auto
    have 1: "2 ^ Suc m \<le> n" using IH m by (simp add: less_eq_div_iff_mult_less_eq mult.commute)
    have 2: "n < 2 ^ Suc (Suc m)" using IH m by auto
    show ?thesis using 1 2 len m by simp
  qed
qed

lemma latency_bucket_bounds:
  assumes "2 \<le> ns"
  shows "2 ^ latency_bucket ns \<le> unat ns" "latency_bucket ns < POC_LATENCY_BUCKETS - 1 \<Longrightarrow> unat ns < 2 ^ Suc (latency_bucket ns)"
proof -
  let ?n = "unat ns"
  have n: "?n \<noteq> 0" "\<not> ns < 2" using assms by (auto simp: word_le_nat_alt linorder_not_less)
  have b: "2 ^ (bit_length ?n - 1) \<le> ?n" "?n < 2 ^ bit_length ?n" "0 < bit_length ?n" using bit_length_bounds[OF n(1)] by auto
  have "?n < 2 ^ 64" using unsigned_less[of ns] by simp
  then have "(2 :: nat) ^ (bit_length ?n - 1) < 2 ^ 64" using b(1) by linarith
  then have "bit_length ?n - 1 < 64" by (rule power_less_imp_less_exp[rotated]) simp
  then have len: "bit_length ?n \<le> 64" by linarith
  have bits: "63 - leading_zeros ns = bit_length ?n - 1" using len b(3) by (simp add: leading_zeros_def)
  show "2 ^ latency_bucket ns \<le> ?n"
  proof (cases "bit_length ?n - 1 \<ge> POC_LATENCY_BUCKETS")
    case True
    have "(2 :: nat) ^ (POC_LATENCY_BUCKETS - 1) \<le> 2 ^ (bit_length ?n - 1)" using True by (intro power_increasing) auto
    then have "2 ^ (POC_LATENCY_BUCKETS - 1) \<le> ?n" using b(1) by (rule order_trans)
    then show ?thesis using True n(2) by (simp add: latency_bucket_def bits Let_def)
  next
    case False
    then show ?thesis using b(1) n(2) by (simp add: latency_bucket_def bits Let_def)
  qed
  have "?n < 2 ^ Suc (bit_length ?n - 1)" using b(2,3) by simp
  then show "?n < 2 ^ Suc (latency_bucket ns)" if "latency_bucket ns < POC_LATENCY_BUCKETS - 1"
    using that n(2) by (auto simp: latency_bucket_def bits Let_def split: if_splits)
qed

lemma rank_scan_found [simp]: "rank_scan t vs i c (Some b) = Some b"
  by (induction vs arbitrary: i c) (auto simp: Let_def)

abbreviation tally :: "u64 list \<Rightarrow> nat" where
  "tally vs \<equiv> sum_list (map unat vs)"

lemma rank_scan_least:
  assumes "unat c + tally vs < 2 ^ 64" "c < t" "unat t \<le> unat c + tally vs"
  shows "\<exists>k < length vs. rank_scan t vs i c None = Some (i + k) \<and>
    unat c + tally (take k vs) < unat t \<and> unat t \<le> unat c + tally (take (Suc k) vs)"
  using assms
proof (induction vs arbitrary: i c)
  case Nil
  then show ?case by (simp add: word_less_nat_alt)
next
  case (Cons v vs)
  have sum: "unat (c + v) = unat c + unat v" using Cons.prems(1) by (intro unat_add_lem[THEN iffD1]) simp
  have add: "saturating_add c v = c + v" using Cons.prems(1) by (simp add: saturating_add_def)
  show ?case
  proof (cases "t \<le> c + v")
    case True
    then show ?thesis using Cons.prems(2) sum add by (intro exI[of _ 0]) (simp add: Let_def word_le_nat_alt word_less_nat_alt)
  next
    case False
    have "unat (c + v) + tally vs < 2 ^ 64" "c + v < t" "unat t \<le> unat (c + v) + tally vs"
      using Cons.prems False sum by auto
    from Cons.IH[OF this, of "Suc i"] obtain k where "k < length vs" "rank_scan t vs (Suc i) (c + v) None = Some (Suc i + k)"
      "unat (c + v) + tally (take k vs) < unat t" "unat t \<le> unat (c + v) + tally (take (Suc k) vs)" by blast
    then show ?thesis using False sum add by (intro exI[of _ "Suc k"]) (simp add: Let_def)
  qed
qed

lemma unat_sum_list: "tally vs < 2 ^ 64 \<Longrightarrow> unat (sum_list vs) = tally vs"
proof (induction vs)
  case (Cons v vs)
  then have "unat (v + sum_list vs) = unat v + unat (sum_list vs)" by (intro unat_add_lem[THEN iffD1]) simp
  then show ?case using Cons by simp
qed simp

text \<open>
  The percentiles of a histogram that does not overflow: each reported value is the upper bound of the first bucket
  at which the samples so far reach the rank, half of all samples for the first and 99 in a hundred for the
  second, and the second is not below the first.
\<close>

lemma percentiles_rank:
  assumes "tally buckets < 2 ^ 64" "0 < tally buckets" "length buckets \<le> 62"
  shows "\<exists>a b. a \<le> b \<and> b < length buckets \<and> percentiles buckets = (2 ^ Suc a, 2 ^ Suc b) \<and>
    2 * tally (take a buckets) < tally buckets \<and> tally buckets \<le> 2 * tally (take (Suc a) buckets) \<and>
    100 * tally (take b buckets) < 99 * tally buckets \<and> 99 * tally buckets \<le> 100 * tally (take (Suc b) buckets)"
proof -
  let ?n = "tally buckets" and ?s = "sum_list buckets"
  have n: "unat ?s = ?n" using unat_sum_list[OF assms(1)] .
  have p50: "unat (target_p50 ?s) = (?n + 1) div 2" using assms(1,2) by (simp add: target_p50_def n unat_of_nat)
  have p99: "unat (target_p99 ?s) = (?n * 99 + 99) div 100" using assms(1,2) by (simp add: target_p99_def n unat_of_nat)
  have r: "(?n + 1) div 2 \<le> ?n" "(?n * 99 + 99) div 100 \<le> ?n" "0 < (?n * 99 + 99) div 100" using assms(2) by linarith+
  obtain a where a: "a < length buckets" "rank_scan (target_p50 ?s) buckets 0 0 None = Some a"
    "tally (take a buckets) < (?n + 1) div 2" "(?n + 1) div 2 \<le> tally (take (Suc a) buckets)"
    using rank_scan_least[of 0 buckets "target_p50 ?s" 0] assms(1,2) p50 r(1) by (auto simp: word_less_nat_alt)
  obtain b where b: "b < length buckets" "rank_scan (target_p99 ?s) buckets 0 0 None = Some b"
    "tally (take b buckets) < (?n * 99 + 99) div 100" "(?n * 99 + 99) div 100 \<le> tally (take (Suc b) buckets)"
    using rank_scan_least[of 0 buckets "target_p99 ?s" 0] assms(1,2) p99 r(2,3) by (auto simp: word_less_nat_alt)
  have "a \<le> b"
  proof (rule ccontr)
    assume "\<not> a \<le> b"
    then have "take (Suc b) buckets = take (Suc b) (take a buckets)" by simp
    then have "tally (take (Suc b) buckets) \<le> tally (take a buckets)"
      by (metis append_take_drop_id le_add1 map_append sum_list_append)
    then show False using a(3) b(4) assms(2) by linarith
  qed
  moreover have "?s \<noteq> 0" using n assms(2) by (metis less_irrefl unsigned_0)
  then have "percentiles buckets = (2 ^ Suc a, 2 ^ Suc b)"
    using a(1,2) b(1,2) assms(3) by (simp add: percentiles_def rank_bucket_def bucket_bound_def Let_def)
  moreover have "2 * tally (take a buckets) < ?n" "?n \<le> 2 * tally (take (Suc a) buckets)" using a(3,4) by linarith+
  moreover have "100 * tally (take b buckets) < 99 * ?n" "99 * ?n \<le> 100 * tally (take (Suc b) buckets)" using b(3,4) by linarith+
  ultimately show ?thesis using b(1) by blast
qed

end
