(* ===== verification/QueueRing.thy ===== *)
theory QueueRing
  imports Queue
begin

text \<open>
  The ring of pending requests is a bounded first-in first-out queue. The contents of a ring are the
  requests at the positions from \<open>head\<close> to \<open>tail\<close>, read modulo the capacity; head and tail are
  32-bit counters that wrap, and the capacity divides \<open>2 ^ 32\<close>, so a position keeps its slot across
  the wrap. The operations are shown to implement an abstract queue of entries.
\<close>

section \<open>Well-formed memory\<close>

definition wf_shmem :: "'z shmem_scheme \<Rightarrow> bool" where
  "wf_shmem s \<longleftrightarrow>
    length (ar_shards s) = POC_SHARD_COUNT \<and>
    length (ar_requests s) = POC_SHARD_COUNT \<and> (\<forall>rs\<in>set (ar_requests s). length rs = POC_REQUESTS_PER_SHARD) \<and>
    length (ar_slots s) = POC_SHARD_COUNT \<and> (\<forall>ss\<in>set (ar_slots s). length ss = POC_SLOTS_PER_SHARD)"

lemma lengths_update:
  assumes "\<forall>xs\<in>set xss. length xs = n"
  shows "\<forall>xs\<in>set (xss[i := (xss ! i)[k := v]]). length xs = n"
proof (cases "i < length xss")
  case True
  then have "length ((xss ! i)[k := v]) = n" using assms by simp
  then show ?thesis using assms set_update_subset_insert[of xss i "(xss ! i)[k := v]"] by blast
next
  case False
  then show ?thesis using assms by (simp add: list_update_beyond)
qed

lemma wf_shmem_upd [simp]:
  assumes "wf_shmem s"
  shows "wf_shmem (upd_shard i f s)" "wf_shmem (upd_request i k g s)" "wf_shmem (upd_slot i j h s)"
  using assms lengths_update[of "ar_requests s" POC_REQUESTS_PER_SHARD i k "g (request_at i k s)"]
    lengths_update[of "ar_slots s" POC_SLOTS_PER_SHARD i j "h (slot_at i j s)"]
  unfolding wf_shmem_def upd_shard_def upd_request_def upd_slot_def by simp_all

lemma shard_at_upd:
  assumes "wf_shmem s" "i < POC_SHARD_COUNT"
  shows "shard_at i' (upd_shard i f s) = (if i' = i then f (shard_at i s) else shard_at i' s)"
  using assms by (auto simp: wf_shmem_def shard_at_def upd_shard_def)

lemma request_at_upd:
  assumes "wf_shmem s" "i < POC_SHARD_COUNT" "k < POC_REQUESTS_PER_SHARD"
  shows "request_at i' k' (upd_request i k f s) = (if i' = i \<and> k' = k then f (request_at i k s) else request_at i' k' s)"
  using assms by (auto simp: wf_shmem_def request_at_def upd_request_def nth_list_update)

lemma slot_at_upd:
  assumes "wf_shmem s" "i < POC_SHARD_COUNT" "j < POC_SLOTS_PER_SHARD"
  shows "slot_at i' j' (upd_slot i j f s) = (if i' = i \<and> j' = j then f (slot_at i j s) else slot_at i' j' s)"
  using assms by (auto simp: wf_shmem_def slot_at_def upd_slot_def nth_list_update)

lemma at_upd_other [simp]:
  "shard_at i (upd_request i' k f s) = shard_at i s" "shard_at i (upd_slot i' j g s) = shard_at i s"
  "request_at i k (upd_shard i' h s) = request_at i k s" "request_at i k (upd_slot i' j g s) = request_at i k s"
  "slot_at i j (upd_shard i' h s) = slot_at i j s" "slot_at i j (upd_request i' k f s) = slot_at i j s"
  by (simp_all add: shard_at_def request_at_def slot_at_def upd_shard_def upd_request_def upd_slot_def)

lemmas upd_simps = shard_at_upd request_at_upd slot_at_upd

text \<open>Successive stores to one location are one store of their composition.\<close>

lemma fold_upd_request:
  assumes "wf_shmem s" "i < POC_SHARD_COUNT" "k < POC_REQUESTS_PER_SHARD"
  shows "fold (\<lambda>u. u) (map (upd_request i k) us) s = upd_request i k (\<lambda>r. fold (\<lambda>u. u) us r) s"
  using assms
proof (induction us arbitrary: s)
  case Nil
  then show ?case by (simp add: upd_request_def request_at_def)
next
  case (Cons u us)
  have "upd_request i k f (upd_request i k u s) = upd_request i k (f \<circ> u) s" for f
    using Cons.prems by (simp add: upd_request_def request_at_def wf_shmem_def)
  then show ?case using Cons by (simp add: o_def)
qed

section \<open>The contents of a ring\<close>

lemma ring_index:
  "unat (h + of_nat k :: u32) mod POC_REQUESTS_PER_SHARD = (unat h + k) mod POC_REQUESTS_PER_SHARD"
proof -
  have "unat (h + of_nat k) = (unat h + k) mod 4294967296"
    by (simp add: unat_word_ariths unat_of_nat mod_add_right_eq)
  then show ?thesis by (simp add: POC_REQUESTS_PER_SHARD_def mod_mod_cancel)
qed

definition ring_len :: "nat \<Rightarrow> 'z shmem_scheme \<Rightarrow> nat" where
  "ring_len i s = unat (sh_tail (shard_at i s) - sh_head (shard_at i s))"

definition ring_pos :: "nat \<Rightarrow> nat \<Rightarrow> 'z shmem_scheme \<Rightarrow> nat" where
  "ring_pos i k s = (unat (sh_head (shard_at i s)) + k) mod POC_REQUESTS_PER_SHARD"

definition ring :: "nat \<Rightarrow> 'z shmem_scheme \<Rightarrow> PocPendingRequest list" where
  "ring i s = map (\<lambda>k. request_at i (ring_pos i k s) s) [0..<ring_len i s]"

definition ring_ok :: "nat \<Rightarrow> 'z shmem_scheme \<Rightarrow> bool" where
  "ring_ok i s \<longleftrightarrow> wf_shmem s \<and> i < POC_SHARD_COUNT \<and> ring_len i s \<le> POC_REQUESTS_PER_SHARD \<and>
    list_all (\<lambda>r. rq_valid r = REQ_FILLED \<and> length (rq_body r) = 9) (ring i s)"

lemma length_ring [simp]: "length (ring i s) = ring_len i s"
  by (simp add: ring_def)

lemma ring_nth: "k < ring_len i s \<Longrightarrow> ring i s ! k = request_at i (ring_pos i k s) s"
  by (simp add: ring_def)

lemma ring_pos_less [simp]: "ring_pos i k s < POC_REQUESTS_PER_SHARD"
  by (simp add: ring_pos_def POC_REQUESTS_PER_SHARD_def)

lemma mod_add_inj:
  fixes a k k' n :: nat
  assumes "(a + k) mod n = (a + k') mod n" "k < n" "k' < n"
  shows "k = k'"
proof -
  have *: "k = k'" if "k \<le> k'" "(a + k) mod n = (a + k') mod n" "k' < n" for k k' :: nat
  proof -
    have "n dvd (a + k') - (a + k)" using that mod_eq_dvd_iff_nat[of "a + k" "a + k'" n] by simp
    then show ?thesis using that by (auto dest: dvd_imp_le)
  qed
  show ?thesis using *[of k k'] *[of k' k] assms by (cases "k \<le> k'") auto
qed

lemma ring_pos_inj:
  assumes "ring_pos i k s = ring_pos i k' s" "k < POC_REQUESTS_PER_SHARD" "k' < POC_REQUESTS_PER_SHARD"
  shows "k = k'"
  using assms unfolding ring_pos_def by (rule mod_add_inj)

lemma tail_pos:
  "unat (sh_tail (shard_at i s)) mod POC_REQUESTS_PER_SHARD = ring_pos i (ring_len i s) s"
proof -
  have "sh_tail (shard_at i s) = sh_head (shard_at i s) + of_nat (ring_len i s)"
    by (simp add: ring_len_def)
  then show ?thesis by (metis ring_index ring_pos_def)
qed
section \<open>Push\<close>

definition written :: "u64 \<Rightarrow> u64 \<Rightarrow> pid \<Rightarrow> u32 \<Rightarrow> u8 \<Rightarrow> i64 list \<Rightarrow> PocPendingRequest" where
  "written req_seq pool_hash backend_pid slot_idx kind_tag body =
    \<lparr>rq_valid = REQ_FILLED, rq_request_seq = req_seq, rq_pool_hash = pool_hash, rq_backend_pid = backend_pid,
      rq_slot_idx = slot_idx, rq_kind_tag = kind_tag, rq_body = body\<rparr>"

lemma fold_request_stores:
  "(fold (\<lambda>u. u) (request_stores q ph p j kind b) r)\<lparr>rq_valid := REQ_FILLED\<rparr> = written q ph p j kind b"
  by (simp add: request_stores_def written_def)

text \<open>Changes that leave the shard headers and the requests alone.\<close>

definition off_ring :: "('z shmem_scheme \<Rightarrow> 'z shmem_scheme) \<Rightarrow> bool" where
  "off_ring f \<longleftrightarrow> (\<forall>s. wf_shmem s \<longrightarrow> wf_shmem (f s) \<and> (\<forall>i. shard_at i (f s) = shard_at i s) \<and>
    (\<forall>i k. request_at i k (f s) = request_at i k s))"

lemma off_ring_id: "off_ring (\<lambda>s. s)"
  by (simp add: off_ring_def)

lemma off_ring_slot: "off_ring f \<Longrightarrow> off_ring (\<lambda>s. upd_slot i j g (f s))"
  by (simp add: off_ring_def)

definition same_elsewhere :: "nat \<Rightarrow> 'z shmem_scheme \<Rightarrow> 'z shmem_scheme \<Rightarrow> bool" where
  "same_elsewhere i s s' \<longleftrightarrow> (\<forall>i'. i' \<noteq> i \<longrightarrow> shard_at i' s' = shard_at i' s \<and> (\<forall>k. request_at i' k s' = request_at i' k s))"

lemma reserve_full:
  assumes "ring_ok i s" "ring_len i s = POC_REQUESTS_PER_SHARD"
  shows "exec (ring_reserve i w) s = (Some (Inl ()), s)"
proof -
  have "of_nat POC_REQUESTS_PER_SHARD \<le> sh_tail (shard_at i s) - sh_head (shard_at i s)"
    using assms(2) by (simp add: ring_len_def POC_REQUESTS_PER_SHARD_def word_le_nat_alt)
  then show ?thesis using assms(1) by (simp add: ring_reserve_def exec_pbind ring_ok_def)
qed

lemma ring_snoc:
  assumes "ring_len i s < POC_REQUESTS_PER_SHARD" "ring_len i s' = Suc (ring_len i s)"
    "sh_head (shard_at i s') = sh_head (shard_at i s)"
    "\<And>k. request_at i k s' = (if k = ring_pos i (ring_len i s) s then r else request_at i k s)"
  shows "ring i s' = ring i s @ [r]"
proof (rule nth_equalityI)
  show "length (ring i s') = length (ring i s @ [r])" using assms(2) by simp
  fix k assume "k < length (ring i s')"
  then have k: "k < Suc (ring_len i s)" using assms(2) by simp
  have pos: "ring_pos i k s' = ring_pos i k s" using assms(3) by (simp add: ring_pos_def)
  show "ring i s' ! k = (ring i s @ [r]) ! k"
  proof (cases "k = ring_len i s")
    case True
    then show ?thesis using assms(2,4) k pos by (simp add: ring_nth nth_append)
  next
    case False
    then have "ring_pos i k s \<noteq> ring_pos i (ring_len i s) s"
      using ring_pos_inj[of i k s "ring_len i s"] assms(1) k by auto
    then show ?thesis using assms(2,4) k False pos by (simp add: ring_nth nth_append)
  qed
qed

lemma reserve_room:
  assumes ok: "ring_ok i s" and room: "ring_len i s < POC_REQUESTS_PER_SHARD"
    and w: "\<And>idx q t. wf_shmem t \<Longrightarrow> idx < POC_REQUESTS_PER_SHARD \<Longrightarrow>
      exec (w idx q) t = (Some (), f q (upd_request i idx (fold (\<lambda>u. u) (request_stores q ph p j kind b)) t))"
    and f: "\<And>q. off_ring (f q)" and b: "length b = 9"
    and q: "q = sh_next_request_seq (shard_at i s)"
  shows "\<exists>s'. exec (ring_reserve i w) s = (Some (Inr q), s') \<and> ring_ok i s' \<and>
    ring i s' = ring i s @ [written q ph p j kind b] \<and> sh_next_request_seq (shard_at i s') = q + 1 \<and>
    same_elsewhere i s s'"
proof -
  have wf: "wf_shmem s" "i < POC_SHARD_COUNT" using ok by (auto simp: ring_ok_def)
  let ?idx = "ring_pos i (ring_len i s) s"
  let ?tail = "sh_tail (shard_at i s)"
  let ?s1 = "upd_shard i (\<lambda>h. h\<lparr>sh_next_request_seq := sh_next_request_seq h + 1\<rparr>) s"
  let ?s2 = "f q (upd_request i ?idx (fold (\<lambda>u. u) (request_stores q ph p j kind b)) ?s1)"
  let ?s3 = "upd_request i ?idx (\<lambda>r. r\<lparr>rq_valid := REQ_FILLED\<rparr>) ?s2"
  let ?s4 = "upd_shard i (\<lambda>h. h\<lparr>sh_tail := ?tail + 1\<rparr>) ?s3"
  have lt: "\<not> of_nat POC_REQUESTS_PER_SHARD \<le> ?tail - sh_head (shard_at i s)"
    using room by (simp add: ring_len_def POC_REQUESTS_PER_SHARD_def word_le_nat_alt)
  have ex: "exec (ring_reserve i w) s = (Some (Inr q), ?s4)"
    using wf lt w[of ?s1 ?idx] unfolding ring_reserve_def
    by (simp add: exec_pbind tail_pos q Let_def)
  have wf2: "wf_shmem ?s2" and at2: "\<And>i. shard_at i ?s2 = shard_at i ?s1"
    "\<And>i' k. request_at i' k ?s2 = request_at i' k (upd_request i ?idx (fold (\<lambda>u. u) (request_stores q ph p j kind b)) ?s1)"
    using f[of q] wf(1) by (simp_all add: off_ring_def)
  have sh: "shard_at i' ?s4 = (if i' = i then (shard_at i s)\<lparr>sh_next_request_seq := q + 1, sh_tail := ?tail + 1\<rparr>
      else shard_at i' s)" for i'
    using wf wf2 at2(1) by (simp add: upd_simps q)
  have rq: "request_at i' k ?s4 = (if i' = i \<and> k = ?idx then written q ph p j kind b else request_at i' k s)" for i' k
    using wf wf2 at2(2) fold_request_stores by (simp add: upd_simps)
  have "unat (?tail + 1 - sh_head (shard_at i s)) = Suc (ring_len i s)"
  proof -
    have "?tail + 1 - sh_head (shard_at i s) = (?tail - sh_head (shard_at i s)) + 1" by simp
    moreover have "unat (?tail - sh_head (shard_at i s)) + 1 < 2 ^ LENGTH(32)"
      using room by (simp add: ring_len_def POC_REQUESTS_PER_SHARD_def)
    ultimately show ?thesis unfolding ring_len_def by (simp only: unat_word_ariths) simp
  qed
  then have len: "ring_len i ?s4 = Suc (ring_len i s)" using sh by (simp add: ring_len_def)
  have ring: "ring i ?s4 = ring i s @ [written q ph p j kind b]"
    by (rule ring_snoc[OF room len]) (use sh rq in simp_all)
  have "ring_ok i ?s4"
    using ok wf wf2 len room ring b by (simp add: ring_ok_def written_def)
  then show ?thesis using ex ring sh rq by (auto simp: same_elsewhere_def)
qed
section \<open>Drain\<close>

definition mark_in_flight :: "nat \<Rightarrow> u32 \<Rightarrow> nat \<Rightarrow> nat \<Rightarrow> 'z shmem_scheme \<Rightarrow> 'z shmem_scheme" where
  "mark_in_flight i h k l =
    fold (\<lambda>m. upd_request i ((unat h + m) mod POC_REQUESTS_PER_SHARD) (\<lambda>r. r\<lparr>rq_valid := REQ_IN_FLIGHT\<rparr>)) [k..<k + l]"

lemma mark_Suc:
  "mark_in_flight i h k (Suc l) s =
    mark_in_flight i h (Suc k) l (upd_request i ((unat h + k) mod POC_REQUESTS_PER_SHARD) (\<lambda>r. r\<lparr>rq_valid := REQ_IN_FLIGHT\<rparr>) s)"
proof -
  have "[k..<k + Suc l] = k # [Suc k..<Suc k + l]" by (simp add: upt_conv_Cons)
  then show ?thesis by (simp add: mark_in_flight_def)
qed

lemma mark_frame:
  assumes "wf_shmem s" "i < POC_SHARD_COUNT"
  shows "wf_shmem (mark_in_flight i h k l s)" "shard_at i' (mark_in_flight i h k l s) = shard_at i' s"
    "slot_at i' j (mark_in_flight i h k l s) = slot_at i' j s"
    "(\<And>m. k \<le> m \<Longrightarrow> m < k + l \<Longrightarrow> i' \<noteq> i \<or> x \<noteq> (unat h + m) mod POC_REQUESTS_PER_SHARD) \<Longrightarrow>
      request_at i' x (mark_in_flight i h k l s) = request_at i' x s"
  using assms
proof (induction l arbitrary: k s)
  case 0
  { case 1 then show ?case by (simp add: mark_in_flight_def) }
  { case 2 then show ?case by (simp add: mark_in_flight_def) }
  { case 3 then show ?case by (simp add: mark_in_flight_def) }
  { case 4 then show ?case by (simp add: mark_in_flight_def) }
next
  case (Suc l)
  { case 1 then show ?case using Suc by (simp add: mark_Suc) }
  { case 2 then show ?case using Suc by (simp add: mark_Suc) }
  { case 3 then show ?case using Suc by (simp add: mark_Suc) }
  { case 4
    have "(unat h + k) mod POC_REQUESTS_PER_SHARD < POC_REQUESTS_PER_SHARD" by (simp add: POC_REQUESTS_PER_SHARD_def)
    moreover have "i' \<noteq> i \<or> x \<noteq> (unat h + k) mod POC_REQUESTS_PER_SHARD" using 4(1)[of k] by simp
    ultimately have "request_at i' x (upd_request i ((unat h + k) mod POC_REQUESTS_PER_SHARD)
        (\<lambda>r. r\<lparr>rq_valid := REQ_IN_FLIGHT\<rparr>) s) = request_at i' x s"
      using 4(2,3) by (auto simp: request_at_upd)
    moreover have "i' \<noteq> i \<or> x \<noteq> (unat h + m) mod POC_REQUESTS_PER_SHARD" if "Suc k \<le> m" "m < Suc k + l" for m
      using 4(1)[of m] that by simp
    ultimately show ?case using Suc(4)[of "Suc k"] 4(2,3) unfolding mark_Suc by simp }
qed

lemma drain_entries_exec:
  assumes "wf_shmem s" "i < POC_SHARD_COUNT" "k + n \<le> POC_REQUESTS_PER_SHARD"
    "\<And>m. k \<le> m \<Longrightarrow> m < k + n \<Longrightarrow> rq_valid (request_at i ((unat h + m) mod POC_REQUESTS_PER_SHARD) s) = REQ_FILLED"
    "p = takeWhile (\<lambda>r. rq_kind_tag r = kind)
      (map (\<lambda>m. request_at i ((unat h + m) mod POC_REQUESTS_PER_SHARD) s) [k..<k + n])"
  shows "exec (drain_entries i kind copy h k n c out) s =
    (Some (c + of_nat (length p), out @ map copy p), mark_in_flight i h k (length p) s)"
  using assms
proof (induction n arbitrary: k s c out p)
  case 0
  then show ?case by (simp add: mark_in_flight_def)
next
  case (Suc n)
  let ?pos = "\<lambda>m. (unat h + m) mod POC_REQUESTS_PER_SHARD"
  have upt: "[k..<k + Suc n] = k # [Suc k..<Suc k + n]" by (simp add: upt_conv_Cons)
  have idx: "unat (h + of_nat k) mod POC_REQUESTS_PER_SHARD = ?pos k" by (rule ring_index)
  have v: "rq_valid (request_at i (?pos k) s) = REQ_FILLED" using Suc.prems(4)[of k] by simp
  have lt: "?pos m < POC_REQUESTS_PER_SHARD" for m by (simp add: POC_REQUESTS_PER_SHARD_def)
  show ?case
  proof (cases "rq_kind_tag (request_at i (?pos k) s) = kind")
    case False
    then have "p = []" unfolding Suc.prems(5) upt list.map by simp
    then show ?thesis using False v by (simp add: idx exec_pbind Let_def req_states mark_in_flight_def)
  next
    case True
    let ?s1 = "upd_request i (?pos k) (\<lambda>r. r\<lparr>rq_valid := REQ_IN_FLIGHT\<rparr>) s"
    have same: "request_at i (?pos m) ?s1 = request_at i (?pos m) s" if "Suc k \<le> m" "m < Suc k + n" for m
    proof -
      have "?pos m \<noteq> ?pos k" using mod_add_inj[of "unat h" m POC_REQUESTS_PER_SHARD k] that Suc.prems(3) by auto
      then show ?thesis using Suc.prems(1,2) lt by (simp add: request_at_upd)
    qed
    let ?p1 = "takeWhile (\<lambda>r. rq_kind_tag r = kind) (map (\<lambda>m. request_at i (?pos m) ?s1) [Suc k..<Suc k + n])"
    have p1: "map (\<lambda>m. request_at i (?pos m) ?s1) [Suc k..<Suc k + n] = map (\<lambda>m. request_at i (?pos m) s) [Suc k..<Suc k + n]"
      by (rule map_cong[OF refl]) (rule same, auto)
    have p: "p = request_at i (?pos k) s # ?p1"
      unfolding p1 Suc.prems(5) upt list.map takeWhile.simps using True by simp
    have "exec (drain_entries i kind copy h (Suc k) n (c + 1) (out @ [copy (request_at i (?pos k) s)])) ?s1 =
      (Some (c + 1 + of_nat (length ?p1), (out @ [copy (request_at i (?pos k) s)]) @ map copy ?p1),
        mark_in_flight i h (Suc k) (length ?p1) ?s1)"
      using Suc.prems same by (intro Suc.IH) auto
    then show ?thesis using True v unfolding p
      by (simp add: idx exec_pbind Let_def req_states mark_Suc add.assoc)
  qed
qed

lemma drain_batch_exec:
  assumes ok: "ring_ok i s" and p_def: "p = takeWhile (\<lambda>r. rq_kind_tag r = kind) (take n (ring i s))"
  shows "\<exists>s'. exec (drain_batch i kind copy n) s = (Some (map copy p), s') \<and> ring_ok i s' \<and>
    ring i s' = drop (length p) (ring i s) \<and>
    sh_next_request_seq (shard_at i s') = sh_next_request_seq (shard_at i s) \<and> same_elsewhere i s s'"
proof -
  let ?h = "sh_head (shard_at i s)"
  let ?n = "min (ring_len i s) n"
  have wf: "wf_shmem s" "i < POC_SHARD_COUNT" "ring_len i s \<le> POC_REQUESTS_PER_SHARD"
    and valid: "\<And>r. r \<in> set (ring i s) \<Longrightarrow> rq_valid r = REQ_FILLED \<and> length (rq_body r) = 9"
    using ok by (auto simp: ring_ok_def list_all_iff)
  have take: "take n (ring i s) = map (\<lambda>m. request_at i ((unat ?h + m) mod POC_REQUESTS_PER_SHARD) s) [0..<0 + ?n]"
    by (cases "n \<le> ring_len i s") (simp_all add: ring_def take_map ring_pos_def min_def)
  have pl: "length p \<le> ?n" unfolding p_def by (rule order_trans[OF length_takeWhile_le]) simp
  show ?thesis
  proof (cases "?n = 0")
    case True
    then have "p = []" using pl by simp
    then have "exec (drain_batch i kind copy n) s = (Some (map copy p), s)"
      using True wf by (simp add: drain_batch_def exec_pbind ring_len_def Let_def)
    then show ?thesis using ok \<open>p = []\<close> by (auto simp: same_elsewhere_def)
  next
    case False
    let ?s1 = "mark_in_flight i ?h 0 (length p) s"
    let ?s2 = "upd_shard i (\<lambda>h. h\<lparr>sh_head := ?h + of_nat (length p)\<rparr>) ?s1"
    have loop: "exec (drain_entries i kind copy ?h 0 ?n 0 []) s = (Some (0 + of_nat (length p), [] @ map copy p), ?s1)"
    proof (rule drain_entries_exec[OF wf(1,2)])
      show "0 + ?n \<le> POC_REQUESTS_PER_SHARD" using wf(3) by simp
      fix m assume "m < 0 + ?n"
      then have "request_at i ((unat ?h + m) mod POC_REQUESTS_PER_SHARD) s \<in> set (ring i s)"
        by (auto simp: ring_def ring_pos_def)
      then show "rq_valid (request_at i ((unat ?h + m) mod POC_REQUESTS_PER_SHARD) s) = REQ_FILLED" using valid by blast
    qed (simp add: p_def take)
    have ex: "exec (drain_batch i kind copy n) s = (Some (map copy p), ?s2)"
      using wf(2) loop by (simp add: drain_batch_def exec_pbind Let_def flip: ring_len_def) (use False in blast)
    have wf1: "wf_shmem ?s1" and sh1: "\<And>i'. shard_at i' ?s1 = shard_at i' s" using mark_frame[OF wf(1,2)] by auto
    have sh: "shard_at i' ?s2 = (if i' = i then (shard_at i s)\<lparr>sh_head := ?h + of_nat (length p)\<rparr> else shard_at i' s)" for i'
      using wf1 wf(2) sh1 by (simp add: shard_at_upd)
    have len: "ring_len i ?s2 = ring_len i s - length p"
    proof -
      have le: "of_nat (length p) \<le> sh_tail (shard_at i s) - ?h"
        using pl wf(3) by (simp add: word_le_nat_alt ring_len_def POC_REQUESTS_PER_SHARD_def unat_of_nat)
      have "unat (sh_tail (shard_at i s) - ?h - of_nat (length p)) = ring_len i s - unat (of_nat (length p) :: u32)"
        unfolding ring_len_def by (rule unat_sub[OF le])
      moreover have "unat (of_nat (length p) :: u32) = length p"
        using pl wf(3) by (simp add: unat_of_nat POC_REQUESTS_PER_SHARD_def)
      ultimately show ?thesis using sh by (simp add: ring_len_def algebra_simps)
    qed
    have pos: "ring_pos i k ?s2 = ring_pos i (length p + k) s" for k
      using sh ring_index[of ?h "length p"] by (simp add: ring_pos_def) (metis add.assoc mod_add_left_eq)
    have ring: "ring i ?s2 = drop (length p) (ring i s)"
    proof (rule nth_equalityI)
      show "length (ring i ?s2) = length (drop (length p) (ring i s))" using len by simp
      fix k assume "k < length (ring i ?s2)"
      then have k: "length p + k < ring_len i s" using len by simp
      have "request_at i (ring_pos i (length p + k) s) ?s1 = request_at i (ring_pos i (length p + k) s) s"
      proof (rule mark_frame(4)[OF wf(1,2)])
        fix m assume "m < 0 + length p"
        then show "i \<noteq> i \<or> ring_pos i (length p + k) s \<noteq> (unat ?h + m) mod POC_REQUESTS_PER_SHARD"
          using ring_pos_inj[of i "length p + k" s m] k wf(3) by (auto simp: ring_pos_def)
      qed
      then show "ring i ?s2 ! k = drop (length p) (ring i s) ! k" using k len pos by (simp add: ring_nth)
    qed
    have "ring_ok i ?s2" unfolding ring_ok_def ring
      using wf wf1 len valid by (auto simp: list_all_iff dest: in_set_dropD)
    moreover have "same_elsewhere i s ?s2"
      using sh mark_frame(4)[OF wf(1,2)] by (auto simp: same_elsewhere_def)
    ultimately show ?thesis using ex ring sh by auto
  qed
qed
section \<open>The ring as an abstract queue\<close>

datatype ring_entry = Apply_entry DrainedApply | Compensate_entry DrainedCompensate

definition entry_of :: "PocPendingRequest \<Rightarrow> ring_entry" where
  "entry_of r =
    (if rq_kind_tag r = REQ_KIND_APPLY then Apply_entry (drained_apply r) else Compensate_entry (drained_compensate r))"

primrec entry_seq :: "ring_entry \<Rightarrow> u64" where
  "entry_seq (Apply_entry d) = da_request_seq d"
| "entry_seq (Compensate_entry c) = dc_request_seq c"

definition ring_good :: "nat \<Rightarrow> 'z shmem_scheme \<Rightarrow> bool" where
  "ring_good i s \<longleftrightarrow> ring_ok i s \<and>
    list_all (\<lambda>r. rq_kind_tag r = REQ_KIND_APPLY \<or> rq_kind_tag r = REQ_KIND_COMPENSATE) (ring i s)"

definition contents :: "nat \<Rightarrow> 'z shmem_scheme \<Rightarrow> ring_entry list" where
  "contents i s = map entry_of (ring i s)"

text \<open>The operations of backends and committers, and their results.\<close>

datatype ring_op = Push_apply DrainedApply | Push_compensate i64 | Drain_apply nat | Drain_compensate nat

datatype ring_result = Pushed "unit + u64" | Applies "DrainedApply list" | Compensates "DrainedCompensate list"

primrec run_op :: "nat \<Rightarrow> ring_op \<Rightarrow> ('z shmem_scheme, ring_result) prog" where
  "run_op i (Push_apply d) = pbind (ring_push_apply i d) (\<lambda>r. Return (Pushed r))"
| "run_op i (Push_compensate xid) = pbind (ring_push_compensate i xid) (\<lambda>r. Return (Pushed r))"
| "run_op i (Drain_apply n) = pbind (drain_apply_batch i n) (\<lambda>ds. Return (Applies ds))"
| "run_op i (Drain_compensate n) = pbind (drain_compensate_batch i n) (\<lambda>cs. Return (Compensates cs))"

primrec op_ok :: "ring_op \<Rightarrow> bool" where
  "op_ok (Push_apply d) = (unat (da_slot_idx d) < POC_SLOTS_PER_SHARD)"
| "op_ok (Push_compensate xid) = True"
| "op_ok (Drain_apply n) = True"
| "op_ok (Drain_compensate n) = True"

text \<open>The abstract queue: the next sequence number and the entries in order of arrival.\<close>

definition spec_push :: "(u64 \<Rightarrow> ring_entry) \<Rightarrow> u64 \<times> ring_entry list \<Rightarrow> ring_result \<times> u64 \<times> ring_entry list" where
  "spec_push e a =
    (let (q, es) = a in
     if length es < POC_REQUESTS_PER_SHARD then (Pushed (Inr q), q + 1, es @ [e q]) else (Pushed (Inl ()), q, es))"

fun is_apply :: "ring_entry \<Rightarrow> bool" where
  "is_apply (Apply_entry _) = True"
| "is_apply (Compensate_entry _) = False"

primrec spec_op :: "ring_op \<Rightarrow> u64 \<times> ring_entry list \<Rightarrow> ring_result \<times> u64 \<times> ring_entry list" where
  "spec_op (Push_apply d) a = spec_push (\<lambda>q. Apply_entry (d\<lparr>da_request_seq := q\<rparr>)) a"
| "spec_op (Push_compensate xid) a =
    spec_push (\<lambda>q. Compensate_entry \<lparr>dc_request_seq = q, dc_user_tx_xid = xid\<rparr>) a"
| "spec_op (Drain_apply n) a =
    (let p = takeWhile is_apply (take n (snd a)) in
     (Applies [d. Apply_entry d \<leftarrow> p], fst a, drop (length p) (snd a)))"
| "spec_op (Drain_compensate n) a =
    (let p = takeWhile (Not \<circ> is_apply) (take n (snd a)) in
     (Compensates [c. Compensate_entry c \<leftarrow> p], fst a, drop (length p) (snd a)))"

definition abs_ring :: "nat \<Rightarrow> 'z shmem_scheme \<Rightarrow> u64 \<times> ring_entry list" where
  "abs_ring i s = (sh_next_request_seq (shard_at i s), contents i s)"

lemma stores_exec_request:
  assumes "wf_shmem t" "i < POC_SHARD_COUNT" "idx < POC_REQUESTS_PER_SHARD"
  shows "exec (stores (map (upd_request i idx) us)) t = (Some (), upd_request i idx (fold (\<lambda>u. u) us) t)"
  using fold_upd_request[OF assms] by simp

lemma push_refines:
  assumes good: "ring_good i s"
    and w: "\<And>idx q t. wf_shmem t \<Longrightarrow> idx < POC_REQUESTS_PER_SHARD \<Longrightarrow>
      exec (w idx q) t = (Some (), f q (upd_request i idx (fold (\<lambda>u. u) (request_stores q ph p j kind b)) t))"
    and f: "\<And>q. off_ring (f q)" and b: "length b = 9"
    and kind: "kind = REQ_KIND_APPLY \<or> kind = REQ_KIND_COMPENSATE"
    and e: "\<And>q. entry_of (written q ph p j kind b) = e q"
  shows "\<exists>r s'. exec (ring_reserve i w) s = (Some r, s') \<and> ring_good i s' \<and>
    (Pushed r, abs_ring i s') = spec_push e (abs_ring i s) \<and> same_elsewhere i s s'"
proof -
  have ok: "ring_ok i s" using good by (simp add: ring_good_def)
  show ?thesis
  proof (cases "ring_len i s < POC_REQUESTS_PER_SHARD")
    case True
    obtain s' where "exec (ring_reserve i w) s = (Some (Inr (sh_next_request_seq (shard_at i s))), s')" "ring_ok i s'"
      "ring i s' = ring i s @ [written (sh_next_request_seq (shard_at i s)) ph p j kind b]"
      "sh_next_request_seq (shard_at i s') = sh_next_request_seq (shard_at i s) + 1" "same_elsewhere i s s'"
      using reserve_room[OF ok True w f b refl] by blast
    moreover from this have "ring_good i s'" using good kind by (simp add: ring_good_def written_def)
    ultimately show ?thesis using True e by (simp add: spec_push_def abs_ring_def contents_def)
  next
    case False
    then have "ring_len i s = POC_REQUESTS_PER_SHARD" using ok by (simp add: ring_ok_def)
    from reserve_full[OF ok this, of w] show ?thesis
      using False good by (simp add: spec_push_def abs_ring_def contents_def same_elsewhere_def)
  qed
qed

lemma drain_refines:
  assumes good: "ring_good i s"
    and p: "p = takeWhile (\<lambda>r. rq_kind_tag r = kind) (take n (ring i s))"
  shows "\<exists>s'. exec (drain_batch i kind copy n) s = (Some (map copy p), s') \<and> ring_good i s' \<and>
    abs_ring i s' = (sh_next_request_seq (shard_at i s), drop (length p) (contents i s)) \<and> same_elsewhere i s s'"
proof -
  have ok: "ring_ok i s" using good by (simp add: ring_good_def)
  obtain s' where "exec (drain_batch i kind copy n) s = (Some (map copy p), s')" "ring_ok i s'"
    "ring i s' = drop (length p) (ring i s)"
    "sh_next_request_seq (shard_at i s') = sh_next_request_seq (shard_at i s)" "same_elsewhere i s s'"
    using drain_batch_exec[OF ok p] by blast
  moreover from this have "ring_good i s'"
    using good by (auto simp: ring_good_def list_all_iff dest: in_set_dropD)
  ultimately show ?thesis by (auto simp: abs_ring_def contents_def drop_map)
qed

lemma entries_of_prefix:
  assumes "\<And>r. r \<in> set rs \<Longrightarrow> P (entry_of r) \<longleftrightarrow> rq_kind_tag r = kind"
  shows "takeWhile P (take n (map entry_of rs)) = map entry_of (takeWhile (\<lambda>r. rq_kind_tag r = kind) (take n rs))"
  using assms
proof (induction rs arbitrary: n)
  case Nil
  then show ?case by simp
next
  case (Cons r rs)
  then show ?case by (cases n) auto
qed

lemma applies_of_prefix:
  "(\<And>r. r \<in> set rs \<Longrightarrow> rq_kind_tag r = REQ_KIND_APPLY) \<Longrightarrow>
    [d. Apply_entry d \<leftarrow> map entry_of rs] = map drained_apply rs"
  by (induction rs) (auto simp: entry_of_def)

lemma compensates_of_prefix:
  "(\<And>r. r \<in> set rs \<Longrightarrow> rq_kind_tag r = REQ_KIND_COMPENSATE) \<Longrightarrow>
    [c. Compensate_entry c \<leftarrow> map entry_of rs] = map drained_compensate rs"
  by (induction rs) (auto simp: entry_of_def req_kinds)
section \<open>Refinement and order\<close>

lemma exec_return:
  "exec p s = (Some x, s') \<Longrightarrow> exec (pbind p (\<lambda>r. Return (g r))) s = (Some (g x), s')"
  by (simp add: exec_pbind)

lemma push_apply_refines:
  assumes "ring_good i s" "unat (da_slot_idx d) < POC_SLOTS_PER_SHARD"
  shows "\<exists>r s'. exec (ring_push_apply i d) s = (Some r, s') \<and> ring_good i s' \<and>
    (Pushed r, abs_ring i s') = spec_push (\<lambda>q. Apply_entry (d\<lparr>da_request_seq := q\<rparr>)) (abs_ring i s) \<and> same_elsewhere i s s'"
proof -
  have i: "i < POC_SHARD_COUNT" using assms(1) by (simp add: ring_good_def ring_ok_def)
  let ?f = "\<lambda>q s. upd_slot i (unat (da_slot_idx d)) (\<lambda>r. r\<lparr>sl_current_request_seq := q\<rparr>)
    (upd_slot i (unat (da_slot_idx d)) (\<lambda>r. r\<lparr>sl_issue_id := da_event_issue_id d\<rparr>) s)"
  show ?thesis unfolding ring_push_apply_def
  proof (rule push_refines[OF assms(1), where f = ?f])
    fix idx q and t :: "'a shmem_scheme"
    assume "wf_shmem t" "idx < POC_REQUESTS_PER_SHARD"
    then show "exec (pbind (stores (map (upd_request i idx) (request_stores q (da_pool_hash d) (da_backend_pid d)
          (da_slot_idx d) REQ_KIND_APPLY (apply_body d)))) (\<lambda>_.
        guarded (unat (da_slot_idx d) < POC_SLOTS_PER_SHARD)
          (pbind (store (upd_slot i (unat (da_slot_idx d)) (\<lambda>r. r\<lparr>sl_issue_id := da_event_issue_id d\<rparr>))) (\<lambda>_.
           store (upd_slot i (unat (da_slot_idx d)) (\<lambda>r. r\<lparr>sl_current_request_seq := q\<rparr>)))))) t =
      (Some (), ?f q (upd_request i idx (fold (\<lambda>u. u) (request_stores q (da_pool_hash d) (da_backend_pid d)
          (da_slot_idx d) REQ_KIND_APPLY (apply_body d))) t))"
      using assms(2) i by (simp add: exec_pbind fold_upd_request)
  next
    fix q show "off_ring (?f q)" by (intro off_ring_slot off_ring_id)
  qed (simp_all add: apply_body_def entry_of_def written_def drained_apply_def)
qed

lemma push_compensate_refines:
  assumes "ring_good i s"
  shows "\<exists>r s'. exec (ring_push_compensate i xid) s = (Some r, s') \<and> ring_good i s' \<and>
    (Pushed r, abs_ring i s') = spec_push (\<lambda>q. Compensate_entry \<lparr>dc_request_seq = q, dc_user_tx_xid = xid\<rparr>) (abs_ring i s) \<and>
    same_elsewhere i s s'"
proof -
  have i: "i < POC_SHARD_COUNT" using assms by (simp add: ring_good_def ring_ok_def)
  show ?thesis unfolding ring_push_compensate_def
  proof (rule push_refines[OF assms, where f = "\<lambda>_ s. s"])
    fix idx q and t :: "'a shmem_scheme"
    assume "wf_shmem t" "idx < POC_REQUESTS_PER_SHARD"
    then show "exec (stores (map (upd_request i idx) (request_stores q 0 0 (- 1) REQ_KIND_COMPENSATE (xid # replicate 8 0)))) t =
      (Some (), upd_request i idx (fold (\<lambda>u. u) (request_stores q 0 0 (- 1) REQ_KIND_COMPENSATE (xid # replicate 8 0))) t)"
      using i by (intro stores_exec_request)
  qed (simp_all add: off_ring_id entry_of_def written_def drained_compensate_def req_kinds)
qed

lemma is_apply_entry: "is_apply (entry_of r) \<longleftrightarrow> rq_kind_tag r = REQ_KIND_APPLY"
  by (simp add: entry_of_def)

lemma drain_apply_refines:
  assumes "ring_good i s"
  shows "\<exists>ds s'. exec (drain_apply_batch i n) s = (Some ds, s') \<and> ring_good i s' \<and>
    (Applies ds, abs_ring i s') = spec_op (Drain_apply n) (abs_ring i s) \<and> same_elsewhere i s s'"
proof -
  let ?p = "takeWhile (\<lambda>r. rq_kind_tag r = REQ_KIND_APPLY) (take n (ring i s))"
  have "takeWhile is_apply (take n (contents i s)) = map entry_of ?p"
    unfolding contents_def by (rule entries_of_prefix) (simp add: is_apply_entry)
  moreover have "[d. Apply_entry d \<leftarrow> map entry_of ?p] = map drained_apply ?p"
    by (rule applies_of_prefix) (auto dest: set_takeWhileD)
  ultimately show ?thesis
    using drain_refines[OF assms refl, of REQ_KIND_APPLY drained_apply n]
    by (auto simp: drain_apply_batch_def abs_ring_def Let_def)
qed

lemma drain_compensate_refines:
  assumes "ring_good i s"
  shows "\<exists>cs s'. exec (drain_compensate_batch i n) s = (Some cs, s') \<and> ring_good i s' \<and>
    (Compensates cs, abs_ring i s') = spec_op (Drain_compensate n) (abs_ring i s) \<and> same_elsewhere i s s'"
proof -
  let ?p = "takeWhile (\<lambda>r. rq_kind_tag r = REQ_KIND_COMPENSATE) (take n (ring i s))"
  have "takeWhile (Not \<circ> is_apply) (take n (contents i s)) = map entry_of ?p"
    unfolding contents_def using assms
    by (intro entries_of_prefix) (auto simp: is_apply_entry ring_good_def list_all_iff req_kinds)
  moreover have "[c. Compensate_entry c \<leftarrow> map entry_of ?p] = map drained_compensate ?p"
    by (rule compensates_of_prefix) (auto dest: set_takeWhileD)
  ultimately show ?thesis
    using drain_refines[OF assms refl, of REQ_KIND_COMPENSATE drained_compensate n]
    by (auto simp: drain_compensate_batch_def abs_ring_def Let_def)
qed

lemma run_op_refines:
  assumes "ring_good i s" "op_ok op"
  shows "\<exists>r s'. exec (run_op i op) s = (Some r, s') \<and> ring_good i s' \<and>
    (r, abs_ring i s') = spec_op op (abs_ring i s) \<and> same_elsewhere i s s'"
proof (cases op)
  case (Push_apply d)
  then show ?thesis using push_apply_refines[OF assms(1), of d] assms(2) by (auto dest: exec_return)
next
  case (Push_compensate xid)
  then show ?thesis using push_compensate_refines[OF assms(1), of xid] by (auto dest: exec_return)
next
  case (Drain_apply n)
  then show ?thesis using drain_apply_refines[OF assms(1), of n] by (auto dest: exec_return)
next
  case (Drain_compensate n)
  then show ?thesis using drain_compensate_refines[OF assms(1), of n] by (auto dest: exec_return)
qed
text \<open>
  C31. The ring of a shard implements a bounded first-in first-out queue, also across the wrap-around of
  its 32-bit counters. On a ring in good order every operation returns: a push is refused exactly when
  512 entries are pending, and otherwise takes the next sequence number and appends its entry; a batch
  drain returns the longest prefix of at most the given number of entries of its kind and removes
  exactly those. The ring stays in good order and no other shard changes.
\<close>
theorem ring_refines:
  assumes "ring_good i s" "op_ok op"
  shows "\<exists>r s'. exec (run_op i op) s = (Some r, s') \<and> ring_good i s' \<and>
    (r, abs_ring i s') = spec_op op (abs_ring i s) \<and> same_elsewhere i s s'"
  using assms by (rule run_op_refines)

primrec op_trace :: "('op \<Rightarrow> 's \<Rightarrow> 's) \<Rightarrow> ('op \<Rightarrow> 's \<Rightarrow> 'e list) \<Rightarrow> 'op list \<Rightarrow> 's \<Rightarrow> 'e list" where
  "op_trace g f [] s = []"
| "op_trace g f (op # ops) s = f op s @ op_trace g f ops (g op s)"

locale fifo =
  fixes good :: "'s \<Rightarrow> bool" and queued :: "'s \<Rightarrow> 'e list" and apply_op :: "'op \<Rightarrow> 's \<Rightarrow> 's"
    and accepts delivers :: "'op \<Rightarrow> 's \<Rightarrow> 'e list" and legal :: "'op \<Rightarrow> bool"
  assumes keeps_good: "good s \<Longrightarrow> legal op \<Longrightarrow> good (apply_op op s)"
    and conserves: "good s \<Longrightarrow> legal op \<Longrightarrow> delivers op s @ queued (apply_op op s) = queued s @ accepts op s"
begin

lemma stays_good: "good s \<Longrightarrow> list_all legal ops \<Longrightarrow> good (fold apply_op ops s)"
  by (induction ops arbitrary: s) (auto intro: keeps_good)

lemma in_order:
  assumes "good s" "list_all legal ops"
  shows "op_trace apply_op delivers ops s @ queued (fold apply_op ops s) = queued s @ op_trace apply_op accepts ops s"
  using assms
proof (induction ops arbitrary: s)
  case Nil
  then show ?case by simp
next
  case (Cons op ops)
  have "delivers op s @ queued (apply_op op s) = queued s @ accepts op s" using Cons.prems by (simp add: conserves)
  moreover have "op_trace apply_op delivers ops (apply_op op s) @ queued (fold apply_op ops (apply_op op s)) =
      queued (apply_op op s) @ op_trace apply_op accepts ops (apply_op op s)"
    using Cons.prems by (intro Cons.IH) (auto intro: keeps_good)
  ultimately show ?case by (simp flip: append_assoc) simp
qed

end

text \<open>What an operation hands in and hands out, read off its result.\<close>

definition ring_apply :: "nat \<Rightarrow> ring_op \<Rightarrow> 'z shmem_scheme \<Rightarrow> 'z shmem_scheme" where
  "ring_apply i op s = snd (exec (run_op i op) s)"

definition ring_accepts :: "nat \<Rightarrow> ring_op \<Rightarrow> 'z shmem_scheme \<Rightarrow> ring_entry list" where
  "ring_accepts i op s =
    (case (op, fst (exec (run_op i op) s)) of
       (Push_apply d, Some (Pushed (Inr q))) \<Rightarrow> [Apply_entry (d\<lparr>da_request_seq := q\<rparr>)]
     | (Push_compensate xid, Some (Pushed (Inr q))) \<Rightarrow> [Compensate_entry \<lparr>dc_request_seq = q, dc_user_tx_xid = xid\<rparr>]
     | _ \<Rightarrow> [])"

definition ring_delivers :: "nat \<Rightarrow> ring_op \<Rightarrow> 'z shmem_scheme \<Rightarrow> ring_entry list" where
  "ring_delivers i op s =
    (case fst (exec (run_op i op) s) of
       Some (Applies ds) \<Rightarrow> map Apply_entry ds
     | Some (Compensates cs) \<Rightarrow> map Compensate_entry cs
     | _ \<Rightarrow> [])"

lemma prefix_applies: "list_all is_apply p \<Longrightarrow> map Apply_entry [d. Apply_entry d \<leftarrow> p] = p"
proof (induction p)
  case (Cons e p)
  then show ?case by (cases e) auto
qed simp

lemma prefix_compensates: "list_all (Not \<circ> is_apply) p \<Longrightarrow> map Compensate_entry [c. Compensate_entry c \<leftarrow> p] = p"
proof (induction p)
  case (Cons e p)
  then show ?case by (cases e) auto
qed simp

lemma prefix_drop: "takeWhile P (take n xs) @ drop (length (takeWhile P (take n xs))) xs = xs"
proof (induction xs arbitrary: n)
  case (Cons x xs)
  then show ?case by (cases n) auto
qed simp

interpretation rq: fifo "ring_good i" "contents i" "ring_apply i" "ring_accepts i" "ring_delivers i" op_ok
proof
  fix s :: "'a shmem_scheme" and op
  assume a: "ring_good i s" "op_ok op"
  obtain r s' where x: "exec (run_op i op) s = (Some r, s')" "ring_good i s'"
    "(r, abs_ring i s') = spec_op op (abs_ring i s)"
    using run_op_refines[OF a] by blast
  show "ring_good i (ring_apply i op s)" using x by (simp add: ring_apply_def)
  show "ring_delivers i op s @ contents i (ring_apply i op s) = contents i s @ ring_accepts i op s"
  proof (cases op)
    case (Push_apply d)
    then show ?thesis using x
      by (auto simp: ring_apply_def ring_delivers_def ring_accepts_def abs_ring_def spec_push_def split: if_splits)
  next
    case (Push_compensate xid)
    then show ?thesis using x
      by (auto simp: ring_apply_def ring_delivers_def ring_accepts_def abs_ring_def spec_push_def split: if_splits)
  next
    case (Drain_apply n)
    let ?p = "takeWhile is_apply (take n (contents i s))"
    have "map Apply_entry [d. Apply_entry d \<leftarrow> ?p] = ?p"
      by (rule prefix_applies) (auto simp: list_all_iff dest: set_takeWhileD)
    moreover have "?p @ drop (length ?p) (contents i s) = contents i s"
      by (rule prefix_drop)
    ultimately show ?thesis using x Drain_apply
      by (simp add: ring_apply_def ring_delivers_def ring_accepts_def abs_ring_def Let_def)
  next
    case (Drain_compensate n)
    let ?p = "takeWhile (Not \<circ> is_apply) (take n (contents i s))"
    have "map Compensate_entry [c. Compensate_entry c \<leftarrow> ?p] = ?p"
      by (rule prefix_compensates) (auto simp: list_all_iff dest: set_takeWhileD)
    moreover have "?p @ drop (length ?p) (contents i s) = contents i s"
      by (rule prefix_drop)
    ultimately show ?thesis using x Drain_compensate
      by (simp add: ring_apply_def ring_delivers_def ring_accepts_def abs_ring_def Let_def)
  qed
qed
lemma op_cases:
  assumes "ring_good i s" "op_ok op"
  obtains r s' where "exec (run_op i op) s = (Some r, s')" "ring_good i s'" "ring_apply i op s = s'"
    "(r, abs_ring i s') = spec_op op (abs_ring i s)"
  using run_op_refines[OF assms] by (auto simp: ring_apply_def)

lemma accepted_seqs:
  assumes "ring_good i s" "op_ok op"
  defines "q \<equiv> sh_next_request_seq (shard_at i s)"
  shows "map entry_seq (ring_accepts i op s) = map (\<lambda>k. q + of_nat k) [0..<length (ring_accepts i op s)]"
    "sh_next_request_seq (shard_at i (ring_apply i op s)) = q + of_nat (length (ring_accepts i op s))"
proof -
  obtain r s' where x: "exec (run_op i op) s = (Some r, s')" "ring_apply i op s = s'"
    "(r, abs_ring i s') = spec_op op (abs_ring i s)"
    using op_cases[OF assms(1,2)] by metis
  show "map entry_seq (ring_accepts i op s) = map (\<lambda>k. q + of_nat k) [0..<length (ring_accepts i op s)]"
    using x by (cases op) (auto simp: ring_accepts_def abs_ring_def spec_push_def q_def Let_def split: if_splits)
  show "sh_next_request_seq (shard_at i (ring_apply i op s)) = q + of_nat (length (ring_accepts i op s))"
    using x by (cases op) (auto simp: ring_accepts_def abs_ring_def spec_push_def q_def Let_def split: if_splits)
qed

lemma seqs_append:
  fixes q :: "'a :: len word"
  shows "map (\<lambda>k. q + of_nat k) [0..<m] @ map (\<lambda>k. q + of_nat m + of_nat k) [0..<n] = map (\<lambda>k. q + of_nat k) [0..<m + n]"
  by (induction n) (simp_all add: add.assoc)

lemma trace_seqs:
  assumes "ring_good i s" "list_all op_ok ops"
  shows "map entry_seq (op_trace (ring_apply i) (ring_accepts i) ops s) =
    map (\<lambda>k. sh_next_request_seq (shard_at i s) + of_nat k) [0..<length (op_trace (ring_apply i) (ring_accepts i) ops s)]"
  using assms
proof (induction ops arbitrary: s)
  case (Cons op ops)
  have s: "ring_good i s" "op_ok op" "ring_good i (ring_apply i op s)"
    using Cons.prems rq.keeps_good by auto
  show ?case
    using Cons.IH[OF s(3)] Cons.prems(2) accepted_seqs[OF s(1,2)] by (simp add: seqs_append)
qed simp

section \<open>The zeroed segments\<close>

definition zeroed_slot :: PocResultSlot where
  "zeroed_slot =
    \<lparr>sl_state = SLOT_FREE, sl_waiter_pid = 0, sl_applied_unit_cost = 0, sl_applied_total_cost = 0, sl_committer_tx_id = 0,
      sl_error_code = 0, sl_depletion_count = 0, sl_depletion_ids_inline = replicate 32 0, sl_spillover_offset = 0,
      sl_issue_id = 0, sl_current_request_seq = 0, sl_acquired_at_ns = 0, sl_set_latched_at_ns = 0\<rparr>"

definition zeroed_request :: PocPendingRequest where
  "zeroed_request =
    \<lparr>rq_valid = REQ_EMPTY, rq_request_seq = 0, rq_pool_hash = 0, rq_backend_pid = 0, rq_slot_idx = 0, rq_kind_tag = 0,
      rq_body = replicate 9 0\<rparr>"

definition zeroed_shard :: PocQueueShard where
  "zeroed_shard =
    \<lparr>sh_head = 0, sh_tail = 0, sh_capacity = 0, sh_committer_pid = 0, sh_committer_acquired_at_ns = 0,
      sh_committer_tx_seq = 0, sh_next_request_seq = 0, sh_next_slot_seq = 0, sh_ring_full_waiter_pid = 0, sh_error_count = 0\<rparr>"

definition zeroed :: shmem where
  "zeroed =
    \<lparr>ar_shards = replicate POC_SHARD_COUNT zeroed_shard,
      ar_requests = replicate POC_SHARD_COUNT (replicate POC_REQUESTS_PER_SHARD zeroed_request),
      ar_slots = replicate POC_SHARD_COUNT (replicate POC_SLOTS_PER_SHARD zeroed_slot),
      ar_methods = replicate 4 \<lparr>ms_dispatch_count = 0, ms_error_count = 0, ms_latency_buckets = replicate 30 0\<rparr>,
      ar_recovery = \<lparr>rs_backpressure_count = 0, rs_committer_tx_failures = 0, rs_orphan_compensations = 0,
        rs_lease_takeovers = 0, rs_batch_rings = replicate POC_SHARD_COUNT \<lparr>br_head = 0, br_samples = replicate 16 0\<rparr>\<rparr>,
      ar_bottleneck = \<lparr>bn_plan_apply_total_ns = 0, bn_wake_total_ns = 0, bn_wake_sample_count = 0,
        bn_wake_buckets = replicate 30 0\<rparr>\<rparr>"

lemma wf_zeroed: "wf_shmem zeroed"
  by (simp add: wf_shmem_def zeroed_def)

text \<open>A ring whose counters are about to wrap.\<close>

definition before_wrap :: shmem where
  "before_wrap = upd_shard 0 (\<lambda>h. h\<lparr>sh_head := - 1, sh_tail := - 1\<rparr>) zeroed"

lemma before_wrap_good: "ring_good 0 before_wrap"
  by (simp add: ring_good_def ring_ok_def ring_def ring_len_def before_wrap_def wf_zeroed shard_at_upd poc_sizes)

theorem ring_refines_witness:
  "ring_good 0 before_wrap \<and>
    (\<exists>s'. exec (run_op 0 (Push_compensate 7)) before_wrap = (Some (Pushed (Inr 0)), s') \<and>
      contents 0 s' = [Compensate_entry \<lparr>dc_request_seq = 0, dc_user_tx_xid = 7\<rparr>])"
proof -
  have len: "contents 0 before_wrap = []" "sh_next_request_seq (shard_at 0 before_wrap) = 0"
    by (simp_all add: contents_def ring_def ring_len_def before_wrap_def wf_zeroed shard_at_upd poc_sizes)
      (simp add: shard_at_def zeroed_def zeroed_shard_def poc_sizes)
  show ?thesis
    using ring_refines[of 0 before_wrap "Push_compensate 7"] before_wrap_good len
    by (auto simp: abs_ring_def spec_push_def poc_sizes)
qed

text \<open>
  C32. Nothing is lost, duplicated or reordered. Over any sequence of pushes and batch drains on a ring in
  good order, the entries delivered so far followed by the entries still pending are the entries
  pending at the start followed by the entries accepted since, and the accepted ones carry consecutive
  sequence numbers.
\<close>
theorem ring_fifo:
  assumes "ring_good i s" "list_all op_ok ops"
  shows "op_trace (ring_apply i) (ring_delivers i) ops s @ contents i (fold (ring_apply i) ops s) =
      contents i s @ op_trace (ring_apply i) (ring_accepts i) ops s \<and>
    map entry_seq (op_trace (ring_apply i) (ring_accepts i) ops s) =
      map (\<lambda>k. sh_next_request_seq (shard_at i s) + of_nat k) [0..<length (op_trace (ring_apply i) (ring_accepts i) ops s)]"
  using rq.in_order[OF assms] trace_seqs[OF assms] by blast

theorem ring_fifo_witness:
  "ring_good 0 before_wrap \<and> list_all op_ok [Push_compensate 7, Push_compensate 8, Drain_compensate 1] \<and>
    op_trace (ring_apply 0) (ring_delivers 0) [Push_compensate 7, Push_compensate 8, Drain_compensate 1] before_wrap @
      contents 0 (fold (ring_apply 0) [Push_compensate 7, Push_compensate 8, Drain_compensate 1] before_wrap) =
    contents 0 before_wrap @
      op_trace (ring_apply 0) (ring_accepts 0) [Push_compensate 7, Push_compensate 8, Drain_compensate 1] before_wrap"
  using ring_fifo[of 0 before_wrap "[Push_compensate 7, Push_compensate 8, Drain_compensate 1]"] before_wrap_good by simp

section \<open>Draining empties the ring\<close>

definition drain_round :: "nat \<Rightarrow> nat \<Rightarrow> 'z shmem_scheme \<Rightarrow> 'z shmem_scheme" where
  "drain_round i n s = ring_apply i (Drain_apply n) (ring_apply i (Drain_compensate n) s)"

lemma drain_round_shrinks:
  assumes "ring_good i s" "n > 0"
  shows "ring_good i (drain_round i n s) \<and> length (contents i (drain_round i n s)) \<le> length (contents i s) - 1"
proof -
  let ?s1 = "ring_apply i (Drain_compensate n) s"
  have s1: "ring_good i ?s1" "contents i ?s1 = drop (length (takeWhile (Not \<circ> is_apply) (take n (contents i s)))) (contents i s)"
    using op_cases[OF assms(1), of "Drain_compensate n"] by (auto simp: abs_ring_def Let_def)
  have s2: "ring_good i (drain_round i n s)"
    "contents i (drain_round i n s) = drop (length (takeWhile is_apply (take n (contents i ?s1)))) (contents i ?s1)"
    using op_cases[OF s1(1), of "Drain_apply n"] by (auto simp: abs_ring_def Let_def drain_round_def)
  show ?thesis
  proof (cases "contents i s")
    case Nil
    then show ?thesis using s1 s2 by simp
  next
    case (Cons e es)
    then show ?thesis using s1 s2 assms(2) by (cases n; cases e) (auto simp: Cons)
  qed
qed

text \<open>
  C33. The committer's loop makes progress. A drain of the compensate entries at the head followed by a
  drain of the apply entries, with a positive batch size, removes at least one entry from a ring that
  is not empty, whatever the mix of kinds; so as many rounds as there are entries empty the ring.
\<close>
theorem drain_rounds_empty:
  assumes "ring_good i s" "n > 0" "length (contents i s) \<le> k"
  shows "contents i ((drain_round i n ^^ k) s) = []"
  using assms
proof (induction k arbitrary: s)
  case 0
  then show ?case by simp
next
  case (Suc k)
  have "ring_good i (drain_round i n s)" "length (contents i (drain_round i n s)) \<le> k"
    using drain_round_shrinks[OF Suc.prems(1,2)] Suc.prems(3) by auto
  from Suc.IH[OF this(1) Suc.prems(2) this(2)] show ?case by (simp add: funpow_swap1)
qed

theorem drain_rounds_empty_witness:
  "ring_good 0 (ring_apply 0 (Push_compensate 7) before_wrap) \<and>
    length (contents 0 (ring_apply 0 (Push_compensate 7) before_wrap)) \<le> 1 \<and>
    contents 0 ((drain_round 0 4 ^^ 1) (ring_apply 0 (Push_compensate 7) before_wrap)) = []"
proof -
  have good: "ring_good 0 (ring_apply 0 (Push_compensate 7) before_wrap)"
    by (rule rq.keeps_good[OF before_wrap_good]) simp
  have "contents 0 before_wrap = []"
    by (simp add: contents_def ring_def ring_len_def before_wrap_def wf_zeroed shard_at_upd poc_sizes)
  moreover obtain r s' where "ring_apply 0 (Push_compensate 7) before_wrap = s'"
    "(r, abs_ring 0 s') = spec_op (Push_compensate 7) (abs_ring 0 before_wrap)"
    by (rule op_cases[OF before_wrap_good, of "Push_compensate 7"]) simp_all
  ultimately have len: "length (contents 0 (ring_apply 0 (Push_compensate 7) before_wrap)) \<le> 1"
    by (simp add: abs_ring_def spec_push_def split: if_splits)
  show ?thesis by (intro conjI good len drain_rounds_empty[OF good _ len]) simp
qed

end
