(* ===== verification/QueueConc.thy ===== *)
theory QueueConc
  imports QueueRing
begin

text \<open>
  The queue under concurrency: what any number of backends running the operations of \<open>Queue\<close> in any
  interleaving may and may not do to each other. A slot is held from the exchange that allocates it
  to the store that frees it; the committer lease of a shard is held from the exchange that enters a
  process into it to the store that clears it. Two protocols, one for slots and one for leases,
  interpret the locale \<open>interference\<close>.
\<close>

section \<open>The slot protocol\<close>

definition slot_st :: "nat \<Rightarrow> nat \<Rightarrow> 'z shmem_scheme \<Rightarrow> u8" where
  "slot_st i j s = sl_state (slot_at i j s)"

text \<open>What anyone may do to a slot somebody holds: fill it or abandon it, while it is allocated.\<close>

definition flows :: "u8 \<Rightarrow> u8 \<Rightarrow> bool" where
  "flows a b \<longleftrightarrow> a = b \<or> a = SLOT_ALLOCATED \<and> (b = SLOT_FILLED \<or> b = SLOT_ABANDONED)"

definition slot_neutral :: "nat \<Rightarrow> 'z shmem_scheme \<Rightarrow> 'z shmem_scheme \<Rightarrow> bool" where
  "slot_neutral i s s' \<longleftrightarrow> (wf_shmem s \<longrightarrow> wf_shmem s' \<and> (\<forall>j < POC_SLOTS_PER_SHARD. flows (slot_st i j s) (slot_st i j s')))"

definition slot_tolerates :: "nat \<Rightarrow> nat set \<Rightarrow> 'z shmem_scheme \<Rightarrow> 'z shmem_scheme \<Rightarrow> bool" where
  "slot_tolerates i h s s' \<longleftrightarrow> (wf_shmem s \<longrightarrow> wf_shmem s' \<and> (\<forall>j\<in>h. flows (slot_st i j s) (slot_st i j s')))"

definition slot_acts :: "nat \<Rightarrow> nat set \<Rightarrow> 'z shmem_scheme \<Rightarrow> nat set \<Rightarrow> 'z shmem_scheme \<Rightarrow> bool" where
  "slot_acts i h s h' s' \<longleftrightarrow> (wf_shmem s \<longrightarrow> wf_shmem s' \<and> h' \<subseteq> {..<POC_SLOTS_PER_SHARD} \<and>
    (\<forall>j\<in>h'. slot_st i j s' \<noteq> SLOT_FREE) \<and> (\<forall>j\<in>h' - h. slot_st i j s = SLOT_FREE) \<and>
    (\<forall>j < POC_SLOTS_PER_SHARD. (j \<in> h \<longleftrightarrow> j \<in> h') \<longrightarrow> flows (slot_st i j s) (slot_st i j s')))"

definition slot_claims :: "nat \<Rightarrow> (nat \<Rightarrow> nat set) \<Rightarrow> 'z shmem_scheme \<Rightarrow> bool" where
  "slot_claims i H s \<longleftrightarrow> wf_shmem s \<and> (\<forall>t u. t \<noteq> u \<longrightarrow> H t \<inter> H u = {}) \<and>
    (\<forall>t. H t \<subseteq> {..<POC_SLOTS_PER_SHARD} \<and> (\<forall>j\<in>H t. slot_st i j s \<noteq> SLOT_FREE))"

lemma flows_refl [simp]: "flows a a"
  by (simp add: flows_def)

lemma flows_trans: "flows a b \<Longrightarrow> flows b c \<Longrightarrow> flows a c"
  by (auto simp: flows_def slot_states)

lemma flows_not_free: "flows a b \<Longrightarrow> a \<noteq> SLOT_FREE \<Longrightarrow> b \<noteq> SLOT_FREE"
  by (auto simp: flows_def slot_states)

lemma slot_neutral_refl [simp]: "slot_neutral i s s"
  by (simp add: slot_neutral_def)

lemma slot_neutral_trans: "slot_neutral i s s' \<Longrightarrow> slot_neutral i s' s'' \<Longrightarrow> slot_neutral i s s''"
  unfolding slot_neutral_def using flows_trans by blast

interpretation slots: interference "\<lambda>_. slot_tolerates i" "\<lambda>_. slot_acts i" "slot_claims i" "\<lambda>_ _. True"
proof
  fix h :: "nat set" and s s' s'' :: "'a shmem_scheme"
  show "slot_tolerates i h s s" by (simp add: slot_tolerates_def)
  show "slot_tolerates i h s s''" if "slot_tolerates i h s s'" "slot_tolerates i h s' s''"
    using that flows_trans unfolding slot_tolerates_def by blast
next
  fix H t h' and s s' :: "'a shmem_scheme"
  assume c: "slot_claims i H s" and a: "slot_acts i (H t) s h' s'"
  have mine: "j \<notin> h'" if "u \<noteq> t" "j \<in> H u" for u j
    using c a that unfolding slot_claims_def slot_acts_def by blast
  have keep: "flows (slot_st i j s) (slot_st i j s')" if "u \<noteq> t" "j \<in> H u" for u j
    using c a mine[OF that] that unfolding slot_claims_def slot_acts_def by blast
  show "slot_tolerates i (H u) s s'" if "u \<noteq> t" for u
    using a c keep[OF that] by (simp add: slot_tolerates_def slot_acts_def slot_claims_def)
  have "slot_st i j s' \<noteq> SLOT_FREE" if "u \<noteq> t" "j \<in> H u" for u j
    using flows_not_free[OF keep[OF that]] c that by (auto simp: slot_claims_def)
  moreover have "h' \<inter> H u = {}" "H u \<inter> h' = {}" if "t \<noteq> u" for u
    using mine[of u] that by blast+
  ultimately show "slot_claims i (H(t := h')) s'"
    using c a unfolding slot_claims_def slot_acts_def by auto
qed

section \<open>The operations of the slot pool\<close>

definition claim_ok :: "nat \<Rightarrow> nat set \<Rightarrow> 'z shmem_scheme \<Rightarrow> bool" where
  "claim_ok i h s \<longleftrightarrow> wf_shmem s \<and> i < POC_SHARD_COUNT \<and> h \<subseteq> {..<POC_SLOTS_PER_SHARD} \<and> (\<forall>j\<in>h. slot_st i j s \<noteq> SLOT_FREE)"

lemma claim_stable: "claim_ok i h s \<Longrightarrow> slot_tolerates i h s s' \<Longrightarrow> claim_ok i h s'"
  unfolding claim_ok_def slot_tolerates_def using flows_not_free by blast

lemma neutral_acts: "claim_ok i h s \<Longrightarrow> slot_neutral i s s' \<Longrightarrow> slot_acts i h s h s' \<and> claim_ok i h s'"
  unfolding claim_ok_def slot_neutral_def slot_acts_def using flows_not_free by blast

lemma neutral_safe:
  assumes "only (slot_neutral i) p" "claim_ok i h s"
  shows "safe (\<lambda>_. True) (slot_tolerates i) (slot_acts i) (\<lambda>_ h' s. h' = h \<and> claim_ok i h s) p h s"
  by (rule only_safe[OF assms(1)]) (use neutral_acts claim_stable assms(2) in blast)+

lemma slot_st_upd:
  assumes "wf_shmem s" "i' < POC_SHARD_COUNT" "j' < POC_SLOTS_PER_SHARD"
  shows "slot_st i j (upd_slot i' j' f s) = (if i = i' \<and> j = j' then sl_state (f (slot_at i' j' s)) else slot_st i j s)"
  using assms by (simp add: slot_st_def slot_at_upd)

lemma slot_st_other [simp]:
  "slot_st i j (upd_shard i' f s) = slot_st i j s" "slot_st i j (upd_request i' k g s) = slot_st i j s"
  by (simp_all add: slot_st_def)

lemma neutral_upd [simp]:
  "slot_neutral i s (upd_shard i' f s)" "slot_neutral i s (upd_request i' k g s)"
  by (simp_all add: slot_neutral_def)

lemma neutral_slot_field:
  "i' < POC_SHARD_COUNT \<Longrightarrow> j < POC_SLOTS_PER_SHARD \<Longrightarrow> (\<And>r. sl_state (f r) = sl_state r) \<Longrightarrow>
    slot_neutral i s (upd_slot i' j f s)"
  by (simp add: slot_neutral_def slot_st_upd) (simp add: slot_st_def)

lemma neutral_slot_set:
  "i' < POC_SHARD_COUNT \<Longrightarrow> j < POC_SLOTS_PER_SHARD \<Longrightarrow> slot_st i' j s = SLOT_ALLOCATED \<Longrightarrow>
    v = SLOT_FILLED \<or> v = SLOT_ABANDONED \<Longrightarrow> slot_neutral i s (upd_slot i' j (\<lambda>r. r\<lparr>sl_state := v\<rparr>) s)"
  by (auto simp: slot_neutral_def slot_st_upd flows_def)
lemma neutral_cas:
  assumes "i' < POC_SHARD_COUNT" "j < POC_SLOTS_PER_SHARD" "v = SLOT_FILLED \<or> v = SLOT_ABANDONED"
  shows "only (slot_neutral i) (cas_slot_state i' j SLOT_ALLOCATED v)"
  unfolding cas_slot_state_def
  by (rule only_compare_exchange, rule neutral_slot_set) (simp_all add: assms slot_st_def)

lemma neutral_exclusive: "only (slot_neutral i) p \<Longrightarrow> only (slot_neutral i) (exclusive p)"
  by (rule only_exclusive) (auto intro: slot_neutral_trans)

lemmas slot_refs = slot_ref_def

lemma neutral_fill [only_intros]: "only (slot_neutral i) (fill_slot_result_with_error i' j uc tc ctx err)"
  unfolding fill_slot_result_with_error_def Let_def
  by (intro only_intros neutral_cas) (auto simp: slot_refs intro!: neutral_slot_field)

lemma neutral_read [only_intros]: "only (slot_neutral i) (read_slot_result_with_error i' j)"
  unfolding read_slot_result_with_error_def Let_def by (intro only_intros) auto

lemma neutral_mark [only_intros]:
  "only (slot_neutral i) (mark_slot_filled i' j)" "only (slot_neutral i) (mark_slot_abandoned i' j)"
  unfolding mark_slot_filled_def mark_slot_abandoned_def
  by (intro only_intros neutral_cas; simp add: slot_refs)+

lemma neutral_slot_reads [only_intros]:
  "only (slot_neutral i) (slot_state i' j)" "only (slot_neutral i) (read_slot_waiter_pid i' j)"
  "only (slot_neutral i) (read_set_latched_at_ns i' j)"
  unfolding slot_state_def read_slot_waiter_pid_def read_set_latched_at_ns_def by (auto intro!: only_intros)

lemma neutral_slot_stamps [only_intros]:
  "only (slot_neutral i) (set_slot_waiter_pid i' j p)" "only (slot_neutral i) (stamp_set_latched_at_ns i' j now)"
  unfolding set_slot_waiter_pid_def stamp_set_latched_at_ns_def
  by (auto intro!: only_intros neutral_slot_field simp: slot_refs)

lemma neutral_shard_cas:
  "only (slot_neutral i) (compare_exchange get (\<lambda>v. upd_shard i' (f v)) c n)"
  by (intro only_intros) simp_all

lemma neutral_waiter [only_intros]:
  "only (slot_neutral i) (set_ring_full_waiter i' p)" "only (slot_neutral i) (clear_ring_full_waiter_if_self i' p)"
  "only (slot_neutral i) (read_ring_full_waiter i')"
  unfolding set_ring_full_waiter_def clear_ring_full_waiter_if_self_def read_ring_full_waiter_def cas_ring_full_waiter_def
  by (intro only_intros neutral_shard_cas; simp)+

lemma neutral_reserve:
  "(\<And>idx q. only (slot_neutral i) (w idx q)) \<Longrightarrow> only (slot_neutral i) (ring_reserve i' w)"
  unfolding ring_reserve_def Let_def by (intro neutral_exclusive only_intros) (auto intro!: only_intros)

lemma neutral_request_stores [only_intros]: "only (slot_neutral i) (stores (map (upd_request i' k) us))"
  by (rule only_stores) auto

lemma neutral_push_compensate [only_intros]: "only (slot_neutral i) (ring_push_compensate i' xid)"
  unfolding ring_push_compensate_def by (intro neutral_reserve only_intros)

lemma neutral_push_apply [only_intros]:
  assumes "i' < POC_SHARD_COUNT"
  shows "only (slot_neutral i) (ring_push_apply i' d)"
  unfolding ring_push_apply_def using assms by (intro neutral_reserve only_intros) (auto intro!: neutral_slot_field)

lemma neutral_drain_entries: "only (slot_neutral i) (drain_entries i' kind copy h k n c out)"
  by (induction n arbitrary: k c out) (auto intro!: only_intros simp: Let_def)

lemma neutral_drain [only_intros]:
  "only (slot_neutral i) (drain_apply_batch i' n)" "only (slot_neutral i) (drain_compensate_batch i' n)"
  unfolding drain_apply_batch_def drain_compensate_batch_def drain_batch_def Let_def
  by (intro neutral_exclusive only_intros; auto intro!: only_intros neutral_drain_entries split: prod.splits)+

lemma neutral_lease [only_intros]:
  "only (slot_neutral i) (try_acquire_or_takeover kill i' p now)" "only (slot_neutral i) (release_committer i')"
  "only (slot_neutral i) (try_acquire_committer i' p now)" "only (slot_neutral i) (next_committer_tx_id i')"
  "only (slot_neutral i) (read_committer_pid i')"
proof -
  have rec: "slot_neutral i s (s\<lparr>ar_recovery := v\<rparr>)" for s :: "'a shmem_scheme" and v
    by (simp add: slot_neutral_def wf_shmem_def slot_st_def slot_at_def)
  show "only (slot_neutral i) (try_acquire_or_takeover kill i' p now)"
    unfolding try_acquire_or_takeover_def contend_def take_over_def cas_committer_def stamp_committer_def pg_pid_alive_def
    by (auto intro!: only_intros neutral_shard_cas rec split: sum.splits)
qed (auto simp: release_committer_def try_acquire_committer_def next_committer_tx_id_def read_committer_pid_def
    cas_committer_def stamp_committer_def intro!: only_intros neutral_shard_cas split: sum.splits)
abbreviation slot_safe ::
  "nat \<Rightarrow> ('a \<Rightarrow> nat set \<Rightarrow> 'z shmem_scheme \<Rightarrow> bool) \<Rightarrow> ('z shmem_scheme, 'a) prog \<Rightarrow> nat set \<Rightarrow> 'z shmem_scheme \<Rightarrow> bool" where
  "slot_safe i \<equiv> safe (\<lambda>_. True) (slot_tolerates i) (slot_acts i)"

lemma slot_bind:
  assumes "slot_safe i Q p h s" "\<And>x h s. Q x h s \<Longrightarrow> slot_safe i Q' (f x) h s"
  shows "slot_safe i Q' (pbind p f) h s"
  using assms by (rule slots.bind_safe)

lemma slot_return: "claim_ok i h s \<Longrightarrow> (\<And>s. claim_ok i h s \<Longrightarrow> Q x h s) \<Longrightarrow> slot_safe i Q (Return x) h s"
  by (auto dest: claim_stable)

lemma slot_step:
  assumes "claim_ok i h s"
    "\<And>s'. claim_ok i h s' \<Longrightarrow> slot_tolerates i h s s' \<Longrightarrow>
      slot_acts i h s' (g s') (u s') \<and> slot_safe i Q (k s') (g s') (u s')"
  shows "slot_safe i Q (Step u k) h s"
  using assms claim_stable by (metis safe.simps(3))

lemma cas_alloc_safe:
  fixes s :: "'z shmem_scheme"
  assumes "claim_ok i h s" "j < POC_SLOTS_PER_SHARD"
  shows "slot_safe i (\<lambda>r h' s. claim_ok i h' s \<and> (case r of Inr _ \<Rightarrow> h' = insert j h \<and> j \<notin> h | Inl _ \<Rightarrow> h' = h))
    (cas_slot_state i j SLOT_FREE SLOT_ALLOCATED) h s"
  unfolding cas_slot_state_def compare_exchange_def
proof (rule slot_step[OF assms(1), where g = "\<lambda>s. if slot_st i j s = SLOT_FREE then insert j h else h"])
  fix s' :: "'z shmem_scheme" assume c: "claim_ok i h s'"
  show "slot_acts i h s' (if slot_st i j s' = SLOT_FREE then insert j h else h)
      (if sl_state (slot_at i j s') = SLOT_FREE then upd_slot i j (\<lambda>r. r\<lparr>sl_state := SLOT_ALLOCATED\<rparr>) s' else s') \<and>
    slot_safe i (\<lambda>r h' s. claim_ok i h' s \<and> (case r of Inr _ \<Rightarrow> h' = insert j h \<and> j \<notin> h | Inl _ \<Rightarrow> h' = h))
      (Return (if sl_state (slot_at i j s') = SLOT_FREE then Inr SLOT_FREE else Inl (sl_state (slot_at i j s'))))
      (if slot_st i j s' = SLOT_FREE then insert j h else h)
      (if sl_state (slot_at i j s') = SLOT_FREE then upd_slot i j (\<lambda>r. r\<lparr>sl_state := SLOT_ALLOCATED\<rparr>) s' else s')"
  proof (cases "slot_st i j s' = SLOT_FREE")
    case True
    let ?s = "upd_slot i j (\<lambda>r. r\<lparr>sl_state := SLOT_ALLOCATED\<rparr>) s'"
    have j: "j \<notin> h" using c True by (auto simp: claim_ok_def)
    have st: "slot_st i j' ?s = (if j' = j then SLOT_ALLOCATED else slot_st i j' s')" for j'
      using c assms(2) by (simp add: claim_ok_def slot_st_upd)
    have "SLOT_ALLOCATED \<noteq> SLOT_FREE" by (simp add: slot_states)
    then have "slot_acts i h s' (insert j h) ?s" "claim_ok i (insert j h) ?s"
      using c assms(2) True st j by (auto simp: slot_acts_def claim_ok_def)
    then show ?thesis using True j slot_return[of i "insert j h" ?s] by (simp add: slot_st_def)
  next
    case False
    have "slot_acts i h s' h s'" using neutral_acts[OF c slot_neutral_refl] by blast
    then show ?thesis using False c slot_return[OF c] by (simp add: slot_st_def)
  qed
qed

definition acquired :: "nat \<Rightarrow> nat set \<Rightarrow> u32 option \<Rightarrow> nat set \<Rightarrow> 'z shmem_scheme \<Rightarrow> bool" where
  "acquired i h r h' s \<longleftrightarrow> claim_ok i h' s \<and>
    (case r of None \<Rightarrow> h' = h | Some j \<Rightarrow> h' = insert (unat j) h \<and> unat j \<notin> h \<and> unat j < POC_SLOTS_PER_SHARD)"

lemma probe_safe:
  assumes "claim_ok i h s"
  shows "slot_safe i (acquired i h) (probe_slot i now n) h s"
  using assms
proof (induction n arbitrary: s)
  case 0
  then show ?case by (auto intro!: slot_return simp: acquired_def simp del: safe.simps)
next
  case (Suc n)
  let ?fetch = "fetch_update (\<lambda>s. sh_next_slot_seq (shard_at i s))
      (upd_shard i (\<lambda>h. h\<lparr>sh_next_slot_seq := sh_next_slot_seq h + 1\<rparr>)) :: ('a shmem_scheme, u64) prog"
  have 1: "slot_safe i (\<lambda>_ h' s. h' = h \<and> claim_ok i h s) ?fetch h s"
    by (rule neutral_safe[OF _ Suc.prems]) (intro only_intros neutral_upd)
  show ?case unfolding probe_slot.simps
  proof (rule slot_bind[OF 1], unfold Let_def, rule slot_bind)
    fix sq :: u64 and h' and s1 :: "'a shmem_scheme"
    assume s1: "h' = h \<and> claim_ok i h s1"
    let ?idx = "unat sq mod POC_SLOTS_PER_SHARD"
    have idx: "?idx < POC_SLOTS_PER_SHARD" by (simp add: poc_sizes)
    show "slot_safe i (\<lambda>r h' s. claim_ok i h' s \<and> (case r of Inr _ \<Rightarrow> h' = insert ?idx h \<and> ?idx \<notin> h | Inl _ \<Rightarrow> h' = h))
      (cas_slot_state i ?idx SLOT_FREE SLOT_ALLOCATED) h' s1"
      using cas_alloc_safe[OF _ idx] s1 by blast
    fix r :: "u8 + u8" and h2 and s2 :: "'a shmem_scheme"
    assume s2: "claim_ok i h2 s2 \<and> (case r of Inr _ \<Rightarrow> h2 = insert ?idx h \<and> ?idx \<notin> h | Inl _ \<Rightarrow> h2 = h)"
    have i: "i < POC_SHARD_COUNT" using Suc.prems by (simp add: claim_ok_def)
    show "slot_safe i (acquired i h)
      (case r of Inl _ \<Rightarrow> probe_slot i now n
       | Inr _ \<Rightarrow> pbind (store (upd_slot i ?idx (\<lambda>r. r\<lparr>sl_acquired_at_ns := now\<rparr>))) (\<lambda>_. Return (Some (of_nat ?idx)))) h2 s2"
    proof (cases r)
      case (Inl v)
      then show ?thesis using Suc.IH s2 by auto
    next
      case (Inr v)
      have "slot_safe i (\<lambda>_ h' s. h' = h2 \<and> claim_ok i h2 s) (store (upd_slot i ?idx (\<lambda>r. r\<lparr>sl_acquired_at_ns := now\<rparr>))) h2 s2"
        by (rule neutral_safe) (use s2 i idx in \<open>auto intro!: only_intros neutral_slot_field\<close>)
      then show ?thesis unfolding Inr sum.case
      proof (rule slot_bind)
        fix h3 and s3 :: "'a shmem_scheme" assume "h3 = h2 \<and> claim_ok i h2 s3"
        moreover have "unat (of_nat ?idx :: u32) = ?idx" using idx by (simp add: unat_of_nat poc_sizes)
        ultimately show "slot_safe i (acquired i h) (Return (Some (of_nat ?idx))) h3 s3"
          using s2 Inr idx by (intro slot_return) (auto simp: acquired_def)
      qed
    qed
  qed
qed

lemma acquire_safe: "claim_ok i h s \<Longrightarrow> slot_safe i (acquired i h) (acquire_slot i now) h s"
  using probe_safe by (simp add: acquire_slot_def guarded_def claim_ok_def del: probe_slot.simps)
text \<open>Recycling: once a holder has seen its slot filled or abandoned, nobody moves the state but itself.\<close>

abbreviation settled :: "nat \<Rightarrow> nat set \<Rightarrow> nat \<Rightarrow> u8 \<Rightarrow> 'z shmem_scheme \<Rightarrow> bool" where
  "settled i h j cur s \<equiv> claim_ok i h s \<and> slot_st i j s = cur"

lemma settled_stable:
  assumes "settled i h j cur s" "slot_tolerates i h s s'" "j \<in> h" "cur = SLOT_FILLED \<or> cur = SLOT_ABANDONED"
  shows "settled i h j cur s'"
proof -
  have "flows (slot_st i j s) (slot_st i j s')" using assms by (auto simp: slot_tolerates_def claim_ok_def)
  then show ?thesis using assms claim_stable[of i h s s'] by (auto simp: flows_def slot_states)
qed

lemma load_state_safe:
  fixes s :: "'z shmem_scheme"
  assumes "claim_ok i h s" "j \<in> h"
  shows "slot_safe i (\<lambda>cur h' s. h' = h \<and> claim_ok i h s \<and> (cur = SLOT_FILLED \<or> cur = SLOT_ABANDONED \<longrightarrow> slot_st i j s = cur))
    (load (\<lambda>s. sl_state (slot_at i j s))) h s"
  unfolding load_def
proof (rule slot_step[OF assms(1), where g = "\<lambda>_. h"])
  fix s' :: "'z shmem_scheme" assume c: "claim_ok i h s'"
  have "slot_safe i (\<lambda>cur h' s. h' = h \<and> claim_ok i h s \<and> (cur = SLOT_FILLED \<or> cur = SLOT_ABANDONED \<longrightarrow> slot_st i j s = cur))
      (Return (sl_state (slot_at i j s'))) h s'"
    using c settled_stable[of i h s' j "slot_st i j s'"] claim_stable[OF c] assms(2) by (auto simp: slot_st_def)
  then show "slot_acts i h s' h s' \<and> slot_safe i (\<lambda>cur h' s. h' = h \<and> claim_ok i h s \<and>
      (cur = SLOT_FILLED \<or> cur = SLOT_ABANDONED \<longrightarrow> slot_st i j s = cur)) (Return (sl_state (slot_at i j s'))) h s'"
    using neutral_acts[OF c slot_neutral_refl] by blast
qed

lemma settled_stores:
  fixes s :: "'z shmem_scheme"
  assumes "settled i h j cur s" "cur = SLOT_FILLED \<or> cur = SLOT_ABANDONED" "j \<in> h"
    and "\<And>u. u \<in> set us \<Longrightarrow> \<exists>f. u = upd_slot i j f \<and> (\<forall>r. sl_state (f r) = sl_state r)"
  shows "slot_safe i (\<lambda>_ h' s. h' = h \<and> settled i h j cur s) (stores us) h s"
proof -
  let ?G = "\<lambda>s s' :: 'z shmem_scheme. slot_neutral i s s' \<and> (wf_shmem s \<longrightarrow> slot_st i j s' = slot_st i j s)"
  have ij: "i < POC_SHARD_COUNT" "j < POC_SLOTS_PER_SHARD" using assms(1,3) by (auto simp: claim_ok_def)
  show ?thesis
  proof (rule only_safe[where G = ?G])
    show "only ?G (stores us)"
    proof (rule only_stores)
      fix u and s :: "'z shmem_scheme" assume "u \<in> set us"
      then obtain f where "u = upd_slot i j f" "\<And>r. sl_state (f r) = sl_state r" using assms(4) by blast
      then show "?G s (u s)"
        using ij neutral_slot_field[of i j f i s] by (simp add: slot_st_upd) (simp add: slot_st_def)
    qed
    show "slot_acts i h s h s' \<and> settled i h j cur s'" if "settled i h j cur s" "?G s s'" for s s' :: "'z shmem_scheme"
      using that neutral_acts[of i h s s'] by (auto simp: claim_ok_def)
  qed (use assms(1-3) settled_stable in blast)+
qed

lemma free_safe:
  fixes s :: "'z shmem_scheme"
  assumes "claim_ok i h s" "j \<in> h"
  shows "slot_safe i (\<lambda>_ h' s. h' = h - {j} \<and> claim_ok i h' s) (store (upd_slot i j (\<lambda>r. r\<lparr>sl_state := SLOT_FREE\<rparr>))) h s"
  unfolding store_def
proof (rule slot_step[OF assms(1), where g = "\<lambda>_. h - {j}"])
  fix s' :: "'z shmem_scheme" assume c: "claim_ok i h s'"
  let ?s = "upd_slot i j (\<lambda>r. r\<lparr>sl_state := SLOT_FREE\<rparr>) s'"
  have "slot_st i j' ?s = (if j' = j then SLOT_FREE else slot_st i j' s')" for j'
    using c assms(2) by (auto simp: claim_ok_def slot_st_upd)
  then have "slot_acts i h s' (h - {j}) ?s" "claim_ok i (h - {j}) ?s"
    using c assms(2) by (auto simp: slot_acts_def claim_ok_def)
  then show "slot_acts i h s' (h - {j}) ?s \<and> slot_safe i (\<lambda>_ h' s. h' = h - {j} \<and> claim_ok i h' s) (Return ()) (h - {j}) ?s"
    using slot_return[of i "h - {j}" ?s] by simp
qed

definition recycled :: "nat \<Rightarrow> nat set \<Rightarrow> nat \<Rightarrow> u8 + u8 \<Rightarrow> nat set \<Rightarrow> 'z shmem_scheme \<Rightarrow> bool" where
  "recycled i h j r h' s \<longleftrightarrow> claim_ok i h' s \<and> (case r of Inr _ \<Rightarrow> h' = h - {j} | Inl _ \<Rightarrow> h' = h)"

lemma recycle_safe:
  fixes s :: "'z shmem_scheme"
  assumes "claim_ok i h s" "unat j \<in> h"
  shows "slot_safe i (recycled i h (unat j)) (recycle_slot i j) h s"
proof -
  let ?j = "unat j"
  have ref: "slot_ref i j" using assms by (auto simp: claim_ok_def slot_ref_def)
  have free: "slot_safe i (recycled i h ?j)
      (pbind (store (upd_slot i ?j (\<lambda>r. r\<lparr>sl_state := SLOT_FREE\<rparr>))) (\<lambda>_. Return (Inr cur))) h1 s1"
    if "h1 = h \<and> settled i h ?j cur s1" for cur h1 and s1 :: "'z shmem_scheme"
    using that assms(2) by (auto intro!: slot_bind[OF free_safe] slot_return simp: recycled_def simp del: safe.simps)
  have clear: "slot_safe i (recycled i h ?j)
      (pbind (stores (map (upd_slot i ?j) clean_slot)) (\<lambda>_.
       pbind (stores (map (\<lambda>n. upd_slot i ?j (\<lambda>r. r\<lparr>sl_depletion_ids_inline := (sl_depletion_ids_inline r)[n := 0]\<rparr>)) [0..<32])) (\<lambda>_.
       pbind (store (upd_slot i ?j (\<lambda>r. r\<lparr>sl_state := SLOT_FREE\<rparr>))) (\<lambda>_. Return (Inr cur))))) h s1"
    if "settled i h ?j cur s1" "cur = SLOT_FILLED \<or> cur = SLOT_ABANDONED" for cur and s1 :: "'z shmem_scheme"
  proof (rule slot_bind[OF settled_stores[OF that assms(2)]])
    fix h2 and s2 :: "'z shmem_scheme" assume s2: "h2 = h \<and> settled i h ?j cur s2"
    show "slot_safe i (recycled i h ?j) (pbind (stores (map (\<lambda>n. upd_slot i ?j
        (\<lambda>r. r\<lparr>sl_depletion_ids_inline := (sl_depletion_ids_inline r)[n := 0]\<rparr>)) [0..<32])) (\<lambda>_.
        pbind (store (upd_slot i ?j (\<lambda>r. r\<lparr>sl_state := SLOT_FREE\<rparr>))) (\<lambda>_. Return (Inr cur)))) h2 s2"
      unfolding s2[THEN conjunct1]
      by (rule slot_bind[OF settled_stores[OF s2[THEN conjunct2] that(2) assms(2)]]) (auto intro!: free simp del: safe.simps)
  qed (auto simp: clean_slot_def)
  show ?thesis unfolding recycle_slot_def Let_def guarded_def if_P[OF ref]
  proof (rule slot_bind[OF load_state_safe[OF assms]])
    fix cur h1 and s1 :: "'z shmem_scheme"
    assume a: "h1 = h \<and> claim_ok i h s1 \<and> (cur = SLOT_FILLED \<or> cur = SLOT_ABANDONED \<longrightarrow> slot_st i ?j s1 = cur)"
    show "slot_safe i (recycled i h ?j)
      (if cur \<noteq> SLOT_FILLED \<and> cur \<noteq> SLOT_ABANDONED then Return (Inl cur)
       else pbind (stores (map (upd_slot i ?j) clean_slot)) (\<lambda>_.
         pbind (stores (map (\<lambda>n. upd_slot i ?j (\<lambda>r. r\<lparr>sl_depletion_ids_inline := (sl_depletion_ids_inline r)[n := 0]\<rparr>)) [0..<32])) (\<lambda>_.
         pbind (store (upd_slot i ?j (\<lambda>r. r\<lparr>sl_state := SLOT_FREE\<rparr>))) (\<lambda>_. Return (Inr cur))))) h1 s1"
      using a clear[of s1 cur] slot_return[of i h s1 "recycled i h ?j" "Inl cur"] by (auto simp: recycled_def simp del: safe.simps)
  qed
qed

lemma neutral_elsewhere:
  "i' \<noteq> i \<Longrightarrow> i' < POC_SHARD_COUNT \<Longrightarrow> j < POC_SLOTS_PER_SHARD \<Longrightarrow> slot_neutral i s (upd_slot i' j f s)"
  by (simp add: slot_neutral_def slot_st_upd)

lemma neutral_acquire_elsewhere:
  assumes "i' \<noteq> i"
  shows "only (slot_neutral i) (acquire_slot i' now)"
proof -
  have "only (slot_neutral i) (probe_slot i' now n)" if "i' < POC_SHARD_COUNT" for n
    using that assms
    by (induction n) (auto simp: Let_def cas_slot_state_def poc_sizes split: sum.splits
        intro!: only_intros neutral_elsewhere)
  then show ?thesis by (auto simp: acquire_slot_def intro!: only_guarded)
qed

lemma neutral_recycle_elsewhere:
  assumes "i' \<noteq> i"
  shows "only (slot_neutral i) (recycle_slot i' j)"
  unfolding recycle_slot_def Let_def using assms
  by (auto simp: slot_refs intro!: only_intros neutral_elsewhere)

section \<open>The committer lease\<close>

text \<open>
  Backends die: the process table is part of the state, \<open>kill(pid, 0)\<close> looks a process up in it, a
  dead process takes no more steps and its number is not given to another one.
\<close>

record machine = shmem +
  live :: "pid set"

definition kill_probe :: "'z machine_scheme \<Rightarrow> pid \<Rightarrow> int" where
  "kill_probe s p = (if p \<in> live s then 0 else - 1)"

definition lease_of :: "nat \<Rightarrow> 'z machine_scheme \<Rightarrow> pid" where
  "lease_of i s = sh_committer_pid (shard_at i s)"

text \<open>\<open>pid_of\<close> gives the process of a thread; a thread without one is the environment, which may kill.\<close>

definition lease_tolerates :: "nat \<Rightarrow> (nat \<Rightarrow> pid option) \<Rightarrow> nat \<Rightarrow> unit \<Rightarrow> 'z machine_scheme \<Rightarrow> 'z machine_scheme \<Rightarrow> bool" where
  "lease_tolerates i pid_of t h s s' \<longleftrightarrow> (wf_shmem s \<longrightarrow> wf_shmem s' \<and> live s' \<subseteq> live s \<and>
    (\<forall>p. pid_of t = Some p \<longrightarrow> p \<in> live s' \<longrightarrow> (lease_of i s = p \<longleftrightarrow> lease_of i s' = p)))"

definition lease_acts :: "nat \<Rightarrow> (nat \<Rightarrow> pid option) \<Rightarrow> nat \<Rightarrow> unit \<Rightarrow> 'z machine_scheme \<Rightarrow> unit \<Rightarrow> 'z machine_scheme \<Rightarrow> bool" where
  "lease_acts i pid_of t h s h' s' \<longleftrightarrow> (wf_shmem s \<longrightarrow> wf_shmem s' \<and> live s' \<subseteq> live s \<and>
    (\<forall>p. pid_of t \<noteq> Some p \<longrightarrow> p \<noteq> 0 \<longrightarrow> p \<in> live s' \<longrightarrow> (lease_of i s = p \<longleftrightarrow> lease_of i s' = p)))"

definition lease_processes :: "(nat \<Rightarrow> pid option) \<Rightarrow> (nat \<Rightarrow> unit) \<Rightarrow> 'z machine_scheme \<Rightarrow> bool" where
  "lease_processes pid_of H s \<longleftrightarrow> wf_shmem s \<and>
    (\<forall>t u p. pid_of t = Some p \<longrightarrow> pid_of u = Some p \<longrightarrow> t = u) \<and> (\<forall>t. pid_of t \<noteq> Some 0)"

definition runs :: "(nat \<Rightarrow> pid option) \<Rightarrow> nat \<Rightarrow> 'z machine_scheme \<Rightarrow> bool" where
  "runs pid_of t s \<longleftrightarrow> (\<forall>p. pid_of t = Some p \<longrightarrow> p \<in> live s)"

interpretation lease: interference "lease_tolerates i pid_of" "lease_acts i pid_of" "lease_processes pid_of" "runs pid_of"
proof
  fix t h and s s' s'' :: "'z machine_scheme"
  show "lease_tolerates i pid_of t h s s" by (simp add: lease_tolerates_def)
  show "lease_tolerates i pid_of t h s s''" if "lease_tolerates i pid_of t h s s'" "lease_tolerates i pid_of t h s' s''"
    using that unfolding lease_tolerates_def by blast
next
  fix H t h' and s s' :: "'z machine_scheme"
  assume a: "lease_processes pid_of H s" "lease_acts i pid_of t (H t) s h' s'"
  then show "lease_processes pid_of (H(t := h')) s'"
    unfolding lease_processes_def lease_acts_def by blast
  fix u :: nat assume "u \<noteq> t"
  then have "pid_of t \<noteq> Some p \<and> p \<noteq> 0" if "pid_of u = Some p" for p
    using a(1) that unfolding lease_processes_def by blast
  then show "lease_tolerates i pid_of u (H u) s s'"
    using a unfolding lease_processes_def lease_acts_def lease_tolerates_def by blast
qed

definition won :: "TakeoverOutcome \<Rightarrow> bool" where
  "won r \<longleftrightarrow> r \<noteq> Held \<and> r \<noteq> Lost"

text \<open>Steps that have nothing to do with the lease.\<close>

definition lease_neutral :: "nat \<Rightarrow> 'z machine_scheme \<Rightarrow> 'z machine_scheme \<Rightarrow> bool" where
  "lease_neutral i s s' \<longleftrightarrow> (wf_shmem s \<longrightarrow> wf_shmem s' \<and> lease_of i s' = lease_of i s \<and> live s' = live s)"

abbreviation lease_safe ::
  "nat \<Rightarrow> (nat \<Rightarrow> pid option) \<Rightarrow> nat \<Rightarrow> ('a \<Rightarrow> unit \<Rightarrow> 'z machine_scheme \<Rightarrow> bool) \<Rightarrow> ('z machine_scheme, 'a) prog \<Rightarrow> unit \<Rightarrow> 'z machine_scheme \<Rightarrow> bool" where
  "lease_safe i pid_of t \<equiv> safe (runs pid_of t) (lease_tolerates i pid_of t) (lease_acts i pid_of t)"

definition sane :: "'z machine_scheme \<Rightarrow> bool" where
  "sane s \<longleftrightarrow> wf_shmem s \<and> live s \<subseteq> {0<..}"

definition holds :: "nat \<Rightarrow> pid \<Rightarrow> 'z machine_scheme \<Rightarrow> bool" where
  "holds i p s \<longleftrightarrow> sane s \<and> (p \<in> live s \<longrightarrow> lease_of i s = p)"

lemma sane_stable: "sane s \<Longrightarrow> lease_tolerates i pid_of t h s s' \<Longrightarrow> sane s'"
  unfolding sane_def lease_tolerates_def by blast

lemma holds_stable: "pid_of t = Some p \<Longrightarrow> holds i p s \<Longrightarrow> lease_tolerates i pid_of t h s s' \<Longrightarrow> holds i p s'"
  unfolding holds_def sane_def lease_tolerates_def by blast

lemma lease_of_upd:
  assumes "wf_shmem s" "i < POC_SHARD_COUNT"
  shows "lease_of i (upd_shard i f s) = sh_committer_pid (f (shard_at i s))"
  using assms by (simp add: lease_of_def shard_at_upd)

lemma live_upd [simp]: "live (upd_shard i f s) = live s" "live (upd_slot i j g s) = live s" "live (upd_request i k h s) = live s"
  by (simp_all add: upd_shard_def upd_slot_def upd_request_def)

lemma lease_neutral_safe:
  assumes "only (lease_neutral i) p" "sane s"
  shows "lease_safe i pid_of t (\<lambda>_ _. sane) p () s"
proof (rule safe_mono[OF only_safe[OF assms(1), where I = sane]])
  fix s s' assume "sane s" "lease_neutral i s s'"
  then show "lease_acts i pid_of t () s () s' \<and> sane s'" by (simp add: lease_neutral_def lease_acts_def sane_def)
qed (use assms(2) sane_stable in blast)+

lemma lease_neutral_holds:
  assumes "only (lease_neutral i) p" "holds i q s" "pid_of t = Some q"
  shows "lease_safe i pid_of t (\<lambda>_ _. holds i q) p () s"
proof (rule safe_mono[OF only_safe[OF assms(1), where I = "holds i q"]])
  fix s s' assume "holds i q s" "lease_neutral i s s'"
  then show "lease_acts i pid_of t () s () s' \<and> holds i q s'"
    by (simp add: lease_neutral_def lease_acts_def holds_def sane_def)
qed (use assms(2,3) holds_stable in blast)+

lemma lease_return:
  "sane s \<Longrightarrow> (\<And>s'. sane s' \<Longrightarrow> lease_tolerates i pid_of t () s s' \<Longrightarrow> Q x () s') \<Longrightarrow>
    lease_safe i pid_of t Q (Return x) () s"
  by (auto dest: sane_stable)

lemma lease_step:
  assumes "sane s"
    "\<And>s'. sane s' \<Longrightarrow> lease_tolerates i pid_of t () s s' \<Longrightarrow> runs pid_of t s' \<Longrightarrow>
      lease_acts i pid_of t () s' () (u s') \<and> lease_safe i pid_of t Q (k s') () (u s')"
  shows "lease_safe i pid_of t Q (Step u k) () s"
  unfolding safe.simps using assms sane_stable by blast

lemma lease_bind:
  assumes "lease_safe i pid_of t Q p () s" "\<And>x s. Q x () s \<Longrightarrow> lease_safe i pid_of t Q' (f x) () s"
  shows "lease_safe i pid_of t Q' (pbind p f) () s"
  using assms(1) by (rule lease.bind_safe) (use assms(2) in simp)

lemma cas_lease_safe:
  assumes "sane s" "i < POC_SHARD_COUNT" "pid_of t = Some p" "c = 0 \<or> c \<notin> live s"
  shows "lease_safe i pid_of t (\<lambda>r _ s. sane s \<and> (case r of Inr _ \<Rightarrow> holds i p s | Inl _ \<Rightarrow> True)) (cas_committer i c p) () s"
  unfolding cas_committer_def compare_exchange_def
proof (rule lease_step[OF assms(1)])
  fix s' assume s': "sane s'" "lease_tolerates i pid_of t () s s'"
  let ?s = "upd_shard i (\<lambda>h. h\<lparr>sh_committer_pid := p\<rparr>) s'"
  have c: "c = 0 \<or> c \<notin> live s'" using assms(1,4) s'(2) by (auto simp: lease_tolerates_def sane_def)
  have lease: "lease_of i ?s = p" using s'(1) assms(2) by (simp add: lease_of_upd sane_def)
  have hold: "holds i p ?s" using s'(1) lease by (simp add: holds_def sane_def)
  have acts: "lease_acts i pid_of t () s' () (if sh_committer_pid (shard_at i s') = c then ?s else s')"
    using s'(1) c lease assms(3) by (auto simp: lease_acts_def sane_def lease_of_def)
  show "lease_acts i pid_of t () s' () (if sh_committer_pid (shard_at i s') = c then ?s else s') \<and>
    lease_safe i pid_of t (\<lambda>r _ s. sane s \<and> (case r of Inr _ \<Rightarrow> holds i p s | Inl _ \<Rightarrow> True))
      (Return (if sh_committer_pid (shard_at i s') = c then Inr c else Inl (sh_committer_pid (shard_at i s')))) ()
      (if sh_committer_pid (shard_at i s') = c then ?s else s')"
  proof (cases "sh_committer_pid (shard_at i s') = c")
    case True
    have "lease_safe i pid_of t (\<lambda>r _ s. sane s \<and> (case r of Inr _ \<Rightarrow> holds i p s | Inl _ \<Rightarrow> True)) (Return (Inr c)) () ?s"
      using hold holds_stable[of pid_of t p i, OF assms(3) hold] sane_stable by (auto simp: holds_def)
    then show ?thesis using acts True by simp
  next
    case False
    have "lease_safe i pid_of t (\<lambda>r _ s. sane s \<and> (case r of Inr _ \<Rightarrow> holds i p s | Inl _ \<Rightarrow> True))
      (Return (Inl (sh_committer_pid (shard_at i s')))) () s'"
      using s'(1) sane_stable by auto
    then show ?thesis using acts False by simp
  qed
qed

lemma neutral_stamp_committer: "i < POC_SHARD_COUNT \<Longrightarrow> only (lease_neutral i) (stamp_committer i now)"
  unfolding stamp_committer_def
  by (intro only_intros) (simp add: lease_neutral_def lease_of_upd, simp add: lease_of_def)

lemma alive_safe:
  assumes "sane s"
  shows "lease_safe i pid_of t (\<lambda>alive _ s. sane s \<and> (\<not> alive \<longrightarrow> q \<notin> live s)) (pg_pid_alive kill_probe q) () s"
proof (cases "q \<le> 0")
  case True
  then show ?thesis unfolding pg_pid_alive_def if_P[OF True]
    by (intro lease_return[OF assms]) (auto simp: sane_def)
next
  case False
  show ?thesis unfolding pg_pid_alive_def if_not_P[OF False] load_def pbind.simps
  proof (rule lease_step[OF assms])
    fix s' assume s': "sane s'"
    have "lease_safe i pid_of t (\<lambda>alive _ s. sane s \<and> (\<not> alive \<longrightarrow> q \<notin> live s)) (Return (kill_probe s' q = 0)) () s'"
      by (rule lease_return[OF s']) (use s' in \<open>auto simp: kill_probe_def lease_tolerates_def sane_def split: if_splits\<close>)
    then show "lease_acts i pid_of t () s' () s' \<and>
      lease_safe i pid_of t (\<lambda>alive _ s. sane s \<and> (\<not> alive \<longrightarrow> q \<notin> live s)) (Return (kill_probe s' q = 0)) () s'"
      by (simp add: lease_acts_def)
  qed
qed
lemma lease_read: "only (lease_neutral i) (load get)"
  by (intro only_intros) (simp add: lease_neutral_def)

definition contest :: "nat \<Rightarrow> pid \<Rightarrow> TakeoverOutcome \<Rightarrow> unit \<Rightarrow> 'z machine_scheme \<Rightarrow> bool" where
  "contest i p r h s \<longleftrightarrow> sane s \<and> (won r \<longrightarrow> holds i p s)"

lemma contest_return:
  assumes "sane s" "won r \<longrightarrow> holds i p s" "pid_of t = Some p"
  shows "lease_safe i pid_of t (contest i p) (Return r) () s"
  by (rule lease_return[OF assms(1)])
    (use assms(2) holds_stable[of pid_of t p i, OF assms(3)] in \<open>auto simp: contest_def\<close>)

lemma stamped_contest:
  assumes "holds i p s" "i < POC_SHARD_COUNT" "pid_of t = Some p"
    and "\<And>s. holds i p s \<Longrightarrow> lease_safe i pid_of t (contest i p) q () s"
  shows "lease_safe i pid_of t (contest i p) (pbind (stamp_committer i now) (\<lambda>_. q)) () s"
  by (rule lease_bind[OF lease_neutral_holds[where pid_of = pid_of and t = t, OF neutral_stamp_committer[OF assms(2)] assms(1,3)]]) (rule assms(4))

lemma take_over_safe:
  assumes "sane s" "i < POC_SHARD_COUNT" "pid_of t = Some p" "cur \<notin> live s"
  shows "lease_safe i pid_of t (contest i p) (take_over i p now cur) () s"
proof -
  have count: "only (lease_neutral i) (store (\<lambda>s. s\<lparr>ar_recovery := f s\<rparr>))" for f
    by (intro only_intros) (simp add: lease_neutral_def wf_shmem_def lease_of_def shard_at_def)
  show ?thesis unfolding take_over_def
  proof (rule lease_bind[OF cas_lease_safe[where pid_of = pid_of and t = t, OF assms(1-3)]])
    show "cur = 0 \<or> cur \<notin> live s" using assms(4) by blast
    fix r :: "pid + pid" and s1 assume s1: "sane s1 \<and> (case r of Inl _ \<Rightarrow> True | Inr _ \<Rightarrow> holds i p s1)"
    show "lease_safe i pid_of t (contest i p) (case r of
        Inl _ \<Rightarrow> Return Lost
      | Inr _ \<Rightarrow> pbind (stamp_committer i now) (\<lambda>_. pbind (store (\<lambda>s. s\<lparr>ar_recovery := (ar_recovery s)\<lparr>rs_lease_takeovers :=
          rs_lease_takeovers (ar_recovery s) + 1\<rparr>\<rparr>)) (\<lambda>_. Return (TookOver cur)))) () s1"
    proof (cases r)
      case (Inl v)
      show ?thesis unfolding Inl sum.case using s1 assms(3) by (intro contest_return) (simp_all add: won_def)
    next
      case (Inr v)
      have h1: "holds i p s1" using s1 Inr by simp
      show ?thesis unfolding Inr sum.case
        by (intro stamped_contest[where pid_of = pid_of and t = t, OF h1 assms(2,3)] lease_bind[OF lease_neutral_holds[where pid_of = pid_of and t = t, OF count _ assms(3)]]
            contest_return assms(3)) (simp_all add: holds_def)
    qed
  qed
qed

lemma contend_safe:
  assumes "sane s" "i < POC_SHARD_COUNT" "pid_of t = Some p"
  shows "lease_safe i pid_of t (contest i p) (contend kill_probe i p now) () s"
  unfolding contend_def
proof (rule lease_bind[OF lease_neutral_safe[OF lease_read assms(1)]])
  fix cur s1 assume s1: "sane s1"
  have "lease_safe i pid_of t (contest i p)
      (pbind (load (\<lambda>s. sh_committer_acquired_at_ns (shard_at i s))) (\<lambda>_.
       pbind (pg_pid_alive kill_probe cur) (\<lambda>alive. if alive then Return Held else take_over i p now cur))) () s1"
  proof (rule lease_bind[OF lease_neutral_safe[OF lease_read s1]], rule lease_bind[OF alive_safe])
    fix alive s3 assume s3: "sane s3 \<and> (\<not> alive \<longrightarrow> cur \<notin> live s3)"
    then show "lease_safe i pid_of t (contest i p) (if alive then Return Held else take_over i p now cur) () s3"
      using take_over_safe[of s3 i pid_of t p cur now] contest_return[of s3 Held i p pid_of t] assms(3)
      using assms(2) by (cases alive) (simp_all add: won_def del: safe.simps)
  qed
  then show "lease_safe i pid_of t (contest i p) (if cur = 0 then Return Lost
      else pbind (load (\<lambda>s. sh_committer_acquired_at_ns (shard_at i s))) (\<lambda>_.
       pbind (pg_pid_alive kill_probe cur) (\<lambda>alive. if alive then Return Held else take_over i p now cur))) () s1"
    using contest_return[of s1 Lost i p pid_of t] s1 assms(3) by (simp add: won_def del: safe.simps)
qed

lemma takeover_safe:
  assumes "sane s" "i < POC_SHARD_COUNT" "pid_of t = Some p"
  shows "lease_safe i pid_of t (contest i p) (try_acquire_or_takeover kill_probe i p now) () s"
  unfolding try_acquire_or_takeover_def guarded_def if_P[OF assms(2)]
proof (rule lease_bind[OF cas_lease_safe[where pid_of = pid_of and t = t, OF assms]])
  fix r :: "pid + pid" and s1 assume s1: "sane s1 \<and> (case r of Inl _ \<Rightarrow> True | Inr _ \<Rightarrow> holds i p s1)"
  show "lease_safe i pid_of t (contest i p) (case r of
      Inl _ \<Rightarrow> contend kill_probe i p now
    | Inr _ \<Rightarrow> pbind (stamp_committer i now) (\<lambda>_. Return Acquired)) () s1"
  proof (cases r)
    case (Inl v)
    show ?thesis unfolding Inl sum.case using s1 assms(2,3) by (intro contend_safe) simp_all
  next
    case (Inr v)
    have h1: "holds i p s1" using s1 Inr by simp
    show ?thesis unfolding Inr sum.case
      by (intro stamped_contest[where pid_of = pid_of and t = t, OF h1 assms(2,3)] contest_return assms(3)) (simp_all add: holds_def)
  qed
qed simp
section \<open>Backends that elect a committer\<close>

text \<open>
  One round of the election in \<open>poc_ledger_apply\<close>: whoever wins works on the shard, after recovering
  the slots of a dead predecessor, and releases the lease. \<open>recover\<close> and \<open>work\<close> stand for
  \<open>orphan_recovery\<close> and \<open>drain_and_commit\<close>, which leave the lease alone.
\<close>

definition elect ::
  "('z shmem_scheme \<Rightarrow> pid \<Rightarrow> int) \<Rightarrow> nat \<Rightarrow> pid \<Rightarrow> u64 \<Rightarrow> ('z shmem_scheme, 'x) prog \<Rightarrow> ('z shmem_scheme, 'y) prog \<Rightarrow>
    ('z shmem_scheme, TakeoverOutcome) prog" where
  "elect kill i my_pid now recover work =
    pbind (try_acquire_or_takeover kill i my_pid now) (\<lambda>r.
    case r of
      Acquired \<Rightarrow> pbind work (\<lambda>_. pbind (release_committer i) (\<lambda>_. Return r))
    | TookOver _ \<Rightarrow> pbind recover (\<lambda>_. pbind work (\<lambda>_. pbind (release_committer i) (\<lambda>_. Return r)))
    | _ \<Rightarrow> Return r)"

lemma release_safe:
  assumes "holds i p s" "i < POC_SHARD_COUNT" "pid_of t = Some p" "p \<noteq> 0"
  shows "lease_safe i pid_of t (\<lambda>_ _. sane) (release_committer i) () s"
  unfolding release_committer_def guarded_def if_P[OF assms(2)]
proof (rule lease_bind[OF lease_neutral_holds[where pid_of = pid_of and t = t, OF neutral_stamp_committer[OF assms(2)] assms(1,3)]])
  fix s1 :: "'a machine_scheme" assume h: "holds i p s1"
  let ?free = "upd_shard i (\<lambda>h. h\<lparr>sh_committer_pid := 0\<rparr>) :: 'a machine_scheme \<Rightarrow> 'a machine_scheme"
  show "lease_safe i pid_of t (\<lambda>_ _. sane) (store ?free) () s1" unfolding store_def
  proof (rule lease_step)
    show "sane s1" using h by (simp add: holds_def)
    fix s2 assume s2: "sane s2" "lease_tolerates i pid_of t () s1 s2" "runs pid_of t s2"
    have "lease_of i s2 = p"
      using holds_stable[of pid_of t p i, OF assms(3) h s2(2)] s2(3) assms(3) by (simp add: holds_def runs_def)
    moreover have "lease_of i (?free s2) = 0" using s2(1) assms(2) by (simp add: lease_of_upd sane_def)
    ultimately have "lease_acts i pid_of t () s2 () (?free s2)"
      using s2(1) assms(3) by (auto simp: lease_acts_def sane_def)
    moreover have "sane (?free s2)" using s2(1) by (simp add: sane_def)
    ultimately show "lease_acts i pid_of t () s2 () (?free s2) \<and> lease_safe i pid_of t (\<lambda>_ _. sane) (Return ()) () (?free s2)"
      using sane_stable by auto
  qed
qed

lemma elect_safe:
  assumes "sane s" "i < POC_SHARD_COUNT" "pid_of t = Some p" "p \<noteq> 0"
    "only (lease_neutral i) recover" "only (lease_neutral i) work"
  shows "lease_safe i pid_of t (\<lambda>_ _. sane) (elect kill_probe i p now recover work) () s"
  unfolding elect_def
proof (rule lease_bind[OF takeover_safe[where pid_of = pid_of and t = t, OF assms(1-3)]])
  fix r :: TakeoverOutcome and s1 :: "'a machine_scheme" assume s1: "contest i p r () s1"
  have fin: "lease_safe i pid_of t (\<lambda>_ _. sane) (Return r) () s" if "sane s" for s :: "'a machine_scheme"
    using that by (rule lease_return)
  have body: "lease_safe i pid_of t (\<lambda>_ _. sane) (pbind work (\<lambda>_. pbind (release_committer i) (\<lambda>_. Return r))) () s"
    if "holds i p s" for s :: "'a machine_scheme"
    by (rule lease_bind[OF lease_neutral_holds[where pid_of = pid_of and t = t, OF assms(6) that assms(3)]],
        rule lease_bind[OF release_safe[where pid_of = pid_of and t = t, OF _ assms(2-4)]], assumption, rule fin)
  have full: "lease_safe i pid_of t (\<lambda>_ _. sane)
      (pbind recover (\<lambda>_. pbind work (\<lambda>_. pbind (release_committer i) (\<lambda>_. Return r)))) () s"
    if "holds i p s" for s :: "'a machine_scheme"
    by (rule lease_bind[OF lease_neutral_holds[where pid_of = pid_of and t = t, OF assms(5) that assms(3)]]) (rule body)
  have s1': "sane s1" "won r \<longrightarrow> holds i p s1" using s1 by (auto simp: contest_def)
  show "lease_safe i pid_of t (\<lambda>_ _. sane) (case r of
      Acquired \<Rightarrow> pbind work (\<lambda>_. pbind (release_committer i) (\<lambda>_. Return r))
    | TookOver _ \<Rightarrow> pbind recover (\<lambda>_. pbind work (\<lambda>_. pbind (release_committer i) (\<lambda>_. Return r)))
    | _ \<Rightarrow> Return r) () s1"
    using s1' fin[of s1] body[of s1] full[of s1] by (cases r) (simp_all add: won_def del: safe.simps)
qed

text \<open>A backend that has been through any number of rounds and stands for election once more.\<close>

primrec contender ::
  "nat \<Rightarrow> pid \<Rightarrow> (u64 \<times> ('z machine_scheme, unit) prog \<times> ('z machine_scheme, unit) prog) list \<Rightarrow> u64 \<Rightarrow>
    ('z machine_scheme, TakeoverOutcome) prog" where
  "contender i p [] now = try_acquire_or_takeover kill_probe i p now"
| "contender i p (r # rs) now =
    pbind (elect kill_probe i p (fst r) (fst (snd r)) (snd (snd r))) (\<lambda>_. contender i p rs now)"

lemma contender_safe:
  assumes "sane s" "i < POC_SHARD_COUNT" "pid_of t = Some p" "p \<noteq> 0"
    "\<And>r. r \<in> set rs \<Longrightarrow> only (lease_neutral i) (fst (snd r)) \<and> only (lease_neutral i) (snd (snd r))"
  shows "lease_safe i pid_of t (contest i p) (contender i p rs now) () s"
  using assms(1,5)
proof (induction rs arbitrary: s)
  case Nil
  show ?case using takeover_safe[where pid_of = pid_of and t = t, OF Nil.prems(1) assms(2,3)] by simp
next
  case (Cons r rs)
  have "only (lease_neutral i) (fst (snd r))" "only (lease_neutral i) (snd (snd r))" using Cons.prems(2) by auto
  from elect_safe[where pid_of = pid_of and t = t, OF Cons.prems(1) assms(2-4) this]
  show ?case unfolding contender.simps by (rule lease_bind) (rule Cons.IH, use Cons.prems(2) in auto)
qed

text \<open>Processes that die, at any point of the schedule.\<close>

definition crashes :: "pid list \<Rightarrow> ('z machine_scheme, TakeoverOutcome) prog" where
  "crashes ps = pbind (stores (map (\<lambda>p s. s\<lparr>live := live s - {p}\<rparr>) ps)) (\<lambda>_. Return Lost)"

lemma crashes_safe:
  assumes "sane s" "pid_of t = None"
  shows "lease_safe i pid_of t (\<lambda>_ _ _. True) (crashes ps) () s"
proof -
  let ?G = "\<lambda>s s' :: 'a machine_scheme. (\<exists>p. s' = s\<lparr>live := live s - {p}\<rparr>)"
  have "only ?G (crashes ps)" unfolding crashes_def by (intro only_intros) auto
  then show ?thesis
  proof (rule safe_mono[OF only_safe[where I = sane]])
    fix s s' :: "'a machine_scheme" assume "sane s" "?G s s'"
    then show "lease_acts i pid_of t () s () s' \<and> sane s'"
      by (auto simp: lease_acts_def sane_def wf_shmem_def lease_of_def shard_at_def)
  qed (use assms(1) sane_stable in blast)+
qed
text \<open>A backend as its process, its earlier rounds and the time of its last attempt.\<close>

type_synonym 'z backend = "pid \<times> (u64 \<times> ('z machine_scheme, unit) prog \<times> ('z machine_scheme, unit) prog) list \<times> u64"

definition backend_pid :: "'z backend list \<Rightarrow> nat \<Rightarrow> pid option" where
  "backend_pid bs t = (if t < length bs then Some (fst (bs ! t)) else None)"

definition backends :: "nat \<Rightarrow> 'z backend list \<Rightarrow> pid list \<Rightarrow> ('z machine_scheme, TakeoverOutcome) prog list" where
  "backends i bs ps = map (\<lambda>(p, rs, now). contender i p rs now) bs @ [crashes ps]"

definition backends_ok :: "nat \<Rightarrow> 'z backend list \<Rightarrow> bool" where
  "backends_ok i bs \<longleftrightarrow> distinct (map fst bs) \<and> 0 \<notin> fst ` set bs \<and>
    (\<forall>(p, rs, now)\<in>set bs. \<forall>(n, recover, work)\<in>set rs. only (lease_neutral i) recover \<and> only (lease_neutral i) work)"

lemma backends_safe:
  assumes "sane s" "i < POC_SHARD_COUNT" "backends_ok i bs"
  shows "lease.all_safe i (backend_pid bs) (\<lambda>t r h s. \<forall>p. backend_pid bs t = Some p \<longrightarrow> contest i p r h s) (\<lambda>_. ()) (s, backends i bs ps)"
proof -
  have inj: "t = u" if "backend_pid bs t = Some p" "backend_pid bs u = Some p" for t u p
    using that assms(3) by (auto simp: backend_pid_def backends_ok_def distinct_conv_nth split: if_splits)
  have nz: "backend_pid bs t \<noteq> Some 0" for t
    using assms(3) by (auto simp: backend_pid_def backends_ok_def image_iff intro: nth_mem)
  have "lease_safe i (backend_pid bs) t (\<lambda>r h s. \<forall>p. backend_pid bs t = Some p \<longrightarrow> contest i p r h s) (backends i bs ps ! t) () s"
    if t: "t < Suc (length bs)" for t
  proof (cases "t < length bs")
    case True
    obtain p rs now where b: "bs ! t = (p, rs, now)" by (cases "bs ! t")
    have p: "backend_pid bs t = Some p" "p \<noteq> 0" using True b nz[of t] by (auto simp: backend_pid_def)
    have "(p, rs, now) \<in> set bs" using True b nth_mem by metis
    then have rs: "only (lease_neutral i) (fst (snd r)) \<and> only (lease_neutral i) (snd (snd r))" if "r \<in> set rs" for r
      using assms(3) that by (fastforce simp: backends_ok_def)
    have prog: "backends i bs ps ! t = contender i p rs now" using True b by (simp add: backends_def nth_append)
    show ?thesis unfolding prog
      by (rule safe_mono[OF contender_safe[where pid_of = "backend_pid bs" and t = t, OF assms(1,2) p rs]]) (simp_all add: p(1))
  next
    case False
    then have prog: "backends i bs ps ! t = crashes ps" and none: "backend_pid bs t = None"
      using t by (simp_all add: backends_def nth_append backend_pid_def less_Suc_eq)
    show ?thesis unfolding prog
      by (rule safe_mono[OF crashes_safe[where pid_of = "backend_pid bs" and t = t, OF assms(1) none]]) (simp add: none)
  qed
  then show ?thesis
    using assms(1) inj nz by (auto simp: lease.all_safe_def lease_processes_def sane_def backends_def)
qed

lemma run_schedule_length: "length (snd (run_schedule ready sched c)) = length (snd c)"
  by (induction sched arbitrary: c) (auto simp: advance_def Let_def split: prod.splits prog.splits)

text \<open>
  C34. At most one committer per shard: whatever the interleaving of backends that stand for election,
  work, recover and release, and wherever processes die, two processes that are alive and have been told
  that they hold the lease (acquired or taken over) are the same process, and the lease names it. A
  holder that died does not block the shard: its lease can be taken over, as the witness shows.
\<close>

theorem committer_exclusive:
  fixes s s' :: "'z machine_scheme"
  assumes "sane s" "i < POC_SHARD_COUNT" "backends_ok i bs"
    and "run_schedule (runs (backend_pid bs)) sched (s, backends i bs ps) = (s', ts)"
    and "a < length bs" "ts ! a = Return ra" "won ra" "fst (bs ! a) \<in> live s'"
    and "b < length bs" "ts ! b = Return rb" "won rb" "fst (bs ! b) \<in> live s'"
  shows "a = b \<and> sh_committer_pid (shard_at i s') = fst (bs ! a)"
proof -
  have len: "length ts = Suc (length bs)"
    using run_schedule_length[of "runs (backend_pid bs)" sched "(s, backends i bs ps)"] assms(4) by (simp add: backends_def)
  obtain H where H: "\<And>t r. t < length ts \<Longrightarrow> ts ! t = Return r \<Longrightarrow> \<forall>p. backend_pid bs t = Some p \<longrightarrow> contest i p r (H t) s'"
    using lease.results_agree[OF backends_safe[OF assms(1-3)] assms(4)] by metis
  have lease: "lease_of i s' = fst (bs ! t)" if "t < length bs" "ts ! t = Return r" "won r" "fst (bs ! t) \<in> live s'" for t r
    using H[of t r] that len by (simp add: backend_pid_def contest_def holds_def)
  have "fst (bs ! a) = fst (bs ! b)" using lease assms(5-12) by metis
  then have "a = b" using assms(3,5,9) by (auto simp: backends_ok_def distinct_conv_nth)
  then show ?thesis using lease[OF assms(5-8)] by (simp add: lease_of_def)
qed
definition booted :: "pid set \<Rightarrow> machine" where
  "booted ps = shmem.extend zeroed \<lparr>live = ps\<rparr>"

lemma booted_sane: "ps \<subseteq> {0<..} \<Longrightarrow> sane (booted ps)"
  using wf_zeroed by (simp add: sane_def booted_def shmem.defs wf_shmem_def)

lemma booted_free: "i < POC_SHARD_COUNT \<Longrightarrow> sh_committer_pid (shard_at i (booted ps)) = 0" "live (booted ps) = ps"
  by (simp_all add: booted_def shmem.defs zeroed_def shard_at_def zeroed_shard_def)

lemma live_more [simp]: "live (s\<lparr>ar_recovery := r\<rparr>) = live s" "live (s\<lparr>live := l\<rparr>) = l"
  by simp_all

lemma shard_at_live: "shard_at i (s\<lparr>live := l\<rparr>) = shard_at i s" "shard_at i (s\<lparr>ar_recovery := r\<rparr>) = shard_at i s"
    "wf_shmem (s\<lparr>live := l\<rparr>) = wf_shmem s" "wf_shmem (s\<lparr>ar_recovery := r\<rparr>) = wf_shmem s"
  by (simp_all add: shard_at_def wf_shmem_def)

definition two_backends :: "unit backend list" where
  "two_backends = [(11, [], 5), (12, [], 6)]"

lemma two_backends_ok: "backends_ok 0 two_backends"
  by (simp add: backends_ok_def two_backends_def)

lemma takeover_run:
  "\<exists>s'. run_schedule (runs (backend_pid two_backends)) [0, 0, 2, 1, 1, 1, 1, 1, 1, 1]
      (booted {11, 12}, backends 0 two_backends [11]) = (s', [Return Acquired, Return (TookOver 11), Return Lost]) \<and> live s' = {12}"
proof -
  have "wf_shmem (booted {11, 12})" using booted_sane[of "{11, 12}"] by (simp add: sane_def)
  then show ?thesis
    by (simp add: backends_def two_backends_def try_acquire_or_takeover_def contend_def take_over_def cas_committer_def
        stamp_committer_def crashes_def pg_pid_alive_def prog_defs advance_def runs_def backend_pid_def booted_free
        shard_at_live shard_at_upd kill_probe_def poc_sizes)
qed

theorem committer_exclusive_witness:
  "sane (booted {11, 12}) \<and> backends_ok 0 two_backends \<and> (\<exists>s'. run_schedule (runs (backend_pid two_backends)) [0, 0, 2, 1, 1, 1, 1, 1, 1, 1]
      (booted {11, 12}, backends 0 two_backends [11]) = (s', [Return Acquired, Return (TookOver 11), Return Lost]) \<and>
    sh_committer_pid (shard_at 0 s') = 12)"
proof -
  have sane: "sane (booted {11, 12})" by (rule booted_sane) simp
  obtain s' where s': "run_schedule (runs (backend_pid two_backends)) [0, 0, 2, 1, 1, 1, 1, 1, 1, 1]
      (booted {11, 12}, backends 0 two_backends [11]) = (s', [Return Acquired, Return (TookOver 11), Return Lost])" "live s' = {12}"
    using takeover_run by blast
  have "1 = (1 :: nat) \<and> sh_committer_pid (shard_at 0 s') = fst (two_backends ! 1)"
    by (rule committer_exclusive[where ra = "TookOver 11" and rb = "TookOver 11", OF sane _ two_backends_ok s'(1)]) (use s'(2) in \<open>simp_all add: two_backends_def won_def poc_sizes\<close>)
  then show ?thesis using sane two_backends_ok s' by (simp add: two_backends_def)
qed
section \<open>Clients of the slot pool\<close>

text \<open>
  A client of a shard's pool: for every earlier request it acquired a slot, used it (pushed the request,
  waited, read the result) and recycled it, and now it acquires one more. An empty pool raises.
\<close>

primrec slot_client :: "nat \<Rightarrow> (u64 \<times> (u32 \<Rightarrow> ('z shmem_scheme, unit) prog)) list \<Rightarrow> u64 \<Rightarrow> ('z shmem_scheme, u32 option) prog" where
  "slot_client i [] now = acquire_slot i now"
| "slot_client i (r # rs) now =
    pbind (acquire_slot i (fst r)) (\<lambda>slot.
    case slot of
      None \<Rightarrow> Panicked
    | Some j \<Rightarrow> pbind (snd r j) (\<lambda>_. pbind (recycle_slot i j) (\<lambda>_. slot_client i rs now)))"

lemma slot_client_safe:
  fixes s :: "'z shmem_scheme"
  assumes "claim_ok i h s" "\<And>r j. r \<in> set rs \<Longrightarrow> only (slot_neutral i) (snd r j)"
  shows "slot_safe i (\<lambda>r h s. claim_ok i h s \<and> (\<forall>j. r = Some j \<longrightarrow> unat j \<in> h)) (slot_client i rs now) h s"
  using assms
proof (induction rs arbitrary: h s)
  case Nil
  show ?case unfolding slot_client.simps
    by (rule safe_mono[OF acquire_safe[OF Nil.prems(1)]]) (auto simp: acquired_def)
next
  case (Cons r rs)
  have rest: "slot_safe i (\<lambda>r h s. claim_ok i h s \<and> (\<forall>j. r = Some j \<longrightarrow> unat j \<in> h)) (slot_client i rs now) h' s'"
    if "claim_ok i h' s'" for h' and s' :: "'z shmem_scheme"
    using Cons.IH[OF that] Cons.prems(2) by simp
  show ?case unfolding slot_client.simps
  proof (rule slot_bind[OF acquire_safe[OF Cons.prems(1)]])
    fix slot h1 and s1 :: "'z shmem_scheme" assume a: "acquired i h slot h1 s1"
    show "slot_safe i (\<lambda>r h s. claim_ok i h s \<and> (\<forall>j. r = Some j \<longrightarrow> unat j \<in> h)) (case slot of None \<Rightarrow> Panicked
      | Some j \<Rightarrow> pbind (snd r j) (\<lambda>_. pbind (recycle_slot i j) (\<lambda>_. slot_client i rs now))) h1 s1"
    proof (cases slot)
      case None
      show ?thesis unfolding None by simp
    next
      case (Some j)
      have use: "only (slot_neutral i) (snd r j)" using Cons.prems(2) by simp
      have h1: "claim_ok i h1 s1" "unat j \<in> h1" using a Some by (auto simp: acquired_def)
      show ?thesis unfolding Some option.case
      proof (rule slot_bind[OF neutral_safe[OF use h1(1)]])
        fix h2 and s2 :: "'z shmem_scheme" assume h2: "h2 = h1 \<and> claim_ok i h1 s2"
        show "slot_safe i (\<lambda>r h s. claim_ok i h s \<and> (\<forall>j. r = Some j \<longrightarrow> unat j \<in> h))
            (pbind (recycle_slot i j) (\<lambda>_. slot_client i rs now)) h2 s2"
          by (rule slot_bind[OF recycle_safe]) (use h2 h1(2) in \<open>auto intro!: rest simp: recycled_def simp del: safe.simps\<close>)
      qed
    qed
  qed
qed

text \<open>
  C35. Slots are not shared: however clients that acquire, use and recycle slots of a shard interleave with
  each other and with any other programs that leave slots to their holders (committers that fill them,
  backends that cancel), two clients that have acquired a slot have different ones, and neither is free.
\<close>

theorem slots_exclusive:
  fixes s s' :: "'z shmem_scheme"
  assumes "wf_shmem s" "i < POC_SHARD_COUNT"
    and "\<forall>(rs, now)\<in>set cs. \<forall>(n, use)\<in>set rs. \<forall>j. only (slot_neutral i) (use j)"
    and "\<forall>p\<in>set others. only (slot_neutral i) p"
    and "run_schedule (\<lambda>_ _. True) sched (s, map (\<lambda>(rs, now). slot_client i rs now) cs @ others) = (s', ts)"
    and "a < length cs" "ts ! a = Return (Some j)" "b < length cs" "ts ! b = Return (Some k)" "a \<noteq> b"
  shows "unat j \<noteq> unat k \<and> sl_state (slot_at i (unat j) s') \<noteq> SLOT_FREE \<and> sl_state (slot_at i (unat k) s') \<noteq> SLOT_FREE"
proof -
  let ?ps = "map (\<lambda>(rs, now). slot_client i rs now) cs @ others"
  let ?Q = "\<lambda>t r h s. claim_ok i h s \<and> (t < length cs \<longrightarrow> (\<forall>j. r = Some j \<longrightarrow> unat j \<in> h)) :: bool"
  have ok: "claim_ok i {} s" using assms(1,2) by (simp add: claim_ok_def)
  have "slot_safe i (?Q t) (?ps ! t) {} s" if "t < length ?ps" for t
  proof (cases "t < length cs")
    case True
    obtain rs now where c: "cs ! t = (rs, now)" by (cases "cs ! t")
    have "only (slot_neutral i) (snd r j)" if "r \<in> set rs" for r j
      using assms(3) that nth_mem[OF True] c by fastforce
    from slot_client_safe[OF ok this] show ?thesis using True c by (simp add: nth_append)
  next
    case False
    then have "only (slot_neutral i) (?ps ! t)" using assms(4) that by (simp add: nth_append)
    from neutral_safe[OF this ok] show ?thesis by (rule safe_mono) (use False in auto)
  qed
  then have "slots.all_safe i ?Q (\<lambda>_. {}) (s, ?ps)"
    using assms(1) by (simp add: slots.all_safe_def slot_claims_def)
  from slots.results_agree[OF this assms(5)] obtain H where H: "slot_claims i H s'"
    "\<And>t r. t < length ts \<Longrightarrow> ts ! t = Return r \<Longrightarrow> ?Q t r (H t) s'" by metis
  have len: "length ts = length ?ps" using run_schedule_length[of "\<lambda>_ _. True" sched "(s, ?ps)"] assms(5) by simp
  have "unat j \<in> H a" "unat k \<in> H b" using H(2)[of a "Some j"] H(2)[of b "Some k"] assms(6-9) len by auto
  then show ?thesis using H(1) assms(10) unfolding slot_claims_def slot_st_def by (metis disjoint_iff)
qed
lemma slot_zeroed: "i < POC_SHARD_COUNT \<Longrightarrow> j < POC_SLOTS_PER_SHARD \<Longrightarrow> slot_at i j zeroed = zeroed_slot"
  "i < POC_SHARD_COUNT \<Longrightarrow> shard_at i zeroed = zeroed_shard"
  by (simp_all add: slot_at_def shard_at_def zeroed_def)

lemma probe_first: "acquire_slot 0 now = pbind (fetch_update (\<lambda>s. sh_next_slot_seq (shard_at 0 s))
    (upd_shard 0 (\<lambda>h. h\<lparr>sh_next_slot_seq := sh_next_slot_seq h + 1\<rparr>))) (\<lambda>sq.
    let idx = unat sq mod POC_SLOTS_PER_SHARD in
    pbind (cas_slot_state 0 idx SLOT_FREE SLOT_ALLOCATED) (\<lambda>r. case r of
      Inr _ \<Rightarrow> pbind (store (upd_slot 0 idx (\<lambda>r. r\<lparr>sl_acquired_at_ns := now\<rparr>))) (\<lambda>_. Return (Some (of_nat idx)))
    | Inl _ \<Rightarrow> probe_slot 0 now 15))"
proof -
  have 16: "POC_MAX_SLOT_PROBE = Suc 15" by (simp add: POC_MAX_SLOT_PROBE_def)
  show ?thesis unfolding acquire_slot_def 16 probe_slot.simps by (simp add: guarded_def poc_sizes)
qed

definition one_fill :: "(shmem, u32 option) prog" where
  "one_fill = pbind (fill_slot_result_with_error 0 0 5 10 1 0) (\<lambda>_. Return None)"

lemma one_fill_neutral: "only (slot_neutral 0) one_fill"
  unfolding one_fill_def by (intro only_intros)

lemma two_clients_run:
  "\<exists>s'. run_schedule (\<lambda>_ _. True) [0, 0, 1, 0, 2, 2, 2, 2, 2, 1, 1]
    (zeroed, map (\<lambda>(rs, now). slot_client 0 rs now) [([], 7), ([], 8)] @ [one_fill]) =
      (s', [Return (Some 0), Return (Some 1), Return None])"
  by (simp add: probe_first one_fill_def fill_slot_result_with_error_def cas_slot_state_def prog_defs advance_def
      slot_zeroed slot_at_upd shard_at_upd wf_zeroed zeroed_slot_def zeroed_shard_def slot_ref_def poc_sizes slot_states)

theorem slots_exclusive_witness:
  "\<exists>s'. run_schedule (\<lambda>_ _. True) [0, 0, 1, 0, 2, 2, 2, 2, 2, 1, 1]
    (zeroed, map (\<lambda>(rs, now). slot_client 0 rs now) [([], 7), ([], 8)] @ [one_fill]) =
      (s', [Return (Some 0), Return (Some 1), Return None]) \<and>
    sl_state (slot_at 0 0 s') \<noteq> SLOT_FREE \<and> sl_state (slot_at 0 1 s') \<noteq> SLOT_FREE"
proof -
  obtain s' where s': "run_schedule (\<lambda>_ _. True) [0, 0, 1, 0, 2, 2, 2, 2, 2, 1, 1]
    (zeroed, map (\<lambda>(rs, now). slot_client 0 rs now) [([], 7), ([], 8)] @ [one_fill]) =
      (s', [Return (Some 0), Return (Some 1), Return None])" using two_clients_run by blast
  have "unat (0 :: u32) \<noteq> unat (1 :: u32) \<and> sl_state (slot_at 0 (unat (0 :: u32)) s') \<noteq> SLOT_FREE \<and>
      sl_state (slot_at 0 (unat (1 :: u32)) s') \<noteq> SLOT_FREE"
    by (rule slots_exclusive[where a = 0 and b = 1, OF wf_zeroed _ _ _ s']) (simp_all add: poc_sizes one_fill_neutral)
  then show ?thesis using s' by auto
qed
section \<open>Publishing a result\<close>

text \<open>
  A backend that waits for its result looks at the state of its slot again and again and reads the
  result once the state is filled: the wait loop of \<open>poc_ledger_apply\<close>, with the number of looks as fuel.
\<close>

type_synonym slot_result = "u8 \<times> i64 \<times> i64 \<times> i64 \<times> u16"

primrec await_result :: "nat \<Rightarrow> u32 \<Rightarrow> nat \<Rightarrow> ('z shmem_scheme, slot_result option) prog" where
  "await_result i j 0 = Return None"
| "await_result i j (Suc n) =
    pbind (slot_state i j) (\<lambda>state.
    if state = SLOT_FILLED then pbind (read_slot_result_with_error i j) (\<lambda>r. Return (Some r)) else await_result i j n)"

definition result_fields :: "nat \<Rightarrow> nat \<Rightarrow> 'z shmem_scheme \<Rightarrow> i64 \<times> i64 \<times> i64 \<times> u16" where
  "result_fields i j s = (let r = slot_at i j s in (sl_applied_unit_cost r, sl_applied_total_cost r, sl_committer_tx_id r, sl_error_code r))"

definition published :: "nat \<Rightarrow> nat \<Rightarrow> i64 \<times> i64 \<times> i64 \<times> u16 \<Rightarrow> 'z shmem_scheme \<Rightarrow> bool" where
  "published i j v s \<longleftrightarrow> slot_st i j s = SLOT_FILLED \<and> result_fields i j s = v"

text \<open>Thread 0 fills the slot; the others leave it alone. A filled slot holds the result.\<close>

definition pub_ok :: "nat \<Rightarrow> nat \<Rightarrow> i64 \<times> i64 \<times> i64 \<times> u16 \<Rightarrow> 'z shmem_scheme \<Rightarrow> bool" where
  "pub_ok i j v s \<longleftrightarrow> wf_shmem s \<and> (slot_st i j s = SLOT_FILLED \<longrightarrow> result_fields i j s = v)"

definition pub_tolerates :: "nat \<Rightarrow> nat \<Rightarrow> i64 \<times> i64 \<times> i64 \<times> u16 \<Rightarrow> nat \<Rightarrow> unit \<Rightarrow> 'z shmem_scheme \<Rightarrow> 'z shmem_scheme \<Rightarrow> bool" where
  "pub_tolerates i j v t h s s' \<longleftrightarrow> (pub_ok i j v s \<longrightarrow> pub_ok i j v s' \<and>
    (if t = 0 then slot_at i j s' = slot_at i j s else published i j v s \<longrightarrow> published i j v s'))"

definition pub_acts :: "nat \<Rightarrow> nat \<Rightarrow> i64 \<times> i64 \<times> i64 \<times> u16 \<Rightarrow> nat \<Rightarrow> unit \<Rightarrow> 'z shmem_scheme \<Rightarrow> unit \<Rightarrow> 'z shmem_scheme \<Rightarrow> bool" where
  "pub_acts i j v t h s h' s' \<longleftrightarrow> (pub_ok i j v s \<longrightarrow> pub_ok i j v s' \<and>
    (if t = 0 then published i j v s \<longrightarrow> published i j v s' else slot_at i j s' = slot_at i j s))"

lemma published_same: "slot_at i j s' = slot_at i j s \<Longrightarrow> published i j v s' = published i j v s"
  by (simp add: published_def slot_st_def result_fields_def)

interpretation pub: interference "pub_tolerates i j v" "pub_acts i j v" "\<lambda>_. pub_ok i j v" "\<lambda>_ _. True"
proof
  fix t h and s s' s'' :: "'z shmem_scheme"
  show "pub_tolerates i j v t h s s" by (simp add: pub_tolerates_def)
  show "pub_tolerates i j v t h s s''" if "pub_tolerates i j v t h s s'" "pub_tolerates i j v t h s' s''"
    using that unfolding pub_tolerates_def by presburger
next
  fix H :: "nat \<Rightarrow> unit" and t h' and s s' :: "'z shmem_scheme"
  assume a: "pub_ok i j v s" "pub_acts i j v t (H t) s h' s'"
  then show "pub_ok i j v s'" by (simp add: pub_acts_def)
  show "pub_tolerates i j v u (H u) s s'" if "u \<noteq> t" for u
    using a that published_same[of i j s' s v] unfolding pub_acts_def pub_tolerates_def by presburger
qed

abbreviation pub_safe ::
  "nat \<Rightarrow> nat \<Rightarrow> i64 \<times> i64 \<times> i64 \<times> u16 \<Rightarrow> nat \<Rightarrow> ('a \<Rightarrow> unit \<Rightarrow> 'z shmem_scheme \<Rightarrow> bool) \<Rightarrow> ('z shmem_scheme, 'a) prog \<Rightarrow> 'z shmem_scheme \<Rightarrow> bool" where
  "pub_safe i j v t Q p s \<equiv> safe (\<lambda>_. True) (pub_tolerates i j v t) (pub_acts i j v t) Q p () s"

lemma pub_load:
  fixes s :: "'z shmem_scheme"
  assumes "I s" "\<And>s. I s \<Longrightarrow> pub_ok i j v s"
    "\<And>s s'. I s \<Longrightarrow> pub_tolerates i j v t () s s' \<Longrightarrow> I s'" "\<And>s. I s \<Longrightarrow> pub_safe i j v t Q (f (get s)) s"
  shows "pub_safe i j v t Q (pbind (load get) f) s"
  unfolding load_def pbind.simps safe.simps
proof (intro allI impI exI conjI)
  fix s' :: "'z shmem_scheme" assume "pub_tolerates i j v t () s s'"
  then have I: "I s'" using assms(1,3) by blast
  show "pub_acts i j v t () s' () s'" using assms(2)[OF I] by (simp add: pub_acts_def)
  show "pub_safe i j v t Q (f (get s')) s'" using assms(4)[OF I] .
qed
lemma pub_step:
  fixes s :: "'z shmem_scheme"
  assumes "I s" "\<And>s s'. I s \<Longrightarrow> pub_tolerates i j v t () s s' \<Longrightarrow> I s'"
    "\<And>s. I s \<Longrightarrow> pub_acts i j v t () s () (u s) \<and> pub_safe i j v t Q (k s) (u s)"
  shows "pub_safe i j v t Q (Step u k) s"
  unfolding safe.simps using assms by blast

lemma published_load:
  fixes s :: "'z shmem_scheme"
  assumes "pub_ok i j v s" "published i j v s" "t \<noteq> 0" "\<And>s. published i j v s \<Longrightarrow> get s = c"
    and "\<And>s. pub_ok i j v s \<Longrightarrow> published i j v s \<Longrightarrow> pub_safe i j v t Q (f c) s"
  shows "pub_safe i j v t Q (pbind (load get) f) s"
  by (rule pub_load[where I = "\<lambda>s. pub_ok i j v s \<and> published i j v s"])
    (use assms in \<open>auto simp: pub_tolerates_def simp del: safe.simps\<close>)

lemma read_safe:
  fixes s :: "'z shmem_scheme"
  assumes "pub_ok i (unat j) v s" "published i (unat j) v s" "slot_ref i j" "t \<noteq> 0"
  shows "pub_safe i (unat j) v t (\<lambda>r _ _. r = (SLOT_FILLED, v)) (read_slot_result_with_error i j) s"
proof -
  obtain u tc ctx err where v: "v = (u, tc, ctx, err)" by (cases v)
  note get = published_def result_fields_def slot_st_def Let_def v
  show ?thesis unfolding read_slot_result_with_error_def Let_def guarded_def if_P[OF assms(3)]
    apply (rule published_load[where c = u, OF assms(1,2,4)], simp add: get)
    apply (rule published_load[where c = tc], assumption+, rule assms(4), simp add: get)
    apply (rule published_load[where c = ctx], assumption+, rule assms(4), simp add: get)
    apply (rule published_load[where c = err], assumption+, rule assms(4), simp add: get)
    apply (rule published_load[where c = SLOT_FILLED], assumption+, rule assms(4), simp add: get)
    by (simp add: v)
qed

lemma await_safe:
  fixes s :: "'z shmem_scheme"
  assumes "pub_ok i (unat j) v s" "slot_ref i j" "t \<noteq> 0"
  shows "pub_safe i (unat j) v t (\<lambda>r _ _. \<forall>x. r = Some x \<longrightarrow> x = (SLOT_FILLED, v)) (await_result i j n) s"
  using assms(1)
proof (induction n arbitrary: s)
  case 0
  then show ?case by simp
next
  case (Suc n)
  let ?j = "unat j" and ?P = "\<lambda>s. pub_ok i (unat j) v s \<and> published i (unat j) v s"
  have read: "pub_safe i ?j v t (\<lambda>r _ _. \<forall>x. r = Some x \<longrightarrow> x = (SLOT_FILLED, v))
      (pbind (read_slot_result_with_error i j) (\<lambda>r. Return (Some r))) s" if P: "?P s" for s :: "'z shmem_scheme"
    using P assms(2,3) by (intro pub.bind_safe[OF read_safe]) auto
  show ?case unfolding await_result.simps slot_state_def guarded_def if_P[OF assms(2)]
  proof (rule pub_load[where I = "pub_ok i ?j v"])
    fix s1 :: "'z shmem_scheme" assume ok: "pub_ok i ?j v s1"
    have "?P s1" if "sl_state (slot_at i ?j s1) = SLOT_FILLED"
      using ok that by (simp add: pub_ok_def published_def slot_st_def)
    then show "pub_safe i ?j v t (\<lambda>r _ _. \<forall>x. r = Some x \<longrightarrow> x = (SLOT_FILLED, v))
      (if sl_state (slot_at i ?j s1) = SLOT_FILLED then pbind (read_slot_result_with_error i j) (\<lambda>r. Return (Some r))
       else await_result i j n) s1"
      using read Suc.IH[OF ok] by (simp del: safe.simps)
  qed (use Suc.prems in \<open>auto simp: pub_tolerates_def\<close>)
qed

lemma fill_safe:
  fixes s :: "'z shmem_scheme"
  assumes "wf_shmem s" "slot_ref i j" "slot_st i (unat j) s = SLOT_ALLOCATED"
  shows "pub_safe i (unat j) (u, tc, ctx, err) 0 (\<lambda>_ _ _. True) (fill_slot_result_with_error i j u tc ctx err) s"
proof -
  let ?j = "unat j" and ?v = "(u, tc, ctx, err)"
  have ij: "i < POC_SHARD_COUNT" "?j < POC_SLOTS_PER_SHARD" using assms(2) by (auto simp: slot_ref_def)
  let ?I = "\<lambda>r s. wf_shmem s \<and> slot_at i ?j s = r \<and> sl_state r = SLOT_ALLOCATED"
  have ok: "pub_ok i ?j ?v s" if "?I r s" for r and s :: "'z shmem_scheme"
    using that by (auto simp: pub_ok_def slot_st_def slot_states)
  have stable: "?I r s'" if "?I r s" "pub_tolerates i ?j ?v 0 () s s'" for r and s s' :: "'z shmem_scheme"
    using that ok[OF that(1)] by (auto simp: pub_tolerates_def pub_ok_def)
  have upd: "pub_safe i ?j ?v 0 (\<lambda>_ _ _. True) (Step (upd_slot i ?j f) (\<lambda>_. p)) s"
    if "?I r s" "sl_state (f r) = SLOT_ALLOCATED" "\<And>s. ?I (f r) s \<Longrightarrow> pub_safe i ?j ?v 0 (\<lambda>_ _ _. True) p s"
    for f p r and s :: "'z shmem_scheme"
  proof (rule pub_step[where I = "?I r", OF that(1)])
    fix s1 :: "'z shmem_scheme" assume s1: "?I r s1"
    have "?I (f r) (upd_slot i ?j f s1)" using s1 that(2) ij by (simp add: slot_at_upd)
    then show "pub_acts i ?j ?v 0 () s1 () (upd_slot i ?j f s1) \<and> pub_safe i ?j ?v 0 (\<lambda>_ _ _. True) p (upd_slot i ?j f s1)"
      using that(3) ok s1 by (auto simp: pub_acts_def published_def slot_st_def slot_states)
  qed (use stable in blast)
  have cas: "pub_safe i ?j ?v 0 (\<lambda>_ _ _. True)
      (pbind (cas_slot_state i ?j SLOT_ALLOCATED SLOT_FILLED) (\<lambda>r. Return (cas_unit r))) s"
    if "?I r s" "(sl_applied_unit_cost r, sl_applied_total_cost r, sl_committer_tx_id r, sl_error_code r) = ?v"
    for r and s :: "'z shmem_scheme"
    unfolding cas_slot_state_def compare_exchange_def pbind.simps
  proof (rule pub_step[where I = "?I r", OF that(1)])
    fix s1 :: "'z shmem_scheme" assume s1: "?I r s1"
    then show "pub_acts i ?j ?v 0 () s1 () (if sl_state (slot_at i ?j s1) = SLOT_ALLOCATED
          then upd_slot i ?j (\<lambda>r. r\<lparr>sl_state := SLOT_FILLED\<rparr>) s1 else s1) \<and>
      pub_safe i ?j ?v 0 (\<lambda>_ _ _. True) (Return (cas_unit (if sl_state (slot_at i ?j s1) = SLOT_ALLOCATED
          then Inr SLOT_ALLOCATED else Inl (sl_state (slot_at i ?j s1)))))
        (if sl_state (slot_at i ?j s1) = SLOT_ALLOCATED then upd_slot i ?j (\<lambda>r. r\<lparr>sl_state := SLOT_FILLED\<rparr>) s1 else s1)"
      using that(2) ij by (auto simp: pub_acts_def pub_ok_def published_def slot_st_def result_fields_def slot_at_upd slot_states Let_def)
  qed (use stable in blast)
  have "?I (slot_at i ?j s) s" using assms(1,3) by (simp add: slot_st_def)
  then show ?thesis
    unfolding fill_slot_result_with_error_def Let_def guarded_def if_P[OF assms(2)] list.map stores.simps pbind.simps
    by (intro upd, assumption) (auto intro!: cas upd simp del: safe.simps)
qed
text \<open>
  C36. Publication: when one committer fills an allocated slot while any number of backends wait for it in
  any interleaving, a backend whose wait ends reads the filled state with exactly the four values of
  that fill, never a mixture with what the slot held before.
\<close>

theorem await_reads_fill:
  fixes s s' :: "'z shmem_scheme"
  assumes "wf_shmem s" "slot_ref i j" "sl_state (slot_at i (unat j) s) = SLOT_ALLOCATED"
    and "run_schedule (\<lambda>_ _. True) sched (s, pbind (fill_slot_result_with_error i j u tc ctx err) (\<lambda>_. Return None) #
        map (await_result i j) looks) = (s', ts)"
    and "t < length looks" "ts ! Suc t = Return (Some r)"
  shows "r = (SLOT_FILLED, u, tc, ctx, err)"
proof -
  let ?v = "(u, tc, ctx, err)" and ?ps = "pbind (fill_slot_result_with_error i j u tc ctx err) (\<lambda>_. Return None) # map (await_result i j) looks"
  let ?Q = "\<lambda>t r _ _. t \<noteq> (0 :: nat) \<longrightarrow> (\<forall>x. r = Some x \<longrightarrow> x = (SLOT_FILLED, ?v))"
  have ok: "pub_ok i (unat j) ?v s" using assms(1,3) by (simp add: pub_ok_def slot_st_def slot_states)
  have "pub_safe i (unat j) ?v n (?Q n) (?ps ! n) s" if n: "n < length ?ps" for n
  proof (cases n)
    case 0
    show ?thesis unfolding 0 nth_Cons_0
      by (rule pub.bind_safe[OF fill_safe]) (use assms(1-3) in \<open>auto simp: slot_st_def\<close>)
  next
    case (Suc m)
    then show ?thesis using await_safe[OF ok assms(2), of n "looks ! m"] n by (simp add: safe_mono)
  qed
  then have "pub.all_safe i (unat j) ?v ?Q (\<lambda>_. ()) (s, ?ps)" using ok by (simp add: pub.all_safe_def)
  from pub.results_agree[OF this assms(4)]
  have "?Q (Suc t) (Some r) () s'" if "Suc t < length ts" using that assms(6) by metis
  then show ?thesis
    using assms(5) run_schedule_length[of "\<lambda>_ _. True" sched "(s, ?ps)"] assms(4) by simp
qed

definition allocated :: shmem where
  "allocated = upd_slot 0 0 (\<lambda>r. r\<lparr>sl_state := SLOT_ALLOCATED\<rparr>) zeroed"

lemma allocated_slot: "wf_shmem allocated" "slot_at 0 0 allocated = zeroed_slot\<lparr>sl_state := SLOT_ALLOCATED\<rparr>"
  by (simp_all add: allocated_def wf_zeroed slot_at_upd slot_zeroed poc_sizes)

lemmas slot_eval = fill_slot_result_with_error_def read_slot_result_with_error_def slot_state_def cas_slot_state_def
  prog_defs advance_def allocated_slot slot_at_upd zeroed_slot_def slot_ref_def poc_sizes slot_states Let_def

theorem await_reads_fill_witness:
  "\<exists>s'. run_schedule (\<lambda>_ _. True) [1, 0, 0, 0, 0, 0, 1, 1, 1, 1, 1, 1]
      (allocated, pbind (fill_slot_result_with_error 0 0 5 10 3 0) (\<lambda>_. Return None) # map (await_result 0 0) [2]) =
    (s', [Return None, Return (Some (SLOT_FILLED, 5, 10, 3, 0))])"
proof -
  obtain s' r where run: "run_schedule (\<lambda>_ _. True) [1, 0, 0, 0, 0, 0, 1, 1, 1, 1, 1, 1]
      (allocated, pbind (fill_slot_result_with_error 0 0 5 10 3 0) (\<lambda>_. Return None) # map (await_result 0 0) [2]) =
    (s', [Return None, Return (Some r)])"
    by (simp add: numeral_2_eq_2 slot_eval)
  have "r = (SLOT_FILLED, 5, 10, 3, 0)"
    by (rule await_reads_fill[where t = 0, OF _ _ _ run]) (simp_all add: allocated_slot slot_ref_def poc_sizes)
  then show ?thesis using run by auto
qed

text \<open>
  Without having seen the filled state first, the reader is not protected: it loads the state last, so a
  fill between its first and its last load gives a filled state with the values from before the fill.
  \<open>poc_ledger_slot_result\<close> reads in this way.
\<close>

lemma read_slot_result_torn:
  "\<exists>s'. run_schedule (\<lambda>_ _. True) [1, 1, 1, 1, 0, 0, 0, 0, 0, 1]
      (allocated, [pbind (fill_slot_result_with_error 0 0 5 10 3 0) (\<lambda>_. Return None),
        pbind (read_slot_result_with_error 0 0) (\<lambda>r. Return (Some r))]) =
    (s', [Return None, Return (Some (SLOT_FILLED, 0, 0, 0, 0))])"
  by (simp add: slot_eval)

end
