(* ===== verification/Committer.thy ===== *)
theory Committer
  imports PocTables QueueStats QueueConc
begin

text \<open>
  The committer, src/poc/queue-extension/src/committer.rs: pricing a drained batch, committing it to the cost
  tables and answering the waiting slots, compensation of aborted transactions, recovery of orphaned
  slots, and the calls of the SQL surface. The functions are programs over \<open>world\<close>, the shared memory
  with the process table, the cost tables and the clock; every SPI call is one step. A statement that
  raises, \<open>pgrx::error!\<close> and \<open>expect\<close> are \<^const>\<open>Panicked\<close>; what a rollback undoes is said where it matters.
\<close>

record world = machine +
  tables :: PocTables
  clock :: u64

definition spi :: "(PocTables \<Rightarrow> PocTables option) \<Rightarrow> ('z world_scheme, unit) prog" where
  "spi stmt =
    Step (\<lambda>w. case stmt (tables w) of None \<Rightarrow> w | Some tb \<Rightarrow> w\<lparr>tables := tb\<rparr>)
      (\<lambda>w. if stmt (tables w) = None then Panicked else Return ())"

definition spi_read :: "(PocTables \<Rightarrow> 'a) \<Rightarrow> ('z world_scheme, 'a) prog" where
  "spi_read query = load (\<lambda>w. query (tables w))"

definition clock_ns :: "('z world_scheme, u64) prog" where
  "clock_ns = load clock"

section \<open>Routing\<close>

definition pool_hash :: "i64 \<Rightarrow> i64 \<Rightarrow> u64" where
  "pool_hash sku_id location_id =
    (let x = word_of_int sku_id * 0x9E3779B97F4A7C15;
         x = x XOR (word_of_int location_id * 0xBF58476D1CE4E5B9);
         x = (x XOR drop_bit 30 x) * 0xBF58476D1CE4E5B9;
         x = (x XOR drop_bit 27 x) * 0x94D049BB133111EB
     in x XOR drop_bit 31 x)"

definition shard_for :: "u64 \<Rightarrow> nat" where
  "shard_for h = unat (h AND (of_nat POC_SHARD_COUNT - 1))"

definition xid_shard :: "i64 \<Rightarrow> nat" where
  "xid_shard xid =
    (let h = word_of_int xid :: u64;
         h = h XOR drop_bit 30 h;
         h = h * 0xBF58476D1CE4E5B9;
         h = h XOR drop_bit 27 h;
         h = h * 0x94D049BB133111EB;
         h = h XOR drop_bit 31 h
     in unat (h AND (of_nat POC_SHARD_COUNT - 1)))"

section \<open>Transaction callback\<close>

text \<open>
  The backend-local dirty xid and the callback at the end of a transaction: every event clears the xid, only an abort with
  a dirty xid enqueues a compensation; a full ring is only logged.
\<close>

datatype XactEvent = XACT_EVENT_COMMIT | XACT_EVENT_PRE_COMMIT | XACT_EVENT_ABORT | XACT_EVENT_PREPARE | XACT_EVENT_PRE_PREPARE
  | XACT_EVENT_PARALLEL_COMMIT | XACT_EVENT_PARALLEL_ABORT | XACT_EVENT_PARALLEL_PRE_COMMIT

text \<open>The result is the new dirty xid of the backend.\<close>

definition poc_ledger_xact_callback :: "XactEvent \<Rightarrow> i64 \<Rightarrow> ('z shmem_scheme, i64) prog" where
  "poc_ledger_xact_callback event last_dirty_xid =
    (if event \<noteq> XACT_EVENT_ABORT then Return 0
     else if last_dirty_xid = 0 then Return 0
     else pbind (ring_push_compensate (xid_shard last_dirty_xid) last_dirty_xid) (\<lambda>_. Return 0))"

section \<open>One group\<close>

datatype SlotResolution = Filled i64 i64 | Error u16

definition group_event :: "i64 \<Rightarrow> nat \<times> DrainedApply \<Rightarrow> PocApplyEvent" where
  "group_event at p =
    \<lparr>ae_event_seq = fst p, ae_qty = da_event_qty (snd p), ae_at_micros = at, ae_issue_id = da_event_issue_id (snd p),
     ae_user_tx_xid = da_user_tx_xid (snd p), ae_slot_idx = da_slot_idx (snd p)\<rparr>"

text \<open>Step 2: an event whose issue has rows is replayed from them, every other one is planned.\<close>

definition to_plan_events :: "(i64 \<Rightarrow> DedupRow list option) \<Rightarrow> i64 \<Rightarrow> DrainedApply list \<Rightarrow> PocApplyEvent list" where
  "to_plan_events dedup at drained =
    map (group_event at) (filter (\<lambda>p. dedup (da_event_issue_id (snd p)) = None) (enumerate 0 drained))"

definition replayed :: "(i64 \<Rightarrow> DedupRow list option) \<Rightarrow> DrainedApply list \<Rightarrow> u32 \<Rightarrow> SlotResolution option" where
  "replayed dedup drained =
    fold (\<lambda>d m. case dedup (da_event_issue_id d) of
        None \<Rightarrow> m
      | Some rows \<Rightarrow> let agg = aggregate_replay rows in m(da_slot_idx d \<mapsto> Filled (rp_weighted_unit_cost agg) (rp_total_cost agg)))
      drained Map.empty"

definition group_snapshot :: "string \<Rightarrow> PocPoolKey \<Rightarrow> PocTables \<Rightarrow> PocSnapshot" where
  "group_snapshot name pool tb =
    (if name = ''fifo'' then build_snapshot_fifo tb pool
     else if name = ''avg'' then build_snapshot_avg tb pool
     else if name = ''std'' then build_snapshot_std tb pool
     else default_snapshot pool)"

text \<open>Step 4: the plan, with its time and counts recorded.\<close>

definition plan_group :: "PocCostMethod \<Rightarrow> u8 \<Rightarrow> PocApplyBatch \<Rightarrow> PocSnapshot \<Rightarrow> ('z world_scheme, PocApplyResult) prog" where
  "plan_group m method_tag batch snapshot =
    pbind clock_ns (\<lambda>t0.
    let r = cm_plan_apply m batch snapshot in
    pbind clock_ns (\<lambda>t1.
    let elapsed_ns = t1 - t0;
        error_n = length (filter (\<lambda>er. er_error er \<noteq> None) (pr_per_event r)) in
    pbind (record_dispatch method_tag elapsed_ns (of_nat (length (pb_events batch))) (of_nat error_n)) (\<lambda>_.
    pbind (record_b3_total_ns elapsed_ns) (\<lambda>_. Return r))))"

text \<open>Step 5: the results by event number, errors and successes apart.\<close>

definition success_rows :: "PocApplyResult \<Rightarrow> nat \<Rightarrow> SlotResolution option" where
  "success_rows result =
    fold (\<lambda>er m. case er_error er of Some e \<Rightarrow> m
      | None \<Rightarrow> m(er_event_seq er \<mapsto> Filled (er_applied_unit_cost er) (er_applied_total_cost er))) (pr_per_event result) Map.empty"

definition error_rows :: "PocApplyResult \<Rightarrow> nat \<Rightarrow> SlotResolution option" where
  "error_rows result =
    fold (\<lambda>er m. case er_error er of Some e \<Rightarrow> m(er_event_seq er \<mapsto> Error (as_code e)) | None \<Rightarrow> m) (pr_per_event result) Map.empty"

text \<open>Step 6: the rows of the successes.\<close>

definition group_inserts :: "string \<Rightarrow> PocPoolKey \<Rightarrow> i64 \<Rightarrow> i64 \<Rightarrow> PocApplyResult \<Rightarrow> ('z world_scheme, unit) prog" where
  "group_inserts name pool ctx at result =
    pbind (if pr_consumption_inserts result = [] then Return ()
           else pbind (spi (insert_consumptions name ctx at 0 (pr_consumption_inserts result))) (\<lambda>_.
             if name = ''avg'' then spi (decrement_avg_aggregate pool (pr_consumption_inserts result)) else Return ())) (\<lambda>_.
    if pr_depletion_inserts result = [] then Return ()
    else spi (insert_depletions name ctx at 0 (pr_depletion_inserts result)))"

text \<open>Step 7: one resolution per drained request, in its order.\<close>

definition slot_resolution ::
  "(u32 \<Rightarrow> SlotResolution option) \<Rightarrow> PocApplyResult \<Rightarrow> nat \<times> DrainedApply \<Rightarrow> u32 \<times> SlotResolution" where
  "slot_resolution rep result p =
    (da_slot_idx (snd p),
     case rep (da_slot_idx (snd p)) of
       Some r \<Rightarrow> r
     | None \<Rightarrow>
         (case success_rows result (fst p) of
            Some r \<Rightarrow> r
          | None \<Rightarrow> (case error_rows result (fst p) of Some r \<Rightarrow> r | None \<Rightarrow> Error (as_code MethodNotFound))))"

definition process_group ::
  "string \<Rightarrow> DrainedApply list \<Rightarrow> u8 \<Rightarrow> PocPoolKey \<Rightarrow> i64 \<Rightarrow> i64 \<Rightarrow> ('z world_scheme, (u32 \<times> SlotResolution) list) prog" where
  "process_group lock_mode drained method_tag pool ctx at =
    (let name = method_name_for_tag method_tag in
     case resolve_method name of
       None \<Rightarrow> Return (map (\<lambda>d. (da_slot_idx d, Error (as_code MethodNotFound))) drained)
     | Some m \<Rightarrow>
         pbind (spi_read (\<lambda>tb. dedup_lookup tb (map da_event_issue_id drained) name)) (\<lambda>dedup.
         let events = to_plan_events dedup at drained in
         pbind (if events = [] then Return () else spi (acquire_pool_lock lock_mode pool)) (\<lambda>_.
         pbind (if events = [] then Return (default_snapshot pool) else spi_read (group_snapshot name pool)) (\<lambda>snapshot.
         pbind (if events = [] then Return empty_result
                else plan_group m method_tag \<lparr>pb_pool = pool, pb_events = events\<rparr> snapshot) (\<lambda>result.
         pbind (group_inserts name pool ctx at result) (\<lambda>_.
         Return (map (slot_resolution (replayed dedup drained) result) (enumerate 0 drained))))))))"

section \<open>Waking\<close>

text \<open>\<open>SetLatch\<close> wakes a process and changes none of this state.\<close>

definition signal_waiter :: "nat \<Rightarrow> u32 \<Rightarrow> ('z world_scheme, unit) prog" where
  "signal_waiter i slot_idx =
    pbind (read_slot_waiter_pid i slot_idx) (\<lambda>pid.
    if pid = 0 then Return ()
    else pbind clock_ns (\<lambda>now. stamp_set_latched_at_ns i slot_idx now))"

definition signal_ring_full_waiter :: "nat \<Rightarrow> ('z world_scheme, unit) prog" where
  "signal_ring_full_waiter i = pbind (read_ring_full_waiter i) (\<lambda>_. Return ())"

section \<open>Draining\<close>

definition drain_and_compensate :: "nat \<Rightarrow> nat \<Rightarrow> ('z world_scheme, nat) prog" where
  "drain_and_compensate i batch_size_max =
    pbind (drain_compensate_batch i batch_size_max) (\<lambda>drained.
    if drained = [] then Return 0
    else
      pbind (next_committer_tx_id i) (\<lambda>ctx.
      pbind (pfold (\<lambda>c _.
          pbind (spi (\<lambda>tb. Some (compensate_consumptions (dc_user_tx_xid c) ctx tb))) (\<lambda>_.
          spi (\<lambda>tb. Some (compensate_depletions (dc_user_tx_xid c) ctx tb)))) drained ()) (\<lambda>_.
      Return (length drained))))"

text \<open>The groups of a batch by pool hash and method; the order of the map that holds them is the parameter \<open>hash_order\<close>.\<close>

type_synonym group = "(u64 \<times> u8) \<times> DrainedApply list"

fun add_to_group :: "DrainedApply \<Rightarrow> group list \<Rightarrow> group list" where
  "add_to_group d [] = [((da_pool_hash d, da_method_tag d), [d])]"
| "add_to_group d ((k, ds) # gs) =
    (if k = (da_pool_hash d, da_method_tag d) then (k, ds @ [d]) # gs else (k, ds) # add_to_group d gs)"

definition group_drained :: "DrainedApply list \<Rightarrow> group list" where
  "group_drained drained = fold add_to_group drained []"

definition group_pool :: "DrainedApply list \<Rightarrow> PocPoolKey" where
  "group_pool ds = \<lparr>pk_sku_id = da_event_sku_id (ds ! 0), pk_location_id = da_event_location_id (ds ! 0)\<rparr>"

definition process_groups :: "string \<Rightarrow> i64 \<Rightarrow> i64 \<Rightarrow> group list \<Rightarrow> ('z world_scheme, (u32 \<times> SlotResolution) list) prog" where
  "process_groups lock_mode ctx at gs =
    pfold (\<lambda>(k, ds) out.
      pbind (process_group lock_mode ds (snd k) (group_pool ds) ctx at) (\<lambda>rs. Return (out @ rs))) gs []"

text \<open>
  Answering one slot: a filled result or an error code. An abandoned slot is passed over, any other state
  raises. The count of errors goes on to the next slot.
\<close>

definition fill_resolution :: "nat \<Rightarrow> i64 \<Rightarrow> u32 \<times> SlotResolution \<Rightarrow> u64 \<Rightarrow> ('z world_scheme, u64) prog" where
  "fill_resolution i ctx r errors =
    (let (u, tc, code, errors') = (case snd r of Filled u tc \<Rightarrow> (u, tc, 0, errors) | Error code \<Rightarrow> (0, 0, code, errors + 1)) in
     pbind (fill_slot_result_with_error i (fst r) u tc ctx code) (\<lambda>res.
     case res of
       Inl actual \<Rightarrow>
         if actual = SLOT_ABANDONED then pbind (signal_waiter i (fst r)) (\<lambda>_. Return errors') else Panicked
     | Inr _ \<Rightarrow> pbind (signal_waiter i (fst r)) (\<lambda>_. Return errors')))"

definition commit_batch ::
  "(group list \<Rightarrow> group list) \<Rightarrow> string \<Rightarrow> nat \<Rightarrow> DrainedApply list \<Rightarrow> ('z world_scheme, unit) prog" where
  "commit_batch hash_order lock_mode i drained =
    pbind (next_committer_tx_id i) (\<lambda>ctx.
    pbind clock_ns (\<lambda>now.
    let at = sint (now div 1000) in
    pbind (spi (\<lambda>tb. Some (insert_test_rows i drained ctx tb))) (\<lambda>_.
    pbind (process_groups lock_mode ctx at (hash_order (group_drained drained))) (\<lambda>all_resolutions.
    pbind (pfold (fill_resolution i ctx) all_resolutions 0) (\<lambda>errors.
    pbind (if errors > 0 then bump_shard_error i errors else Return ()) (\<lambda>_.
    pbind (record_batch_size i (of_nat (length drained))) (\<lambda>_.
    signal_ring_full_waiter i)))))))"

definition drain_and_commit ::
  "(group list \<Rightarrow> group list) \<Rightarrow> string \<Rightarrow> nat \<Rightarrow> nat \<Rightarrow> ('z world_scheme, nat) prog" where
  "drain_and_commit hash_order lock_mode i batch_size_max =
    pbind (drain_and_compensate i batch_size_max) (\<lambda>_.
    pbind (drain_apply_batch i batch_size_max) (\<lambda>drained.
    if drained = [] then Return 0
    else pbind (commit_batch hash_order lock_mode i drained) (\<lambda>_. Return (length drained))))"

end
