(* ===== verification/CommitterReplay.thy ===== *)
theory CommitterReplay
  imports Committer
begin

text \<open>
  What committing a group of requests does to the cost tables: every planned success leaves exactly the rows
  that price it, a request whose issue is already in the tables is answered from them and adds
  nothing, and no layer is drawn below zero.
\<close>

section \<open>Running a group\<close>

lemma exec_spi [simp]:
  "exec (spi stmt) w = (case stmt (tables w) of None \<Rightarrow> (None, w) | Some tb \<Rightarrow> (Some (), w\<lparr>tables := tb\<rparr>))"
  by (simp add: spi_def split: option.splits)

lemma exec_spi_read [simp]: "exec (spi_read query) w = (Some (query (tables w)), w)"
  by (simp add: spi_read_def)

lemma exec_clock [simp]: "exec clock_ns w = (Some (clock w), w)"
  by (simp add: clock_ns_def)

definition method_fits :: "string \<Rightarrow> PocApplyBatch \<Rightarrow> PocSnapshot \<Rightarrow> bool" where
  "method_fits name =
    (if name = ''fifo'' then fifo_fits else if name = ''avg'' then avg_fits else if name = ''std'' then std_fits else mock_fits)"

lemma tag_method:
  obtains m where "resolve_method (method_name_for_tag tag) = Some m"
    "cost_method (cm_plan_apply m) (method_fits (method_name_for_tag tag))"
proof -
  consider "method_name_for_tag tag = ''fifo''" | "method_name_for_tag tag = ''avg''" | "method_name_for_tag tag = ''std''"
    | "method_name_for_tag tag = ''mock''"
    unfolding method_name_for_tag_def by presburger
  then show ?thesis
    using that fifo.cost_method_axioms avg.cost_method_axioms std.cost_method_axioms mock.cost_method_axioms
    by cases (simp_all add: resolve_method_def method_fits_def)
qed

lemma exec_plan_group:
  "\<exists>w'. exec (plan_group m tag b s) w = (Some (cm_plan_apply m b s), w') \<and> tables w' = tables w"
  by (simp add: plan_group_def exec_pbind Let_def record_dispatch_def record_b3_total_ns_def upd_method_def upd_bottleneck_def)

text \<open>The rows that one group adds to the two cost tables.\<close>

definition group_adds :: "string \<Rightarrow> PocApplyResult \<Rightarrow> PocTables \<Rightarrow> PocTables \<Rightarrow> bool" where
  "group_adds name result tb tb' \<longleftrightarrow> same_pools tb tb' \<and>
    (\<exists>dn. tb_depletions tb' = tb_depletions tb @ dn \<and> map de_key dn = map dr_key (pr_depletion_inserts result) \<and>
      (\<forall>d\<in>set dn. de_method_used d = name \<and> 0 < de_qty d \<and> de_layer_id d \<in> la_layer_id ` set (tb_layers tb))) \<and>
    (\<exists>cn. tb_consumptions tb' = tb_consumptions tb @ cn \<and> map co_key cn = map cr_key (pr_consumption_inserts result) \<and>
      (\<forall>c\<in>set cn. co_method_used c = name))"

lemma exec_consumption_inserts:
  assumes "exec (if rows = [] then Return () else pbind (spi (insert_consumptions name ctx at 0 rows)) (\<lambda>_.
      if name = ''avg'' then spi (decrement_avg_aggregate pool rows) else Return ())) w = (Some (), w')"
  shows "same_pools (tables w) (tables w') \<and> tb_depletions (tables w') = tb_depletions (tables w) \<and>
    (\<exists>cn. tb_consumptions (tables w') = tb_consumptions (tables w) @ cn \<and> map co_key cn = map cr_key rows \<and> (\<forall>c\<in>set cn. co_method_used c = name))"
proof (cases "rows = []")
  case True
  then show ?thesis using assms by simp
next
  case False
  obtain tb1 where 1: "insert_consumptions name ctx at 0 rows (tables w) = Some tb1"
    using assms False by (auto simp: exec_pbind split: option.splits)
  have 2: "name = ''avg'' \<and> decrement_avg_aggregate pool rows tb1 = Some (tables w') \<or> tables w' = tb1"
    using assms False 1 by (auto simp: exec_pbind split: option.splits if_splits)
  show ?thesis
    using insert_consumptions_adds[OF 1] 2 decrement_frame[of pool rows tb1 "tables w'"] same_pools_trans by metis
qed

lemma exec_group_inserts:
  assumes "exec (group_inserts name pool ctx at r) w = (Some (), w')"
  shows "group_adds name r (tables w) (tables w')"
proof -
  obtain w1 where 1: "exec (if pr_consumption_inserts r = [] then Return () else
      pbind (spi (insert_consumptions name ctx at 0 (pr_consumption_inserts r))) (\<lambda>_.
      if name = ''avg'' then spi (decrement_avg_aggregate pool (pr_consumption_inserts r)) else Return ())) w = (Some (), w1)"
    "exec (if pr_depletion_inserts r = [] then Return () else spi (insert_depletions name ctx at 0 (pr_depletion_inserts r))) w1 = (Some (), w')"
    using assms unfolding group_inserts_def exec_pbind by (auto split: prod.splits option.splits)
  have 2: "insert_depletions name ctx at 0 (pr_depletion_inserts r) (tables w1) = Some (tables w')"
    using 1(2) by (auto split: if_splits option.splits)
  have 3: "same_pools (tables w) (tables w1)" "tb_depletions (tables w1) = tb_depletions (tables w)"
    "\<exists>cn. tb_consumptions (tables w1) = tb_consumptions (tables w) @ cn \<and> map co_key cn = map cr_key (pr_consumption_inserts r) \<and>
      (\<forall>c\<in>set cn. co_method_used c = name)"
    using exec_consumption_inserts[OF 1(1)] by auto
  have "tb_layers (tables w1) = tb_layers (tables w)" using 3(1) by (simp add: same_pools_def)
  then show ?thesis
    using insert_depletions_adds[OF 2] 3 same_pools_trans[OF 3(1)] by (simp add: group_adds_def) metis
qed

lemma snapshot_same:
  assumes "tb_layers tb' = tb_layers tb" "tb_depletions tb' = tb_depletions tb" "tb_avg tb' = tb_avg tb" "tb_standard_costs tb' = tb_standard_costs tb"
  shows "group_snapshot name pool tb' = group_snapshot name pool tb"
  using assms by (simp add: group_snapshot_def build_snapshot_fifo_def build_snapshot_avg_def build_snapshot_std_def open_layers_def
      effective_qty_def layer_consumed_def)

text \<open>The batch that a group plans and its result.\<close>

abbreviation group_dedup :: "u8 \<Rightarrow> DrainedApply list \<Rightarrow> PocTables \<Rightarrow> i64 \<Rightarrow> DedupRow list option" where
  "group_dedup tag ds tb \<equiv> dedup_lookup tb (map da_event_issue_id ds) (method_name_for_tag tag)"

definition group_batch :: "u8 \<Rightarrow> PocPoolKey \<Rightarrow> i64 \<Rightarrow> DrainedApply list \<Rightarrow> PocTables \<Rightarrow> PocApplyBatch" where
  "group_batch tag pool at ds tb = \<lparr>pb_pool = pool, pb_events = to_plan_events (group_dedup tag ds tb) at ds\<rparr>"

definition group_plan :: "u8 \<Rightarrow> PocPoolKey \<Rightarrow> i64 \<Rightarrow> DrainedApply list \<Rightarrow> PocTables \<Rightarrow> PocApplyResult" where
  "group_plan tag pool at ds tb =
    (if pb_events (group_batch tag pool at ds tb) = [] then empty_result
     else case resolve_method (method_name_for_tag tag) of
       None \<Rightarrow> empty_result
     | Some m \<Rightarrow> cm_plan_apply m (group_batch tag pool at ds tb) (group_snapshot (method_name_for_tag tag) pool tb))"

lemma exec_process_group:
  assumes "exec (process_group mode ds tag pool ctx at) w = (Some out, w')"
  shows "out = map (slot_resolution (replayed (group_dedup tag ds (tables w)) ds) (group_plan tag pool at ds (tables w))) (enumerate 0 ds) \<and>
    group_adds (method_name_for_tag tag) (group_plan tag pool at ds (tables w)) (tables w) (tables w')"
proof -
  let ?name = "method_name_for_tag tag" and ?events = "to_plan_events (group_dedup tag ds (tables w)) at ds"
  obtain m where m: "resolve_method ?name = Some m" using tag_method by metis
  show ?thesis
  proof (cases "?events = []")
    case True
    then have "exec (group_inserts ?name pool ctx at empty_result) w = (Some (), w')"
      "out = map (slot_resolution (replayed (group_dedup tag ds (tables w)) ds) empty_result) (enumerate 0 ds)"
      using assms m by (auto simp: process_group_def exec_pbind Let_def split: prod.splits option.splits)
    then show ?thesis using exec_group_inserts True by (simp add: group_plan_def group_batch_def)
  next
    case False
    obtain tb1 where lock: "acquire_pool_lock mode pool (tables w) = Some tb1"
      using assms m False by (auto simp: process_group_def exec_pbind Let_def split: option.splits)
    let ?w1 = "w\<lparr>tables := tb1\<rparr>" and ?b = "\<lparr>pb_pool = pool, pb_events = ?events\<rparr>"
    have frame: "same_pools (tables w) tb1" "tb_avg tb1 = tb_avg (tables w)" "tb_depletions tb1 = tb_depletions (tables w)"
      "tb_consumptions tb1 = tb_consumptions (tables w)" using lock_frame[OF lock] by auto
    have snap: "group_snapshot ?name pool tb1 = group_snapshot ?name pool (tables w)"
      using frame by (intro snapshot_same) (simp_all add: same_pools_def)
    let ?r = "cm_plan_apply m ?b (group_snapshot ?name pool (tables w))"
    have plan: "group_plan tag pool at ds (tables w) = ?r" using m False by (simp add: group_plan_def group_batch_def)
    obtain w2 where w2: "exec (plan_group m tag ?b (group_snapshot ?name pool (tables w))) ?w1 = (Some ?r, w2)" "tables w2 = tb1"
      using exec_plan_group[of m tag ?b "group_snapshot ?name pool (tables w)" ?w1] by auto
    have "exec (group_inserts ?name pool ctx at ?r) w2 = (Some (), w')"
      "out = map (slot_resolution (replayed (group_dedup tag ds (tables w)) ds) ?r) (enumerate 0 ds)"
      using assms m False lock snap w2(1) by (auto simp: process_group_def exec_pbind Let_def split: prod.splits option.splits)
    then show ?thesis
      using exec_group_inserts[of ?name pool ctx at ?r w2 w'] w2(2) frame unfolding plan
      by (auto simp: group_adds_def same_pools_def)
  qed
qed
section \<open>The rows of an issue\<close>

abbreviation planned_rows :: "PocApplyResult \<Rightarrow> i64 \<Rightarrow> DedupRow list" where
  "planned_rows r x \<equiv> map dep_row (filter (\<lambda>d. dr_issue_id d = x) (pr_depletion_inserts r)) @
    map con_row (filter (\<lambda>c. cr_issue_id c = x) (pr_consumption_inserts r))"

lemma filter_method: "(\<forall>d\<in>set ds. m d = name) \<Longrightarrow> filter (\<lambda>d. P d \<and> m d = name) ds = filter P ds"
  by (induction ds) auto

lemma group_adds_rows:
  assumes "group_adds name r tb tb'"
  shows "\<exists>ds cs. issue_rows tb' name x =
      (map de_row (filter (\<lambda>d. de_issue_id d = x \<and> de_method_used d = name) (tb_depletions tb)) @ ds) @
      (map co_row (filter (\<lambda>c. co_issue_id c = x \<and> co_method_used c = name) (tb_consumptions tb)) @ cs) \<and>
    ds @ cs = planned_rows r x \<and> ds = map dep_row (filter (\<lambda>d. dr_issue_id d = x) (pr_depletion_inserts r))"
proof -
  obtain dn cn where dn: "tb_depletions tb' = tb_depletions tb @ dn" "map de_key dn = map dr_key (pr_depletion_inserts r)"
      "\<forall>d\<in>set dn. de_method_used d = name"
    and cn: "tb_consumptions tb' = tb_consumptions tb @ cn" "map co_key cn = map cr_key (pr_consumption_inserts r)"
      "\<forall>c\<in>set cn. co_method_used c = name"
    using assms by (auto simp: group_adds_def)
  show ?thesis
    using de_rows_key[OF dn(2), of x] co_rows_key[OF cn(2), of x]
    by (simp add: issue_rows_def dn(1) cn(1) filter_method[OF dn(3)] filter_method[OF cn(3)])
qed

lemma fresh_issue_rows: "group_adds name r tb tb' \<Longrightarrow> issue_rows tb name x = [] \<Longrightarrow> issue_rows tb' name x = planned_rows r x"
  using group_adds_rows[of name r tb tb' x] by (auto simp: issue_rows_def)

lemma kept_issue_rows: "group_adds name r tb tb' \<Longrightarrow> planned_rows r x = [] \<Longrightarrow> issue_rows tb' name x = issue_rows tb name x"
  using group_adds_rows[of name r tb tb' x] by (auto simp: issue_rows_def)

section \<open>Resolutions\<close>

lemma fold_map_other:
  assumes "k \<notin> set (map er_event_seq pe)"
  shows "fold (\<lambda>er m. case f er of None \<Rightarrow> m | Some v \<Rightarrow> m(er_event_seq er \<mapsto> v)) pe m k = m k"
  using assms by (induction pe arbitrary: m) (auto split: option.splits)

lemma fold_map_at:
  assumes "distinct (map er_event_seq pe)" "er \<in> set pe"
  shows "fold (\<lambda>er m. case f er of None \<Rightarrow> m | Some v \<Rightarrow> m(er_event_seq er \<mapsto> v)) pe m (er_event_seq er) =
    (case f er of None \<Rightarrow> m (er_event_seq er) | Some v \<Rightarrow> Some v)"
  using assms
proof (induction pe arbitrary: m)
  case (Cons e pe)
  show ?case
  proof (cases "er = e")
    case True
    then show ?thesis using Cons.prems(1) by (simp add: fold_map_other split: option.splits)
  next
    case False
    then have "er_event_seq er \<noteq> er_event_seq e" "er \<in> set pe" using Cons.prems by (auto intro: rev_image_eqI)
    then show ?thesis using Cons.IH Cons.prems(1) by (simp split: option.splits)
  qed
qed simp

definition success_of :: "PocEventResult \<Rightarrow> SlotResolution option" where
  "success_of er = (if er_error er = None then Some (Filled (er_applied_unit_cost er) (er_applied_total_cost er)) else None)"

lemma success_rows_fold:
  "success_rows r = fold (\<lambda>er m. case success_of er of None \<Rightarrow> m | Some v \<Rightarrow> m(er_event_seq er \<mapsto> v)) (pr_per_event r) Map.empty"
  unfolding success_rows_def success_of_def by (intro fold_cong refl ext) (auto split: option.splits)

lemma success_rows_at:
  assumes "distinct (map er_event_seq (pr_per_event r))" "er \<in> set (pr_per_event r)"
  shows "success_rows r (er_event_seq er) = success_of er"
  unfolding success_rows_fold fold_map_at[OF assms, of success_of] by (simp split: option.splits)

lemma success_rows_planned: "success_rows r n = Some v \<Longrightarrow> n \<in> set (map er_event_seq (pr_per_event r))"
  using fold_map_other[of n "pr_per_event r" success_of Map.empty] unfolding success_rows_fold by fastforce

lemma error_rows_error: "error_rows r n = Some v \<Longrightarrow> \<exists>e. v = Error e"
proof -
  have "fold (\<lambda>er m. case er_error er of Some e \<Rightarrow> m(er_event_seq er \<mapsto> Error (as_code e)) | None \<Rightarrow> m) pe m n = Some v \<Longrightarrow>
      (\<And>v. m n = Some v \<Longrightarrow> \<exists>e. v = Error e) \<Longrightarrow> \<exists>e. v = Error e" for pe and m :: "nat \<Rightarrow> SlotResolution option"
    by (induction pe arbitrary: m) (force split: option.splits if_splits)+
  from this[of "pr_per_event r" Map.empty] show "error_rows r n = Some v \<Longrightarrow> \<exists>e. v = Error e" by (simp add: error_rows_def)
qed

lemma replayed_other:
  "s \<notin> set (map da_slot_idx ds) \<Longrightarrow> fold (\<lambda>d m. case dedup (da_event_issue_id d) of None \<Rightarrow> m
      | Some rows \<Rightarrow> let agg = aggregate_replay rows in m(da_slot_idx d \<mapsto> Filled (rp_weighted_unit_cost agg) (rp_total_cost agg))) ds m s = m s"
  by (induction ds arbitrary: m) (auto simp: Let_def split: option.splits)

lemma replayed_at:
  assumes "distinct (map da_slot_idx ds)" "d \<in> set ds"
  shows "replayed dedup ds (da_slot_idx d) = (case dedup (da_event_issue_id d) of None \<Rightarrow> None
    | Some rows \<Rightarrow> Some (Filled (rp_weighted_unit_cost (aggregate_replay rows)) (rp_total_cost (aggregate_replay rows))))"
proof -
  obtain xs ys where ds: "ds = xs @ d # ys" using split_list[OF assms(2)] by blast
  have "da_slot_idx d \<notin> set (map da_slot_idx xs)" "da_slot_idx d \<notin> set (map da_slot_idx ys)" using assms(1) ds by auto
  then show ?thesis unfolding replayed_def ds by (simp add: replayed_other Let_def split: option.splits)
qed

lemma planned_seqs: "distinct (map ae_event_seq (to_plan_events dedup at ds))"
  by (auto simp: to_plan_events_def group_event_def comp_def distinct_map_filter distinct_enumerate)
section \<open>Exactly once\<close>

definition group_fits :: "u8 \<Rightarrow> PocPoolKey \<Rightarrow> i64 \<Rightarrow> DrainedApply list \<Rightarrow> PocTables \<Rightarrow> bool" where
  "group_fits tag pool at ds tb \<longleftrightarrow>
    method_fits (method_name_for_tag tag) (group_batch tag pool at ds tb) (group_snapshot (method_name_for_tag tag) pool tb)"

lemma group_plan_method:
  assumes "pb_events (group_batch tag pool at ds tb) \<noteq> []"
  obtains m :: PocCostMethod where "cost_method (cm_plan_apply m) (method_fits (method_name_for_tag tag))"
    "group_plan tag pool at ds tb = cm_plan_apply m (group_batch tag pool at ds tb) (group_snapshot (method_name_for_tag tag) pool tb)"
proof -
  obtain m where "resolve_method (method_name_for_tag tag) = Some m" "cost_method (cm_plan_apply m) (method_fits (method_name_for_tag tag))"
    by (rule tag_method)
  then show ?thesis using assms that[of m] by (simp add: group_plan_def)
qed

lemma planned_issue:
  assumes "planned_rows (group_plan tag pool at ds tb) x \<noteq> []"
  shows "group_dedup tag ds tb x = None" "x \<in> da_event_issue_id ` set ds"
proof -
  have ne: "pb_events (group_batch tag pool at ds tb) \<noteq> []"
    using assms by (auto simp: group_plan_def empty_result_def)
  obtain m :: PocCostMethod where m: "cost_method (cm_plan_apply m) (method_fits (method_name_for_tag tag))"
    "group_plan tag pool at ds tb = cm_plan_apply m (group_batch tag pool at ds tb) (group_snapshot (method_name_for_tag tag) pool tb)"
    by (rule group_plan_method[OF ne])
  have "x \<in> ae_issue_id ` set (pb_events (group_batch tag pool at ds tb))"
    using assms cost_method.rows_planned[OF m(1), of "group_batch tag pool at ds tb" "group_snapshot (method_name_for_tag tag) pool tb"] m(2)
    by (auto simp: filter_empty_conv)
  then show "group_dedup tag ds tb x = None" "x \<in> da_event_issue_id ` set ds"
    by (auto simp: group_batch_def to_plan_events_def group_event_def in_set_enumerate_eq)
qed

lemma event_issues:
  assumes "distinct (map da_event_issue_id ds)"
  shows "distinct (map ae_issue_id (to_plan_events dedup at ds))"
proof -
  have "ae_issue_id \<circ> group_event at = da_event_issue_id \<circ> snd" by (simp add: group_event_def fun_eq_iff)
  moreover have "distinct (map (da_event_issue_id \<circ> snd) (enumerate 0 ds))" using assms by (simp flip: map_map)
  ultimately show ?thesis unfolding to_plan_events_def by (simp add: distinct_map_filter)
qed

lemma planned_event:
  assumes "j < length ds" "group_dedup tag ds tb (da_event_issue_id (ds ! j)) = None"
  obtains k where "k < length (pb_events (group_batch tag pool at ds tb))"
    "pb_events (group_batch tag pool at ds tb) ! k = group_event at (j, ds ! j)"
proof -
  have "(j, ds ! j) \<in> set (enumerate 0 ds)" using assms(1) by (simp add: in_set_enumerate_eq)
  then have "group_event at (j, ds ! j) \<in> set (pb_events (group_batch tag pool at ds tb))"
    using assms(2) by (auto simp: group_batch_def to_plan_events_def intro!: image_eqI[of _ _ "(j, ds ! j)"])
  then show ?thesis using that by (auto simp: in_set_conv_nth)
qed

lemma filled_rows:
  assumes "exec (process_group mode ds tag pool ctx at) w = (Some out, w')"
    and "distinct (map da_slot_idx ds)" "distinct (map da_event_issue_id ds)" "group_fits tag pool at ds (tables w)"
    and "d \<in> set ds" "(da_slot_idx d, Filled u t) \<in> set out"
  defines "rows \<equiv> issue_rows (tables w') (method_name_for_tag tag) (da_event_issue_id d)"
  shows "rows \<noteq> [] \<and> rp_weighted_unit_cost (aggregate_replay rows) = u \<and> rp_total_cost (aggregate_replay rows) = t"
proof -
  let ?tb = "tables w" and ?name = "method_name_for_tag tag" and ?x = "da_event_issue_id d"
  let ?dedup = "group_dedup tag ds ?tb" and ?r = "group_plan tag pool at ds ?tb" and ?b = "group_batch tag pool at ds ?tb"
  have out: "out = map (slot_resolution (replayed ?dedup ds) ?r) (enumerate 0 ds)" and adds: "group_adds ?name ?r ?tb (tables w')"
    using exec_process_group[OF assms(1)] by auto
  obtain j where j: "j < length ds" "ds ! j = d" using assms(5) by (auto simp: in_set_conv_nth)
  have res: "slot_resolution (replayed ?dedup ds) ?r (j, d) = (da_slot_idx d, Filled u t)"
  proof -
    obtain k where k: "k < length ds" "slot_resolution (replayed ?dedup ds) ?r (k, ds ! k) = (da_slot_idx d, Filled u t)"
      using assms(6) unfolding out by (auto simp: in_set_enumerate_eq)
    then have "da_slot_idx (ds ! k) = da_slot_idx (ds ! j)" using j(2) by (simp add: slot_resolution_def)
    then have "k = j" using assms(2) j(1) k(1) by (simp add: distinct_conv_nth) metis
    then show ?thesis using k(2) j(2) by simp
  qed
  show ?thesis
  proof (cases "?dedup ?x")
    case (Some rs)
    then have rs: "rs = issue_rows ?tb ?name ?x" "rs \<noteq> []" by (auto simp: dedup_lookup_def split: if_splits)
    have "planned_rows ?r ?x = []" using planned_issue(1)[where tag = tag and pool = pool and at = at and ds = ds and tb = ?tb and x = ?x] Some by fastforce
    then have "rows = rs" using kept_issue_rows[OF adds] rs(1) by (simp add: rows_def)
    moreover have "replayed ?dedup ds (da_slot_idx d) = Some (Filled (rp_weighted_unit_cost (aggregate_replay rs)) (rp_total_cost (aggregate_replay rs)))"
      using replayed_at[OF assms(2,5), of ?dedup] Some by simp
    ultimately show ?thesis using res rs(2) by (simp add: slot_resolution_def)
  next
    case None
    then have none: "issue_rows ?tb ?name ?x = []" using assms(5) by (auto simp: dedup_lookup_def split: if_splits)
    obtain k where k: "k < length (pb_events ?b)" "pb_events ?b ! k = group_event at (j, d)"
      using planned_event[where j = j and ds = ds and tag = tag and tb = ?tb and pool = pool and at = at] j None by metis
    obtain m :: PocCostMethod where m: "cost_method (cm_plan_apply m) (method_fits ?name)" "?r = cm_plan_apply m ?b (group_snapshot ?name pool ?tb)"
      by (rule group_plan_method[of tag pool at ds ?tb]) (use k(1) in auto)
    let ?er = "pr_per_event ?r ! k"
    have order: "map er_event_seq (pr_per_event ?r) = map ae_event_seq (pb_events ?b)"
      using cost_method.in_order[OF m(1)] m(2) by simp
    then have len: "length (pr_per_event ?r) = length (pb_events ?b)" by (metis length_map)
    have er: "?er \<in> set (pr_per_event ?r)" "er_event_seq ?er = j"
      using k len arg_cong[OF order, of "\<lambda>xs. xs ! k"] by (simp_all add: group_event_def)
    have "distinct (map er_event_seq (pr_per_event ?r))" unfolding order by (simp add: group_batch_def planned_seqs)
    from success_rows_at[OF this er(1)] have "success_rows ?r j = success_of ?er" using er(2) by simp
    moreover have "replayed ?dedup ds (da_slot_idx d) = None" using replayed_at[OF assms(2,5), of ?dedup] None by simp
    ultimately have "success_of ?er = Some (Filled u t)"
      using res error_rows_error[of ?r j]
      by (cases "success_of ?er"; cases "error_rows ?r j") (auto simp: slot_resolution_def)
    then have ok: "er_error ?er = None" "er_applied_unit_cost ?er = u" "er_applied_total_cost ?er = t"
      by (simp_all add: success_of_def split: if_splits)
    have issue: "ae_issue_id (pb_events ?b ! k) = ?x" using k(2) by (simp add: group_event_def)
    have "distinct (map ae_issue_id (pb_events ?b))" using event_issues[OF assms(3)] by (simp add: group_batch_def)
    from cost_method.event_rows[OF m(1) assms(4)[unfolded group_fits_def] this k(1)]
    have "planned_rows ?r ?x \<noteq> [] \<and> aggregate_replay (planned_rows ?r ?x) = \<lparr>rp_qty = ae_qty (pb_events ?b ! k), rp_total_cost = t, rp_weighted_unit_cost = u\<rparr>"
      unfolding m(2)[symmetric] issue using ok by simp
    then show ?thesis using fresh_issue_rows[OF adds none] by (simp add: rows_def)
  qed
qed

definition stocked :: PocTables where
  "stocked = \<lparr>tb_layers = [\<lparr>la_layer_id = 1, la_sku_id = 1, la_location_id = 1, la_qty = 5, la_unit_cost = 10, la_born_at = 0, la_born_seq = 1, la_source_kind = ''receipt''\<rparr>,
      \<lparr>la_layer_id = 2, la_sku_id = 1, la_location_id = 1, la_qty = 5, la_unit_cost = 20, la_born_at = 0, la_born_seq = 2, la_source_kind = ''receipt''\<rparr>],
    tb_depletions = [], tb_consumptions = [], tb_avg = Map.empty, tb_standard_costs = Map.empty, tb_test_rows = [],
    tb_comp_consumptions = [], tb_comp_depletions = [], tb_pool_locks = Map.empty, tb_pool_lock_anchors = (\<lambda>_. False),
    tb_next_layer_id = 3, tb_next_born_seq = 3, tb_next_depletion_id = 1, tb_next_consumption_id = 1\<rparr>"

definition warehouse :: "pid set \<Rightarrow> PocTables \<Rightarrow> world" where
  "warehouse ps tb = machine.extend (booted ps) \<lparr>tables = tb, clock = 1000000\<rparr>"

definition request :: "u32 \<Rightarrow> u64 \<Rightarrow> i64 \<Rightarrow> i64 \<Rightarrow> DrainedApply" where
  "request slot n q issue =
    \<lparr>da_slot_idx = slot, da_request_seq = n, da_pool_hash = 0, da_backend_pid = 11, da_method_tag = METHOD_FIFO, da_event_qty = q,
     da_event_at_micros = 0, da_event_issue_id = issue, da_event_sku_id = 1, da_event_location_id = 1, da_user_tx_xid = 9\<rparr>"

definition pool1 :: PocPoolKey where
  "pool1 = \<lparr>pk_sku_id = 1, pk_location_id = 1\<rparr>"

lemma tables_warehouse [simp]: "tables (warehouse ps tb) = tb"
  by (simp add: warehouse_def machine.defs)

text \<open>A group without a pool lock whose plan only depletes layers, evaluated in stages.\<close>

lemma run_depleting_group:
  assumes "group_dedup tag ds (tables w) = dedup" "to_plan_events dedup at ds \<noteq> []" "group_plan tag pool at ds (tables w) = r" "pr_consumption_inserts r = []"
  shows "\<exists>w1. tables w1 = tables w \<and> exec (process_group ''none'' ds tag pool ctx at) w =
    (case exec (group_inserts (method_name_for_tag tag) pool ctx at r) w1 of
       (None, w') \<Rightarrow> (None, w') | (Some _, w') \<Rightarrow> (Some (map (slot_resolution (replayed dedup ds) r) (enumerate 0 ds)), w'))"
proof -
  let ?name = "method_name_for_tag tag" and ?b = "\<lparr>pb_pool = pool, pb_events = to_plan_events dedup at ds\<rparr>"
  obtain m where m: "resolve_method ?name = Some m" using tag_method by metis
  have r: "cm_plan_apply m ?b (group_snapshot ?name pool (tables w)) = r"
    using assms m by (simp add: group_plan_def group_batch_def)
  obtain w1 where w1: "exec (plan_group m tag ?b (group_snapshot ?name pool (tables w))) w = (Some r, w1)" "tables w1 = tables w"
    using exec_plan_group[of m tag ?b "group_snapshot ?name pool (tables w)" w] r by auto
  have "acquire_pool_lock ''none'' pool (tables w) = Some (tables w)" by (simp add: acquire_pool_lock_def)
  then have "exec (process_group ''none'' ds tag pool ctx at) w =
      exec (pbind (group_inserts ?name pool ctx at r) (\<lambda>_. Return (map (slot_resolution (replayed dedup ds) r) (enumerate 0 ds)))) w1"
    using m assms(1,2) w1(1) by (simp add: process_group_def exec_pbind Let_def)
  then show ?thesis using w1(2) by (intro exI[of _ w1]) (simp add: exec_pbind split: prod.splits option.splits)
qed

lemma depleting_group_commits:
  assumes "group_dedup tag ds (tables w) = dedup" "to_plan_events dedup at ds \<noteq> []" "group_plan tag pool at ds (tables w) = r" "pr_consumption_inserts r = []"
    and "insert_depletions (method_name_for_tag tag) ctx at 0 (pr_depletion_inserts r) (tables w) = Some tb'"
  shows "\<exists>w'. exec (process_group ''none'' ds tag pool ctx at) w =
    (Some (map (slot_resolution (replayed dedup ds) r) (enumerate 0 ds)), w') \<and> tables w' = tb'"
  using run_depleting_group[OF assms(1-4), of ctx] assms(4,5)
  by (cases "pr_depletion_inserts r = []") (auto simp: group_inserts_def exec_pbind)

lemma depleting_group_raises:
  assumes "group_dedup tag ds (tables w) = dedup" "to_plan_events dedup at ds \<noteq> []" "group_plan tag pool at ds (tables w) = r" "pr_consumption_inserts r = []"
    and "insert_depletions (method_name_for_tag tag) ctx at 0 (pr_depletion_inserts r) (tables w) = None"
  shows "fst (exec (process_group ''none'' ds tag pool ctx at) w) = None"
  using run_depleting_group[OF assms(1-4), of ctx] assms(4,5)
  by (cases "pr_depletion_inserts r = []") (auto simp: group_inserts_def exec_pbind)

lemma replaying_group:
  assumes "group_dedup tag ds (tables w) = dedup" "to_plan_events dedup at ds = []"
  shows "\<exists>w'. exec (process_group mode ds tag pool ctx at) w =
    (Some (map (slot_resolution (replayed dedup ds) empty_result) (enumerate 0 ds)), w') \<and> tables w' = tables w"
proof -
  obtain m where m: "resolve_method (method_name_for_tag tag) = Some m" using tag_method by metis
  show ?thesis using m assms by (simp add: process_group_def exec_pbind Let_def group_inserts_def empty_result_def)
qed

lemma stocked_units: "group_snapshot ''fifo'' pool1 stocked =
    \<lparr>ps_pool = pool1, ps_layers = [\<lparr>lv_layer_id = 1, lv_unit_cost = 10, lv_effective_qty = 5, lv_born_at_micros = 0, lv_born_seq = 1\<rparr>,
       \<lparr>lv_layer_id = 2, lv_unit_cost = 20, lv_effective_qty = 5, lv_born_at_micros = 0, lv_born_seq = 2\<rparr>],
     ps_avg_unit_cost = None, ps_standard_cost = None, ps_total_available_qty = 10\<rparr>"
  by (simp add: group_snapshot_def build_snapshot_fifo_def open_layers_def effective_qty_def layer_consumed_def stocked_def pool1_def clamp_i64_def i64_defs)

lemma fifo_name [simp]: "method_name_for_tag METHOD_FIFO = ''fifo''"
  by (simp add: method_name_for_tag_def)

lemma no_rows_yet: "dedup_lookup stocked xs m = Map.empty"
  by (simp add: dedup_lookup_def issue_rows_def stocked_def fun_eq_iff)

lemmas plan_eval = group_plan_def group_batch_def resolve_method_def stocked_units fifo_plan_apply_def layer_cursor_def to_plan_events_def group_event_def
  fifo_event_def available_def request_def wrap_i64_def clamp_i128_def i64_defs no_rows_yet

lemmas resolution_eval = slot_resolution_def replayed_def success_rows_def error_rows_def empty_result_def filled_def unfilled_def signed_divide_int_def

definition sold :: PocTables where
  "sold = stocked\<lparr>tb_depletions :=
      [\<lparr>de_depletion_id = 1, de_layer_id = 1, de_qty = 5, de_unit_cost = 10, de_consumed_at = 0, de_consumed_seq = 0, de_issue_id = 1,
        de_method_used = ''fifo'', de_committer_tx_id = 1, de_user_tx_xid = 9\<rparr>,
       \<lparr>de_depletion_id = 2, de_layer_id = 2, de_qty = 2, de_unit_cost = 20, de_consumed_at = 0, de_consumed_seq = 1, de_issue_id = 1,
        de_method_used = ''fifo'', de_committer_tx_id = 1, de_user_tx_xid = 9\<rparr>],
    tb_next_depletion_id := 3\<rparr>"

lemma first_plan: "group_plan METHOD_FIFO pool1 0 [request 0 1 7 1] stocked = empty_result\<lparr>
    pr_per_event := [filled (group_event 0 (0, request 0 1 7 1)) 12 90],
    pr_depletion_inserts := [depletion (group_event 0 (0, request 0 1 7 1)) 1 10 5, depletion (group_event 0 (0, request 0 1 7 1)) 2 20 2]\<rparr>"
  by (simp add: plan_eval empty_result_def signed_divide_int_def)

lemma first_run:
  "\<exists>w'. exec (process_group ''none'' [request 0 1 7 1] METHOD_FIFO pool1 1 0) (warehouse {11} stocked) = (Some [(0, Filled 12 90)], w') \<and> tables w' = sold"
proof -
  have ins: "insert_depletions ''fifo'' 1 0 0 (pr_depletion_inserts (group_plan METHOD_FIFO pool1 0 [request 0 1 7 1] stocked)) stocked = Some sold"
    unfolding first_plan by (simp add: insert_depletion_row_def stocked_def sold_def depletion_def group_event_def request_def wrap_i64_def)
  have "map (slot_resolution (replayed Map.empty [request 0 1 7 1]) (group_plan METHOD_FIFO pool1 0 [request 0 1 7 1] stocked)) (enumerate 0 [request 0 1 7 1]) =
      [(0, Filled 12 90)]"
    unfolding first_plan by (simp add: resolution_eval group_event_def request_def)
  then show ?thesis
    using depleting_group_commits[where tag = METHOD_FIFO and ds = "[request 0 1 7 1]" and w = "warehouse {11} stocked" and dedup = Map.empty and at = 0 and pool = pool1 and ctx = 1 and tb' = sold, OF _ _ refl] ins
    by (simp add: no_rows_yet first_plan empty_result_def to_plan_events_def)
qed

lemma second_run:
  "\<exists>v'. exec (process_group ''none'' [request 1 2 7 1] METHOD_FIFO pool1 2 0) (warehouse {11} sold) = (Some [(1, Filled 12 90)], v')"
  using replaying_group[where tag = METHOD_FIFO and ds = "[request 1 2 7 1]" and w = "warehouse {11} sold" and at = 0 and mode = "''none''" and pool = pool1 and ctx = 2, OF refl]
  by (simp add: to_plan_events_def resolution_eval dedup_lookup_def issue_rows_def sold_def stocked_def request_def aggregate_replay_def replay_sums_def
      de_row_def clamp_i64_def clamp_i128_def i64_defs) blast

lemma stocked_fits: "group_fits METHOD_FIFO pool1 0 [request 0 1 7 1] stocked"
  by (simp add: group_fits_def method_fits_def method_name_for_tag_def method_tags fifo_fits_def cursor_ok_def layer_cursor_def group_snapshot_def
      build_snapshot_fifo_def open_layers_def effective_qty_def layer_consumed_def stocked_def pool1_def i64_defs)


text \<open>
  Two requests with one issue in the same batch are both planned, since the lookup sees only the tables. When they
  draw on different layers, both are charged and a replay returns their sum; when they share a
  layer, the unique key of the depletion table raises and the whole batch fails.
\<close>

definition charged_twice :: PocTables where
  "charged_twice = stocked\<lparr>tb_depletions :=
      [\<lparr>de_depletion_id = 1, de_layer_id = 1, de_qty = 5, de_unit_cost = 10, de_consumed_at = 0, de_consumed_seq = 0, de_issue_id = 1,
        de_method_used = ''fifo'', de_committer_tx_id = 1, de_user_tx_xid = 9\<rparr>,
       \<lparr>de_depletion_id = 2, de_layer_id = 2, de_qty = 5, de_unit_cost = 20, de_consumed_at = 0, de_consumed_seq = 1, de_issue_id = 1,
        de_method_used = ''fifo'', de_committer_tx_id = 1, de_user_tx_xid = 9\<rparr>],
    tb_next_depletion_id := 3\<rparr>"

lemma twice_plan: "group_plan METHOD_FIFO pool1 0 [request 0 1 5 1, request 1 2 5 1] stocked = empty_result\<lparr>
    pr_per_event := [filled (group_event 0 (0, request 0 1 5 1)) 10 50, filled (group_event 0 (1, request 1 2 5 1)) 20 100],
    pr_depletion_inserts := [depletion (group_event 0 (0, request 0 1 5 1)) 1 10 5, depletion (group_event 0 (1, request 1 2 5 1)) 2 20 5]\<rparr>"
  by (simp add: plan_eval empty_result_def signed_divide_int_def)

lemma duplicate_issue_charged_twice:
  "\<exists>w'. exec (process_group ''none'' [request 0 1 5 1, request 1 2 5 1] METHOD_FIFO pool1 1 0) (warehouse {11} stocked) =
      (Some [(0, Filled 10 50), (1, Filled 20 100)], w') \<and> tables w' = charged_twice"
proof -
  let ?ds = "[request 0 1 5 1, request 1 2 5 1]"
  have ins: "insert_depletions ''fifo'' 1 0 0 (pr_depletion_inserts (group_plan METHOD_FIFO pool1 0 ?ds stocked)) stocked = Some charged_twice"
    unfolding twice_plan by (simp add: insert_depletion_row_def stocked_def charged_twice_def depletion_def group_event_def request_def wrap_i64_def)
  have "map (slot_resolution (replayed Map.empty ?ds) (group_plan METHOD_FIFO pool1 0 ?ds stocked)) (enumerate 0 ?ds) =
      [(0, Filled 10 50), (1, Filled 20 100)]"
    unfolding twice_plan by (simp add: resolution_eval group_event_def request_def)
  then show ?thesis
    using depleting_group_commits[where tag = METHOD_FIFO and ds = ?ds and w = "warehouse {11} stocked" and dedup = Map.empty and at = 0 and pool = pool1 and ctx = 1 and tb' = charged_twice, OF _ _ refl] ins
    by (simp add: no_rows_yet twice_plan empty_result_def to_plan_events_def)
qed

lemma duplicate_issue_replayed:
  "\<exists>w'. exec (process_group ''none'' [request 2 3 5 1] METHOD_FIFO pool1 2 0) (warehouse {11} charged_twice) = (Some [(2, Filled 15 150)], w')"
  using replaying_group[where tag = METHOD_FIFO and ds = "[request 2 3 5 1]" and w = "warehouse {11} charged_twice" and at = 0 and mode = "''none''" and pool = pool1 and ctx = 2, OF refl]
  by (simp add: to_plan_events_def resolution_eval dedup_lookup_def issue_rows_def charged_twice_def stocked_def request_def aggregate_replay_def replay_sums_def
      de_row_def clamp_i64_def clamp_i128_def i64_defs) blast

lemma duplicate_issue_raises:
  "fst (exec (process_group ''none'' [request 0 1 2 1, request 1 2 2 1] METHOD_FIFO pool1 1 0) (warehouse {11} stocked)) = None"
proof -
  let ?ds = "[request 0 1 2 1, request 1 2 2 1]"
  have plan: "group_plan METHOD_FIFO pool1 0 ?ds stocked = empty_result\<lparr>
      pr_per_event := [filled (group_event 0 (0, request 0 1 2 1)) 10 20, filled (group_event 0 (1, request 1 2 2 1)) 10 20],
      pr_depletion_inserts := [depletion (group_event 0 (0, request 0 1 2 1)) 1 10 2, depletion (group_event 0 (1, request 1 2 2 1)) 1 10 2]\<rparr>"
    by (simp add: plan_eval empty_result_def signed_divide_int_def)
  have "insert_depletions ''fifo'' 1 0 0 (pr_depletion_inserts (group_plan METHOD_FIFO pool1 0 ?ds stocked)) stocked = None"
    unfolding plan by (simp add: insert_depletion_row_def stocked_def depletion_def group_event_def request_def wrap_i64_def)
  then show ?thesis
    using depleting_group_raises[where tag = METHOD_FIFO and ds = ?ds and w = "warehouse {11} stocked" and dedup = Map.empty and at = 0 and pool = pool1 and ctx = 1, OF _ _ refl]
    by (simp add: no_rows_yet plan empty_result_def to_plan_events_def)
qed

text \<open>A compensation is recorded, but no snapshot reads it: the quantity of an aborted consumption stays consumed.\<close>

lemma compensation_not_restored:
  "build_snapshot_fifo (compensate_xid xid ctx tb) pool = build_snapshot_fifo tb pool"
  "build_snapshot_avg (compensate_xid xid ctx tb) pool = build_snapshot_avg tb pool"
  by (simp_all add: compensate_xid_def compensate_consumptions_def compensate_depletions_def build_snapshot_fifo_def open_layers_def
      effective_qty_def layer_consumed_def build_snapshot_avg_def)
section \<open>Layers are not overdrawn\<close>

definition layers_ok :: "PocTables \<Rightarrow> bool" where
  "layers_ok tb \<longleftrightarrow> distinct (map la_layer_id (tb_layers tb)) \<and>
    (\<forall>l\<in>set (tb_layers tb). layer_consumed tb (la_layer_id l) \<le> la_qty l)"

abbreviation in_layer :: "i64 \<Rightarrow> cunit list \<Rightarrow> int" where
  "in_layer l us \<equiv> int (length (filter (\<lambda>u. fst u = l) us))"

lemma in_layer_rows:
  assumes "map de_key dn = map dr_key rs" "\<forall>d\<in>set dn. 0 < de_qty d"
  shows "(\<Sum>d\<leftarrow>filter (\<lambda>d. de_layer_id d = l) dn. de_qty d) = in_layer l (row_units rs)"
  using assms
proof (induction dn arbitrary: rs)
  case (Cons d dn)
  then obtain r rs' where "rs = r # rs'" "de_key d = dr_key r" "map de_key dn = map dr_key rs'" by (cases rs) auto
  moreover from this have "de_layer_id d = dr_layer_id r" "de_qty d = dr_qty r" by (auto simp: de_key_def dr_key_def)
  ultimately show ?case using Cons.IH[of rs'] Cons.prems(2) by (auto simp: filter_replicate)
qed simp

lemma in_layer_units:
  assumes "distinct (map fst c)" "(l, u, q) \<in> set c"
  shows "in_layer l (units c) = int (nat q)"
  using assms
proof (induction c)
  case (Cons x c)
  obtain l' u' q' where x: "x = (l', u', q')" by (cases x)
  have none: "in_layer k (units c) = 0" if "k \<notin> set (map fst c)" for k
    using that by (induction c) (auto simp: filter_replicate)
  show ?case
  proof (cases "l = l'")
    case True
    then have "(u, q) = (u', q')" using Cons.prems x by force
    then show ?thesis using none[of l] Cons.prems(1) x True by (simp add: filter_replicate)
  next
    case False
    then show ?thesis using Cons x by (auto simp: filter_replicate)
  qed
qed simp

lemma in_layer_none: "l \<notin> set (map fst c) \<Longrightarrow> in_layer l (units c) = 0"
  by (induction c) (auto simp: filter_replicate)

lemma in_layer_prefix: "prefix us vs \<Longrightarrow> in_layer l us \<le> in_layer l vs"
  by (auto simp: prefix_def)

lemma open_units:
  assumes "distinct (map la_layer_id (tb_layers tb))" "l \<in> set (tb_layers tb)"
  shows "in_layer (la_layer_id l) (units (layer_cursor (build_snapshot_fifo tb pool))) \<le> max 0 (effective_qty tb l)"
proof -
  let ?c = "layer_cursor (build_snapshot_fifo tb pool)"
  have c: "?c = map (\<lambda>l. (la_layer_id l, la_unit_cost l, effective_qty tb l)) (open_layers tb pool)"
    by (simp add: layer_cursor_def build_snapshot_fifo_def)
  have "distinct (open_layers tb pool)" "inj_on la_layer_id (set (open_layers tb pool))"
    using assms(1) by (auto simp: open_layers_def distinct_map intro: inj_on_subset)
  then have d: "distinct (map fst ?c)" by (simp add: c comp_def distinct_map)
  show ?thesis
  proof (cases "l \<in> set (open_layers tb pool)")
    case True
    then have "(la_layer_id l, la_unit_cost l, effective_qty tb l) \<in> set ?c" by (simp add: c image_iff) metis
    from in_layer_units[OF d this] show ?thesis by simp
  next
    case False
    have "la_layer_id l \<notin> set (map fst ?c)"
    proof
      assume "la_layer_id l \<in> set (map fst ?c)"
      then obtain k where k: "k \<in> set (open_layers tb pool)" "la_layer_id k = la_layer_id l" by (auto simp: c)
      then have "k \<in> set (tb_layers tb)" by (simp add: open_layers_def)
      then have "k = l" using k(2) assms by (auto simp: distinct_map dest: inj_onD)
      then show False using k(1) False by simp
    qed
    from in_layer_none[OF this] show ?thesis by simp
  qed
qed

text \<open>
  C40. A group never draws more from a layer than was received into it: if every layer covers its depletions
  before the group, it does after it, whatever the requests ask for, for every method and pool whose
  quantity and value are within range.
\<close>

theorem group_keeps_layers:
  assumes "exec (process_group mode ds tag pool ctx at) w = (Some out, w')" "layers_ok (tables w)" "group_fits tag pool at ds (tables w)"
  shows "layers_ok (tables w')"
proof -
  let ?tb = "tables w" and ?r = "group_plan tag pool at ds (tables w)"
  obtain dn where dn: "tb_layers (tables w') = tb_layers ?tb" "tb_depletions (tables w') = tb_depletions ?tb @ dn"
    "map de_key dn = map dr_key (pr_depletion_inserts ?r)" "\<forall>d\<in>set dn. 0 < de_qty d"
    using exec_process_group[OF assms(1)] by (auto simp: group_adds_def same_pools_def)
  have sum: "layer_consumed (tables w') l = layer_consumed ?tb l + in_layer l (row_units (pr_depletion_inserts ?r))" for l
    using in_layer_rows[OF dn(3,4), of l] by (simp add: layer_consumed_def dn(2))
  have "in_layer (la_layer_id l) (row_units (pr_depletion_inserts ?r)) \<le> la_qty l - layer_consumed ?tb (la_layer_id l)"
    if l: "l \<in> set (tb_layers ?tb)" for l
  proof (cases "pr_depletion_inserts ?r = []")
    case True
    then show ?thesis using assms(2) l by (simp add: layers_ok_def)
  next
    case False
    have fifo: "method_name_for_tag tag = ''fifo'' \<and>
        ?r = fifo_plan_apply (group_batch tag pool at ds ?tb) (build_snapshot_fifo ?tb pool)"
      using False by (auto simp: group_plan_def empty_result_def resolve_method_def group_snapshot_def avg_plan_apply_def std_plan_apply_def
          mock_plan_apply_def split: if_splits prod.splits)
    have fits: "cursor_ok (layer_cursor (build_snapshot_fifo ?tb pool))"
      using assms(3) fifo by (simp add: group_fits_def method_fits_def fifo_fits_def group_snapshot_def)
    obtain outs where outs: "pr_depletion_inserts ?r = concat (map snd outs)"
      "list_all2 (fifo_outcome (map fst (layer_cursor (build_snapshot_fifo ?tb pool)))) (zip (pb_events (group_batch tag pool at ds ?tb))
        (fifo_taken (units (layer_cursor (build_snapshot_fifo ?tb pool))) (pb_events (group_batch tag pool at ds ?tb)))) outs"
      using fifo_plan_outcomes[OF fits, of "group_batch tag pool at ds ?tb"] fifo by metis
    have "prefix (row_units (pr_depletion_inserts ?r)) (units (layer_cursor (build_snapshot_fifo ?tb pool)))"
      using outcomes_results[OF outs(2)] taken_prefix outs(1) by simp
    from in_layer_prefix[OF this, of "la_layer_id l"] open_units[of ?tb l pool] show ?thesis
      using assms(2) l by (simp add: layers_ok_def effective_qty_def)
  qed
  then show ?thesis using assms(2) sum by (fastforce simp: layers_ok_def dn(1))
qed

theorem group_keeps_layers_witness:
  "\<exists>w'. exec (process_group ''none'' [request 0 1 7 1] METHOD_FIFO pool1 1 0) (warehouse {11} stocked) = (Some [(0, Filled 12 90)], w') \<and> layers_ok (tables w')"
proof -
  obtain w' where w': "exec (process_group ''none'' [request 0 1 7 1] METHOD_FIFO pool1 1 0) (warehouse {11} stocked) = (Some [(0, Filled 12 90)], w')"
    using first_run by blast
  have "layers_ok (tables w')"
    by (rule group_keeps_layers[OF w']) (simp_all add: stocked_fits, simp add: layers_ok_def layer_consumed_def stocked_def)
  then show ?thesis using w' by blast
qed

end
