(* ===== verification/Spec2Isabelle.thy ===== *)
theory Spec2Isabelle
  imports Consumer Drain CommitterReplay
begin

text \<open>
  A verification of the cost ledger \<open>poc/ledger-v3.2\<close>.

  Plan of the library: Prelude (integers, results), Numeric (banker's rounding),
  Plan and Snapshot (the data of a posting plan), Wac, Standard, Specific, Method
  (the costing methods and their dispatch), Strict (the FIFO/LIFO layer walk),
  Tables (the database), Cte, BulkWrite, Hydration, Submit, Drain (the hot path),
  Recalc (the costing engine), Close (period close), Pgoutput and Consumer (the feed).
\<close>

end
